(* ===== verification/Prelude.thy ===== *)
theory Prelude
  imports Main "HOL-Library.Word"
begin

text \<open>
  Shared ground of the development: the machine integers of the code, the outcome type of
  code that may exit, abort or read outside an array, byte ranges of the address space, and
  the word arithmetic that the components share.
\<close>

unbundle bit_operations_syntax

section \<open>Machine integers and memory\<close>

type_synonym u64 = "64 word"
type_synonym u32 = "32 word"
type_synonym u8 = "8 word"
type_synonym ptr = "64 word"
type_synonym memory = "64 word \<Rightarrow> 8 word"

section \<open>Outcomes\<close>

text \<open>
  What a call does besides returning: \<open>exit(0)\<close>, \<open>abort()\<close>, an access outside the
  bounds of one of the runtime's arrays, or more loop iterations than the fuel allows.
\<close>

datatype 'a run = Done 'a | Exited | Aborted | Faulted | OutOfFuel

primrec bindR :: "'a run \<Rightarrow> ('a \<Rightarrow> 'b run) \<Rightarrow> 'b run" where
  "bindR (Done x) k = k x"
| "bindR Exited k = Exited"
| "bindR Aborted k = Aborted"
| "bindR Faulted k = Faulted"
| "bindR OutOfFuel k = OutOfFuel"

definition returns :: "'a run \<Rightarrow> bool" where
  "returns r = (case r of Done _ \<Rightarrow> True | _ \<Rightarrow> False)"

named_theorems run_simps "how outcomes compose"

lemma returns_simps [simp]:
  "returns (Done x)" "\<not> returns Exited" "\<not> returns Aborted" "\<not> returns Faulted"
  "\<not> returns OutOfFuel"
  by (simp_all add: returns_def)

lemma bindR_assoc [run_simps]: "bindR (bindR r f) g = bindR r (\<lambda>x. bindR (f x) g)"
  by (cases r) auto

lemma bindR_Done_iff [run_simps]: "bindR r k = Done y \<longleftrightarrow> (\<exists>x. r = Done x \<and> k x = Done y)"
  by (cases r) auto

lemma bindR_Done_right [simp]: "bindR r Done = r"
  by (cases r) auto

lemma returns_bindR: "returns (bindR r k) \<longleftrightarrow> (\<exists>x. r = Done x \<and> returns (k x))"
  by (cases r) auto

lemma returnsE: "returns r \<Longrightarrow> (\<And>x. r = Done x \<Longrightarrow> P) \<Longrightarrow> P"
  by (cases r) auto

section \<open>Outcomes ordered by definedness\<close>

instantiation run :: (type) order_bot
begin

definition bot_run :: "'a run" where "bot_run = OutOfFuel"

definition less_eq_run :: "'a run \<Rightarrow> 'a run \<Rightarrow> bool" where
  "less_eq_run r q \<longleftrightarrow> r = OutOfFuel \<or> r = q"

definition less_run :: "'a run \<Rightarrow> 'a run \<Rightarrow> bool" where
  "less_run r q \<longleftrightarrow> r = OutOfFuel \<and> q \<noteq> OutOfFuel"

instance
  by standard (auto simp: bot_run_def less_eq_run_def less_run_def)

end

lemma run_le_iff [simp]:
  "OutOfFuel \<le> (r :: 'a run)" "Done x \<le> r \<longleftrightarrow> r = Done x" "Exited \<le> r \<longleftrightarrow> r = Exited" "Aborted \<le> r \<longleftrightarrow> r = Aborted"
  "Faulted \<le> r \<longleftrightarrow> r = Faulted" "r \<le> OutOfFuel \<longleftrightarrow> r = OutOfFuel"
  by (auto simp: less_eq_run_def)

named_theorems fuel_mono "what keeps the order of outcomes"

lemma bindR_mono [fuel_mono]: "r \<le> q \<Longrightarrow> (\<And>x. k x \<le> l x) \<Longrightarrow> bindR r k \<le> bindR q l"
  by (cases r; cases q) (simp_all add: less_eq_run_def)

lemma if_mono [fuel_mono]:
  fixes r :: "'a run"
  shows "(b \<Longrightarrow> r \<le> q) \<Longrightarrow> (\<not> b \<Longrightarrow> r' \<le> q') \<Longrightarrow> (if b then r else r') \<le> (if b then q else q')"
  by simp

lemma case_mono [fuel_mono]:
  fixes k :: "'x \<Rightarrow> 'y \<Rightarrow> 'a run" and h :: "'x \<Rightarrow> 'a run"
  shows "(\<And>x y. k x y \<le> l x y) \<Longrightarrow> (case p of (x, y) \<Rightarrow> k x y) \<le> (case p of (x, y) \<Rightarrow> l x y)"
    "(\<And>x. h x \<le> l1 x) \<Longrightarrow> (\<And>y. h' y \<le> l2 y) \<Longrightarrow>
      (case e of Inl x \<Rightarrow> h x | Inr y \<Rightarrow> h' y) \<le> (case e of Inl x \<Rightarrow> l1 x | Inr y \<Rightarrow> l2 y)"
    "r \<le> q \<Longrightarrow> (\<And>x. h x \<le> l1 x) \<Longrightarrow> (case z of None \<Rightarrow> r | Some x \<Rightarrow> h x) \<le> (case z of None \<Rightarrow> q | Some x \<Rightarrow> l1 x)"
  by (simp_all split: prod.split sum.split option.split)

lemma let_mono [fuel_mono]: "(\<And>x. x = a \<Longrightarrow> k x \<le> l x) \<Longrightarrow> Let a k \<le> (Let a l :: 'a run)"
  by (simp add: Let_def)

section \<open>Word arithmetic\<close>

named_theorems word_nat "words read as natural numbers"

lemma word_less_unat [word_nat]: "(a :: 'a::len word) < b \<longleftrightarrow> unat a < unat b"
  by (simp add: word_less_nat_alt)

lemma word_le_unat [word_nat]: "(a :: 'a::len word) \<le> b \<longleftrightarrow> unat a \<le> unat b"
  by (simp add: word_le_nat_alt)

lemma unat_sub_le: "(b :: 'a::len word) \<le> a \<Longrightarrow> unat (a - b) = unat a - unat b"
  by (simp add: unat_sub)

lemma unat_add_no_wrap:
  "unat (a :: 'a::len word) + unat b < 2 ^ LENGTH('a) \<Longrightarrow> unat (a + b) = unat a + unat b"
  by (simp add: unat_word_ariths)

lemma word_less_diff:
  assumes "c \<le> (n :: 'a::len word)" "k < n - c"
  shows "c + k < n" "unat (c + k) = unat c + unat k"
proof -
  have "unat (n - c) = unat n - unat c" using assms(1) by (rule unat_sub_le)
  with assms have lt: "unat c + unat k < unat n" by (simp add: word_less_unat)
  then show u: "unat (c + k) = unat c + unat k"
    using unsigned_less [of n, where 'a = nat]
    by (intro unat_add_no_wrap) (rule less_trans)
  show "c + k < n" using lt by (simp only: word_less_unat u)
qed

lemma unat_ucast_32_64 [simp]: "unat (ucast (x :: u32) :: u64) = unat x"
  by transfer simp

lemma sint_small: "unat (x :: u32) < 2 ^ 31 \<Longrightarrow> sint x = uint x"
proof -
  assume "unat x < 2 ^ 31"
  then have "int (unat x) < int (2 ^ 31)" by (simp only: of_nat_less_iff)
  then have lt: "uint x < 2 ^ 31" by simp
  have "- (2 ^ 31) \<le> (0 :: int)" by simp
  also have "0 \<le> uint x" by simp
  finally have "- (2 ^ 31) \<le> uint x" .
  with lt signed_take_bit_int_eq_self [of 31 "uint x"] show ?thesis by (simp add: sint_uint)
qed

lemma scast_small: "unat (x :: u32) < 2 ^ 31 \<Longrightarrow> (scast x :: u64) = ucast x"
  by (simp add: scast_eq sint_small)

lemma sless_small:
  "unat (a :: u32) < 2 ^ 31 \<Longrightarrow> unat b < 2 ^ 31 \<Longrightarrow> word_sless a b \<longleftrightarrow> unat a < unat b"
  by (simp only: word_sless_alt sint_small word_less_nat_alt word_less_def [symmetric])

lemma unat_u32_lt [simp]: "unat (x :: u32) < 4294967296"
  using unsigned_less [of x, where 'a = nat] by simp

lemma unat_u64_lt [simp]: "unat (x :: u64) < 18446744073709551616"
  using unsigned_less [of x, where 'a = nat] by simp

lemma div_4096_drop_bit: "(x :: u64) div 4096 = drop_bit 12 x"
  by (simp add: drop_bit_eq_div)

lemma mod_4096_mask: "(x :: u64) mod 4096 = x AND 4095"
proof -
  have "x AND 4095 = x AND mask 12" by (simp add: mask_eq_exp_minus_1)
  also have "\<dots> = take_bit 12 x" by (simp add: take_bit_eq_mask)
  also have "\<dots> = x mod 4096" by (simp add: take_bit_eq_mod)
  finally show ?thesis by simp
qed

lemma unat_div_4096 [simp]: "unat ((x :: u64) div 4096) = unat x div 4096"
  by (simp add: unat_div)

lemma unat_mod_4096 [simp]: "unat ((x :: u64) mod 4096) = unat x mod 4096"
  by (simp add: unat_mod)

lemma div_mod_inside:
  assumes "a mod 4096 + k < (4096 :: nat)"
  shows "(a + k) div 4096 = a div 4096" "(a + k) mod 4096 = a mod 4096 + k"
  using assms by (simp_all add: div_add1_eq [of a k] mod_add_left_eq [of a 4096 k, symmetric])

lemma div_mod_next:
  assumes "a mod 4096 + k = (4096 :: nat)"
  shows "(a + k) div 4096 = a div 4096 + 1" "(a + k) mod 4096 = 0"
proof -
  have "a + k = (a div 4096 + 1) * 4096"
    using assms div_mult_mod_eq [of a 4096] unfolding distrib_right by linarith
  then show "(a + k) div 4096 = a div 4096 + 1" "(a + k) mod 4096 = 0"
    by (simp_all only: nonzero_mult_div_cancel_right mod_mult_self2_is_0)
qed

section \<open>Byte ranges\<close>

text \<open>
  \<open>within d n p\<close>: the address \<open>p\<close> is one of the \<open>n\<close> addresses from \<open>d\<close>. The
  difference is taken on words, so a range is also right where it wraps.
\<close>

definition within :: "ptr \<Rightarrow> u64 \<Rightarrow> ptr \<Rightarrow> bool" where
  "within d n p = (p - d < n)"

lemma within_0 [simp]: "\<not> within d 0 p"
  by (simp add: within_def)

lemma withinI: "k < n \<Longrightarrow> within d n (d + k)"
  by (simp add: within_def)

lemma withinE:
  assumes "within d n p"
  obtains k where "p = d + k" "k < n"
  using assms by (metis add.commute diff_add_cancel within_def)

text \<open>A range is its first \<open>c\<close> addresses and the rest.\<close>

lemma within_split:
  assumes "c \<le> n"
  shows "within d n p \<longleftrightarrow> within d c p \<or> \<not> within d c p \<and> within (d + c) (n - c) p"
proof -
  have eq: "p - (d + c) = (p - d) - c" by simp
  show ?thesis
  proof (cases "p - d < c")
    case True
    with assms show ?thesis by (auto simp: within_def)
  next
    case False
    then have "c \<le> p - d" by simp
    then have "unat (p - d - c) = unat (p - d) - unat c" by (rule unat_sub_le)
    moreover have "unat (n - c) = unat n - unat c" using assms by (rule unat_sub_le)
    ultimately show ?thesis
      using \<open>c \<le> p - d\<close> assms unfolding within_def eq word_nat by linarith
  qed
qed

lemma within_subset: "c \<le> n \<Longrightarrow> within d c p \<Longrightarrow> within d n p"
  by (simp add: within_def)

end
