(* ===== verification/Carm_Config.thy ===== *)
theory Carm_Config
  imports Prelude
begin

text \<open>
  Constants and pointer encoding of the runtime: \<open>inc/carm_object_config.hpp\<close> and the
  pointer part of \<open>inc/carm.hpp\<close>. A remote address carries bit 60 (\<open>CARM_PTR\<close>); the
  rest of it is an offset into the far address space, cut into objects of \<open>OBJ_SIZE\<close>
  bytes.
\<close>

section \<open>Object configuration\<close>

definition OBJ_SIZE :: u64 where "OBJ_SIZE = 4096"
definition TOTAL_OBJECTS :: u64 where "TOTAL_OBJECTS = 41943040"
definition OBJ_SIZE_MASK :: u64 where "OBJ_SIZE_MASK = OBJ_SIZE - 1"
definition OBJ_SIZE_LOG :: nat where "OBJ_SIZE_LOG = 12"
definition CARM_PTR :: u64 where "CARM_PTR = push_bit 60 1"
definition LOOP_ID_POS :: nat where "LOOP_ID_POS = 50"
definition LOOP_OBJ_MASK :: u64 where "LOOP_OBJ_MASK = push_bit 50 1 - 1"
definition kDirtyClear :: u64 where "kDirtyClear = 0x400"
definition kPresentClear :: u64 where "kPresentClear = 0x100"
definition kHotClear :: u64 where "kHotClear = 0x80"
definition kEvacuationSet :: u64 where "kEvacuationSet = 0x10000"
definition kObjectDataAddrBitPos :: nat where "kObjectDataAddrBitPos = 17"

section \<open>Runtime constants\<close>

definition CARM_ALLOC_SIZE_MULTIPLE :: u64 where "CARM_ALLOC_SIZE_MULTIPLE = 8"
definition START_ADDR :: u64 where "START_ADDR = 0x1000000000000000"
definition FLUSH_CACHE :: u64 where "FLUSH_CACHE = 0xfffffffffffff"
definition MAX_LOOPS :: u64 where "MAX_LOOPS = 1024"

lemmas config_defs =
  OBJ_SIZE_def TOTAL_OBJECTS_def OBJ_SIZE_MASK_def OBJ_SIZE_LOG_def CARM_PTR_def
  LOOP_ID_POS_def LOOP_OBJ_MASK_def kDirtyClear_def kPresentClear_def kHotClear_def
  kEvacuationSet_def kObjectDataAddrBitPos_def CARM_ALLOC_SIZE_MULTIPLE_def START_ADDR_def
  FLUSH_CACHE_def MAX_LOOPS_def

section \<open>Remote pointers\<close>

record carm_ptr =
  cp_addr :: u64
  cp_offset :: u64
  cp_obj_index :: u64
  cp_mut :: u64
  cp_is_carmptr :: bool

definition check_carm_object :: "ptr \<Rightarrow> bool" where
  "check_carm_object a = (a AND CARM_PTR \<noteq> 0)"

definition get_carm_ptr :: "ptr \<Rightarrow> u64 \<Rightarrow> carm_ptr" where
  "get_carm_ptr a m =
     (if \<not> check_carm_object a
      then \<lparr>cp_addr = 0, cp_offset = 0, cp_obj_index = 0, cp_mut = 0, cp_is_carmptr = False\<rparr>
      else let ad = a XOR CARM_PTR
           in \<lparr>cp_addr = ad, cp_offset = ad mod OBJ_SIZE, cp_obj_index = ad div OBJ_SIZE, cp_mut = m,
               cp_is_carmptr = True\<rparr>)"

end
