(* ===== verification/Fuel.thy ===== *)
theory Fuel
  imports Prelude
begin

text \<open>
  Fuel. A loop that takes fuel may run out of it, and \<open>OutOfFuel\<close> is the least outcome: more fuel
  turns it into another one and changes nothing else. An operation that is \<open>fuelled\<close> has at most one
  result, whatever the fuel; the components interpret the locale on their operations.
\<close>

section \<open>Fuelled operations\<close>

locale fuelled =
  fixes op_with :: "nat \<Rightarrow> 'a \<Rightarrow> 'b run"
  assumes one_more: "op_with f x \<le> op_with (Suc f) x"
begin

lemma more: "f \<le> g \<Longrightarrow> op_with f x \<le> op_with g x"
  by (rule lift_Suc_mono_le [of "\<lambda>f. op_with f x"]) (rule one_more)

lemma stable: "op_with f x \<noteq> OutOfFuel \<Longrightarrow> f \<le> g \<Longrightarrow> op_with g x = op_with f x"
  using more [of f g x] by (auto simp: less_eq_run_def)

lemma agree: "op_with f x \<noteq> OutOfFuel \<Longrightarrow> op_with g x \<noteq> OutOfFuel \<Longrightarrow> op_with f x = op_with g x"
  using stable [of f x g] stable [of g x f] by (metis nat_le_linear)

end

end
