(* ===== verification/C_Memory.thy ===== *)
theory C_Memory
  imports Fuel
begin

text \<open>
  The C library functions the runtime falls back on for local pointers, as functions on the
  byte memory of the process: \<open>memmove\<close>, \<open>memset\<close>, \<open>memcmp\<close>, \<open>memchr\<close>, and the
  string functions, whose scan for the terminating zero takes fuel because a string without
  one has no end. \<open>memcmp\<close> and \<open>strcmp\<close> return the sign of the first difference, which
  is all the standard fixes.
\<close>

section \<open>Blocks\<close>

definition c_memmove :: "memory \<Rightarrow> ptr \<Rightarrow> ptr \<Rightarrow> u64 \<Rightarrow> memory" where
  "c_memmove m d s n = (\<lambda>p. if within d n p then m (s + (p - d)) else m p)"

definition c_memset :: "memory \<Rightarrow> ptr \<Rightarrow> u8 \<Rightarrow> u64 \<Rightarrow> memory" where
  "c_memset m d c n = (\<lambda>p. if within d n p then c else m p)"

fun memcmp_n :: "memory \<Rightarrow> ptr \<Rightarrow> ptr \<Rightarrow> nat \<Rightarrow> int" where
  "memcmp_n m a b 0 = 0"
| "memcmp_n m a b (Suc n) =
     (if m a = m b then memcmp_n m (a + 1) (b + 1) n else if m a < m b then -1 else 1)"

definition c_memcmp :: "memory \<Rightarrow> ptr \<Rightarrow> ptr \<Rightarrow> u64 \<Rightarrow> int" where
  "c_memcmp m a b n = memcmp_n m a b (unat n)"

text \<open>The index of the first byte equal to \<open>c\<close> among the first \<open>n\<close> bytes.\<close>

fun find_byte :: "memory \<Rightarrow> ptr \<Rightarrow> u8 \<Rightarrow> nat \<Rightarrow> nat option" where
  "find_byte m a c 0 = None"
| "find_byte m a c (Suc n) =
     (if m a = c then Some 0 else map_option Suc (find_byte m (a + 1) c n))"

definition c_memchr :: "memory \<Rightarrow> ptr \<Rightarrow> int \<Rightarrow> u64 \<Rightarrow> ptr" where
  "c_memchr m a c n =
     (case find_byte m a (word_of_int c) (unat n) of None \<Rightarrow> 0 | Some k \<Rightarrow> a + of_nat k)"

section \<open>Strings\<close>

fun c_strlen :: "nat \<Rightarrow> memory \<Rightarrow> ptr \<Rightarrow> u64 run" where
  "c_strlen 0 m s = OutOfFuel"
| "c_strlen (Suc f) m s =
     (if m s = 0 then Done 0 else bindR (c_strlen f m (s + 1)) (\<lambda>n. Done (n + 1)))"

definition c_strcpy :: "nat \<Rightarrow> memory \<Rightarrow> ptr \<Rightarrow> ptr \<Rightarrow> memory run" where
  "c_strcpy f m d s = bindR (c_strlen f m s) (\<lambda>n. Done (c_memmove m d s (n + 1)))"

text \<open>\<open>strncpy\<close>: the string up to \<open>n\<close> bytes, then zeros up to \<open>n\<close> bytes.\<close>

definition c_strncpy :: "memory \<Rightarrow> ptr \<Rightarrow> ptr \<Rightarrow> u64 \<Rightarrow> memory" where
  "c_strncpy m d s n =
     (let l = (case find_byte m s 0 (unat n) of None \<Rightarrow> n | Some k \<Rightarrow> of_nat k)
      in c_memset (c_memmove m d s l) (d + l) 0 (n - l))"

fun c_strcmp :: "nat \<Rightarrow> memory \<Rightarrow> ptr \<Rightarrow> ptr \<Rightarrow> int run" where
  "c_strcmp 0 m a b = OutOfFuel"
| "c_strcmp (Suc f) m a b =
     (if m a \<noteq> m b then Done (if m a < m b then -1 else 1)
      else if m a = 0 then Done 0 else c_strcmp f m (a + 1) (b + 1))"

section \<open>Wide characters\<close>

text \<open>\<open>wchar_t\<close> is a signed 32-bit integer, stored with its low byte first.\<close>

definition load32 :: "memory \<Rightarrow> ptr \<Rightarrow> u32" where
  "load32 m a = ucast (m a) OR push_bit 8 (ucast (m (a + 1))) OR
     push_bit 16 (ucast (m (a + 2))) OR push_bit 24 (ucast (m (a + 3)))"

fun c_wmemcmp :: "memory \<Rightarrow> ptr \<Rightarrow> ptr \<Rightarrow> nat \<Rightarrow> int" where
  "c_wmemcmp m a b 0 = 0"
| "c_wmemcmp m a b (Suc n) =
     (if load32 m a = load32 m b then c_wmemcmp m (a + 4) (b + 4) n
      else if word_sless (load32 m a) (load32 m b) then -1 else 1)"

section \<open>Number conversion\<close>

text \<open>
  \<open>strtoul\<close> and \<open>strtol\<close>: white space, a sign, a prefix that depends on the base, then the
  longest run of digits. A base outside 0, 2..36 gives 0, as does a text without digits.
  The conversion gives the unsigned magnitude, the sign, and the address where it stopped.
\<close>

definition is_space :: "u8 \<Rightarrow> bool" where
  "is_space c \<longleftrightarrow> c = 32 \<or> 9 \<le> c \<and> c \<le> 13"

definition digit_val :: "u8 \<Rightarrow> nat" where
  "digit_val c =
     (if 48 \<le> c \<and> c \<le> 57 then unat (c - 48)
      else if 97 \<le> c \<and> c \<le> 122 then unat (c - 97) + 10
      else if 65 \<le> c \<and> c \<le> 90 then unat (c - 65) + 10 else 99)"

fun skip_space :: "nat \<Rightarrow> memory \<Rightarrow> ptr \<Rightarrow> ptr run" where
  "skip_space 0 m p = OutOfFuel"
| "skip_space (Suc f) m p = (if is_space (m p) then skip_space f m (p + 1) else Done p)"

fun digits :: "nat \<Rightarrow> memory \<Rightarrow> nat \<Rightarrow> ptr \<Rightarrow> nat \<Rightarrow> (nat \<times> ptr) run" where
  "digits 0 m base p acc = OutOfFuel"
| "digits (Suc f) m base p acc =
     (if digit_val (m p) < base then digits f m base (p + 1) (acc * base + digit_val (m p))
      else Done (acc, p))"

definition has_hex_prefix :: "memory \<Rightarrow> ptr \<Rightarrow> bool" where
  "has_hex_prefix m p \<longleftrightarrow> m p = 48 \<and> (m (p + 1) = 120 \<or> m (p + 1) = 88) \<and> digit_val (m (p + 2)) < 16"

definition c_strtox :: "nat \<Rightarrow> memory \<Rightarrow> ptr \<Rightarrow> int \<Rightarrow> (nat \<times> bool \<times> ptr) run" where
  "c_strtox f m nptr base =
     (if base = 1 \<or> base < 0 \<or> 36 < base then Done (0, False, nptr)
      else bindR (skip_space f m nptr) (\<lambda>p.
        let neg = (m p = 45); p1 = (if m p = 45 \<or> m p = 43 then p + 1 else p);
            hex = (base = 0 \<or> base = 16) \<and> has_hex_prefix m p1;
            b = (if base \<noteq> 0 then nat base else if hex then 16 else if m p1 = 48 then 8 else 10);
            p2 = (if hex then p1 + 2 else p1)
        in bindR (digits f m b p2 0) (\<lambda>(n, q). Done (n, neg, if q = p2 then nptr else q))))"

definition c_strtoul :: "nat \<Rightarrow> memory \<Rightarrow> ptr \<Rightarrow> int \<Rightarrow> (u64 \<times> ptr) run" where
  "c_strtoul f m nptr base =
     bindR (c_strtox f m nptr base) (\<lambda>(n, neg, q).
       Done (if 2 ^ 64 \<le> n then - 1 else if neg then - of_nat n else of_nat n, q))"

definition c_strtol :: "nat \<Rightarrow> memory \<Rightarrow> ptr \<Rightarrow> int \<Rightarrow> (u64 \<times> ptr) run" where
  "c_strtol f m nptr base =
     bindR (c_strtox f m nptr base) (\<lambda>(n, neg, q).
       Done (if neg then if 2 ^ 63 < n then - (2 ^ 63) else - of_nat n
             else if 2 ^ 63 \<le> n then 2 ^ 63 - 1 else of_nat n, q))"

section \<open>Lemmas\<close>

lemma c_memmove_0 [simp]: "c_memmove m d s 0 = m"
  by (simp add: c_memmove_def)

lemma c_memset_0 [simp]: "c_memset m d c 0 = m"
  by (simp add: c_memset_def)

lemma c_memmove_in: "k < n \<Longrightarrow> c_memmove m d s n (d + k) = m (s + k)"
  by (simp add: c_memmove_def withinI)

lemma c_memmove_out: "\<not> within d n p \<Longrightarrow> c_memmove m d s n p = m p"
  by (simp add: c_memmove_def)

lemma c_memset_in: "within d n p \<Longrightarrow> c_memset m d c n p = c"
  by (simp add: c_memset_def)

lemma c_memset_out: "\<not> within d n p \<Longrightarrow> c_memset m d c n p = m p"
  by (simp add: c_memset_def)

lemma find_byte_Some:
  "find_byte m a c n = Some k \<Longrightarrow>
     k < n \<and> m (a + of_nat k) = c \<and> (\<forall>j<k. m (a + of_nat j) \<noteq> c)"
proof (induction n arbitrary: a k)
  case (Suc n)
  show ?case
  proof (cases "m a = c")
    case False
    with Suc.prems obtain k' where k': "find_byte m (a + 1) c n = Some k'" "k = Suc k'"
      by auto
    note IH = Suc.IH [OF k'(1)]
    have "m (a + of_nat j) \<noteq> c" if "j < k" for j
    proof (cases j)
      case (Suc i)
      with IH k'(2) that have "m (a + 1 + of_nat i) \<noteq> c" by simp
      with Suc show ?thesis by (simp add: add.assoc)
    qed (use False in simp)
    with IH k'(2) show ?thesis by (simp add: add.assoc)
  qed (use Suc.prems in simp)
qed simp

lemma find_byte_None:
  "find_byte m a c n = None \<Longrightarrow> j < n \<Longrightarrow> m (a + of_nat j) \<noteq> c"
proof (induction n arbitrary: a j)
  case (Suc n)
  from Suc.prems(1) have a: "m a \<noteq> c" and n: "find_byte m (a + 1) c n = None"
    by (simp_all split: if_splits)
  show ?case
  proof (cases j)
    case (Suc i)
    with Suc.prems(2) have "m (a + 1 + of_nat i) \<noteq> c" by (intro Suc.IH [OF n]) simp
    with Suc show ?thesis by (simp add: add.assoc)
  qed (use a in simp)
qed simp

lemma c_strlen_enough:
  assumes "m (s + of_nat n) = 0" "\<forall>k<n. m (s + of_nat k) \<noteq> 0" "n < f"
  shows "c_strlen f m s = Done (of_nat n)"
  using assms
proof (induction n arbitrary: f s)
  case 0
  then show ?case by (cases f) auto
next
  case (Suc n)
  obtain g where f: "f = Suc g" using Suc.prems(3) by (cases f) simp_all
  have "m s \<noteq> 0" using Suc.prems(2) [rule_format, of 0] by simp
  moreover have "c_strlen g m (s + 1) = Done (of_nat n)"
  proof (rule Suc.IH)
    show "m (s + 1 + of_nat n) = 0" using Suc.prems(1) by (simp add: algebra_simps)
    show "\<forall>k<n. m (s + 1 + of_nat k) \<noteq> 0"
      using Suc.prems(2) [rule_format, of "Suc k" for k] by (simp add: add.assoc)
  qed (use Suc.prems(3) f in simp)
  ultimately show ?case by (simp add: f add.commute)
qed

section \<open>Fuel\<close>

lemma c_strlen_more [fuel_mono]: "c_strlen f m p \<le> c_strlen (Suc f) m p"
  by (induction f arbitrary: p) (simp, subst (1 2) c_strlen.simps, intro fuel_mono order_refl)

lemma c_strcmp_more [fuel_mono]: "c_strcmp f m p q \<le> c_strcmp (Suc f) m p q"
  by (induction f arbitrary: p q) (simp, subst (1 2) c_strcmp.simps, intro fuel_mono order_refl)

lemma skip_space_more [fuel_mono]: "skip_space f m p \<le> skip_space (Suc f) m p"
  by (induction f arbitrary: p) (simp, subst (1 2) skip_space.simps, intro fuel_mono order_refl)

lemma digits_more [fuel_mono]: "digits f m b p acc \<le> digits (Suc f) m b p acc"
  by (induction f arbitrary: p acc) (simp, subst (1 2) digits.simps, intro fuel_mono order_refl)

lemma c_strto_more [fuel_mono]: "c_strtox f m p b \<le> c_strtox (Suc f) m p b"
  "c_strtoul f m p b \<le> c_strtoul (Suc f) m p b" "c_strtol f m p b \<le> c_strtol (Suc f) m p b"
  "c_strcpy f m p q \<le> c_strcpy (Suc f) m p q"
  unfolding c_strtoul_def c_strtol_def c_strtox_def c_strcpy_def by (intro fuel_mono order_refl)+

end
