(* ===== verification/Runtime_State.thy ===== *)
theory Runtime_State
  imports Carm_Config C_Memory
begin

text \<open>
  The state of the runtime process and what lies outside the repository. AIFM (the
  \<open>far_memory\<close> library, a git submodule) and the C heap allocator are a parameter
  \<open>env_ops\<close>: one function per call the code makes into them, over an environment state
  \<open>'e\<close> the model never looks into. What the code relies on is the predicate
  \<open>env_laws\<close>, stated with ghost observers \<open>env_view\<close> of that state: which handles exist,
  where an object resides locally, its copy in far memory, whether AIFM takes it for modified,
  and the object index it carries.
\<close>

section \<open>The environment as a parameter\<close>

type_synonym handle = nat

text \<open>
  Objects AIFM evicted during a call, as the evacuation threads report them to
  \<open>update_cache_object\<close>: object index and new metadata.
\<close>

type_synonym evacs = "(u64 \<times> u64) list"

record 'e env_ops =
  e_alloc :: "u64 \<Rightarrow> u64 \<Rightarrow> 'e \<times> memory \<Rightarrow> handle \<times> evacs \<times> 'e \<times> memory"
  e_set_index :: "handle \<Rightarrow> u64 \<Rightarrow> 'e \<Rightarrow> 'e"
  e_deref :: "bool \<Rightarrow> bool \<Rightarrow> handle \<Rightarrow> 'e \<times> memory \<Rightarrow> u64 \<times> evacs \<times> 'e \<times> memory"
  e_enter :: "'e \<times> memory \<Rightarrow> evacs \<times> 'e \<times> memory"
  e_exit :: "'e \<times> memory \<Rightarrow> evacs \<times> 'e \<times> memory"
  e_add_trace :: "u64 \<Rightarrow> bool \<Rightarrow> u64 \<Rightarrow> 'e \<Rightarrow> 'e"
  e_static_prefetch :: "u64 \<Rightarrow> u64 \<Rightarrow> u64 \<Rightarrow> u64 \<Rightarrow> 'e \<Rightarrow> 'e"
  e_mark_region :: "u64 \<Rightarrow> 'e \<Rightarrow> u64 \<times> 'e"
  e_invalidate_region :: "u64 \<Rightarrow> 'e \<Rightarrow> 'e"
  e_malloc :: "u64 \<Rightarrow> 'e \<Rightarrow> ptr \<times> 'e"
  e_free :: "ptr \<Rightarrow> 'e \<Rightarrow> 'e"
  e_realloc :: "ptr \<Rightarrow> u64 \<Rightarrow> 'e \<times> memory \<Rightarrow> ptr \<times> 'e \<times> memory"

record 'e env_view =
  v_ok :: "'e \<Rightarrow> bool"
  v_valid :: "'e \<Rightarrow> handle \<Rightarrow> bool"
  v_res :: "'e \<Rightarrow> handle \<Rightarrow> u64 option"
  v_remote :: "'e \<Rightarrow> handle \<Rightarrow> u64 \<Rightarrow> u8"
  v_dirty :: "'e \<Rightarrow> handle \<Rightarrow> bool"
  v_idx :: "'e \<Rightarrow> handle \<Rightarrow> u64"
  v_heap :: "ptr \<Rightarrow> bool"

section \<open>The state of the process\<close>

text \<open>
  An entry of \<open>ptrs_\<close>: never written (the array comes from \<open>malloc\<close>), \<open>nullptr\<close>, or
  an object.
\<close>

datatype slot = Uninit | Null | Obj handle

record carm_loop =
  cl_obj_index :: u64
  cl_static_prefetch :: u64
  cl_active :: bool
  cl_carm_ptr :: bool
  cl_step_value_constant :: bool
  cl_carm_start_addr :: u64
  cl_stack_addr :: u64
  cl_start_obj_index :: u64
  cl_start_obj_offset :: u64
  cl_region_addr :: u64
  cl_stride :: u64

record 'e rt =
  mem :: memory
  env :: 'e
  obj_state :: "u64 \<Rightarrow> u64"
  in_scope :: bool
  prev_obj_index :: "u64 \<Rightarrow> u64"
  carm_rt :: bool
  aspace_start :: u64
  aspace_end :: u64
  carm_mtx :: bool
  ds_id :: u64
  obj_size :: u64
  num_objects :: u64
  total_obj_cnt :: u64
  ptrs :: "u64 \<Rightarrow> slot"
  allocation_map :: "u64 \<rightharpoonup> u64"
  free_list_map :: "u64 \<Rightarrow> u64"
  loopstate :: "u64 \<Rightarrow> carm_loop"
  loop_id_cnt :: u64

section \<open>What the code relies on\<close>

text \<open>The bytes of an object: in local memory when it is resident, else those in far memory.\<close>

definition cont :: "'e env_view \<Rightarrow> 'e \<Rightarrow> memory \<Rightarrow> handle \<Rightarrow> u64 \<Rightarrow> u8" where
  "cont V e m h k = (case v_res V e h of Some A \<Rightarrow> m (A + k) | None \<Rightarrow> v_remote V e h k)"

text \<open>
  AIFM writes a local object back to far memory only if it is marked modified (\<open>kDirtyClear\<close> not
  set), which a dereference for writing does. An object is safe from eviction if it is marked, or
  its far copy holds the same bytes.
\<close>

definition safe :: "'e env_view \<Rightarrow> 'e \<Rightarrow> memory \<Rightarrow> handle \<Rightarrow> bool" where
  "safe V e m h \<longleftrightarrow> v_dirty V e h \<or> (\<forall>k<OBJ_SIZE. cont V e m h k = v_remote V e h k)"

text \<open>
  A call that may move objects between local and far memory but changes the bytes of none that
  is safe, nor any byte outside the local cache. Local changes of an object that is not marked
  may be lost.
\<close>

definition silent :: "'e env_view \<Rightarrow> 'e \<Rightarrow> memory \<Rightarrow> 'e \<Rightarrow> memory \<Rightarrow> bool" where
  "silent V e m e' m' \<longleftrightarrow> v_ok V e' \<and>
     (\<forall>h. v_valid V e h \<longrightarrow> v_valid V e' h \<and> v_idx V e' h = v_idx V e h \<and>
        (safe V e m h \<longrightarrow> safe V e' m' h \<and> (\<forall>k<OBJ_SIZE. cont V e' m' h k = cont V e m h k))) \<and>
     (\<forall>p. \<not> v_heap V p \<longrightarrow> m' p = m p)"

text \<open>
  Every object that leaves its local address, or is written back and no longer marked, is
  reported, with the absent bit set.
\<close>

definition reported :: "'e env_view \<Rightarrow> 'e \<Rightarrow> 'e \<Rightarrow> evacs \<Rightarrow> bool" where
  "reported V e e' ev \<longleftrightarrow>
     (\<forall>x\<in>set ev. snd x AND kPresentClear \<noteq> 0) \<and>
     (\<forall>h A. v_valid V e h \<and> v_res V e h = Some A \<and>
        (v_res V e' h \<noteq> Some A \<or> v_dirty V e h \<and> \<not> v_dirty V e' h) \<longrightarrow> v_idx V e h \<in> fst ` set ev)"

text \<open>A call that touches no object at all.\<close>

definition same_objects :: "'e env_view \<Rightarrow> 'e \<Rightarrow> 'e \<Rightarrow> bool" where
  "same_objects V e e' \<longleftrightarrow> v_ok V e' \<and> v_valid V e' = v_valid V e \<and> v_res V e' = v_res V e \<and>
     v_remote V e' = v_remote V e \<and> v_dirty V e' = v_dirty V e \<and> v_idx V e' = v_idx V e"

definition frames_law :: "'e env_view \<Rightarrow> bool" where
  "frames_law V \<longleftrightarrow>
     (\<forall>e h A p. v_ok V e \<and> v_valid V e h \<and> v_res V e h = Some A \<and> within A OBJ_SIZE p \<longrightarrow>
        v_heap V p) \<and>
     (\<forall>e h A h' A' p. v_ok V e \<and> v_valid V e h \<and> v_res V e h = Some A \<and> v_valid V e h' \<and>
        v_res V e h' = Some A' \<and> h \<noteq> h' \<and> within A OBJ_SIZE p \<longrightarrow> \<not> within A' OBJ_SIZE p)"

definition alloc_law :: "'e env_ops \<Rightarrow> 'e env_view \<Rightarrow> bool" where
  "alloc_law E V \<longleftrightarrow> (\<forall>e m ds sz h ev e' m'. v_ok V e \<longrightarrow>
     e_alloc E ds sz (e, m) = (h, ev, e', m') \<longrightarrow>
     \<not> v_valid V e h \<and> v_valid V e' h \<and> safe V e' m' h \<and> silent V e m e' m' \<and> reported V e e' ev)"

definition index_law :: "'e env_ops \<Rightarrow> 'e env_view \<Rightarrow> bool" where
  "index_law E V \<longleftrightarrow> (\<forall>e h i. v_ok V e \<and> v_valid V e h \<longrightarrow>
     (let e' = e_set_index E h i e
      in v_ok V e' \<and> v_valid V e' = v_valid V e \<and> v_res V e' = v_res V e \<and>
         v_remote V e' = v_remote V e \<and> v_dirty V e' = v_dirty V e \<and>
         v_idx V e' = (v_idx V e)(h := i)))"

text \<open>
  A dereference makes the object local at the address in its metadata, whose \<open>kDirtyClear\<close> bit
  tells the truth; a dereference for writing marks it.
\<close>

definition deref_law :: "'e env_ops \<Rightarrow> 'e env_view \<Rightarrow> bool" where
  "deref_law E V \<longleftrightarrow> (\<forall>e m nt mt h md ev e' m'. v_ok V e \<longrightarrow> v_valid V e h \<longrightarrow>
     e_deref E nt mt h (e, m) = (md, ev, e', m') \<longrightarrow>
     silent V e m e' m' \<and> reported V e e' ev \<and>
     v_res V e' h = Some (drop_bit kObjectDataAddrBitPos md) \<and>
     (mt \<or> md AND kDirtyClear = 0 \<longrightarrow> v_dirty V e' h))"

definition scope_law :: "'e env_ops \<Rightarrow> 'e env_view \<Rightarrow> bool" where
  "scope_law E V \<longleftrightarrow> (\<forall>e m ev e' m'. v_ok V e \<longrightarrow>
     e_enter E (e, m) = (ev, e', m') \<or> e_exit E (e, m) = (ev, e', m') \<longrightarrow>
     silent V e m e' m' \<and> reported V e e' ev)"

definition quiet_law :: "'e env_ops \<Rightarrow> 'e env_view \<Rightarrow> bool" where
  "quiet_law E V \<longleftrightarrow> (\<forall>e. v_ok V e \<longrightarrow>
     (\<forall>pf nt i. same_objects V e (e_add_trace E pf nt i e)) \<and>
     (\<forall>pf a b n. same_objects V e (e_static_prefetch E pf a b n e)) \<and>
     (\<forall>a. same_objects V e (snd (e_mark_region E a e))) \<and>
     (\<forall>a. same_objects V e (e_invalidate_region E a e)) \<and>
     (\<forall>n. same_objects V e (snd (e_malloc E n e))) \<and>
     (\<forall>p. same_objects V e (e_free E p e)))"

definition env_laws :: "'e env_ops \<Rightarrow> 'e env_view \<Rightarrow> bool" where
  "env_laws E V \<longleftrightarrow> frames_law V \<and> alloc_law E V \<and> index_law E V \<and> deref_law E V \<and>
     scope_law E V \<and> quiet_law E V"

section \<open>The laws as rules\<close>

lemma enter_lawD:
  "env_laws E V \<Longrightarrow> v_ok V e \<Longrightarrow> e_enter E (e, m) = (ev, e', m') \<Longrightarrow>
     silent V e m e' m' \<and> reported V e e' ev"
  by (simp add: env_laws_def scope_law_def)

lemma exit_lawD:
  "env_laws E V \<Longrightarrow> v_ok V e \<Longrightarrow> e_exit E (e, m) = (ev, e', m') \<Longrightarrow>
     silent V e m e' m' \<and> reported V e e' ev"
  by (simp add: env_laws_def scope_law_def)

lemma alloc_lawD:
  "env_laws E V \<Longrightarrow> v_ok V e \<Longrightarrow> e_alloc E ds sz (e, m) = (h, ev, e', m') \<Longrightarrow>
     \<not> v_valid V e h \<and> v_valid V e' h \<and> safe V e' m' h \<and> silent V e m e' m' \<and> reported V e e' ev"
  by (simp add: env_laws_def alloc_law_def)

lemma deref_lawD:
  "env_laws E V \<Longrightarrow> v_ok V e \<Longrightarrow> v_valid V e h \<Longrightarrow>
     e_deref E nt mt h (e, m) = (md, ev, e', m') \<Longrightarrow>
     silent V e m e' m' \<and> reported V e e' ev \<and>
     v_res V e' h = Some (drop_bit kObjectDataAddrBitPos md) \<and>
     (mt \<or> md AND kDirtyClear = 0 \<longrightarrow> v_dirty V e' h)"
  by (simp add: env_laws_def deref_law_def)

lemma index_lawD:
  "env_laws E V \<Longrightarrow> v_ok V e \<Longrightarrow> v_valid V e h \<Longrightarrow>
     v_ok V (e_set_index E h i e) \<and> v_valid V (e_set_index E h i e) = v_valid V e \<and>
     v_res V (e_set_index E h i e) = v_res V e \<and>
     v_remote V (e_set_index E h i e) = v_remote V e \<and>
     v_dirty V (e_set_index E h i e) = v_dirty V e \<and>
     v_idx V (e_set_index E h i e) = (v_idx V e)(h := i)"
  by (simp add: env_laws_def index_law_def Let_def)

lemma quiet_lawD:
  assumes "env_laws E V" "v_ok V e"
  shows "same_objects V e (e_add_trace E pf nt i e)"
    and "same_objects V e (e_static_prefetch E pf a b n e)"
    and "same_objects V e (snd (e_mark_region E a e))"
    and "same_objects V e (e_invalidate_region E a e)"
    and "same_objects V e (snd (e_malloc E n e))"
    and "same_objects V e (e_free E p e)"
  using assms by (simp_all add: env_laws_def quiet_law_def)

lemma silentD:
  assumes "silent V e m e' m'"
  shows "v_ok V e'"
    and "v_valid V e h \<Longrightarrow> v_valid V e' h"
    and "v_valid V e h \<Longrightarrow> v_idx V e' h = v_idx V e h"
    and "v_valid V e h \<Longrightarrow> safe V e m h \<Longrightarrow> k < OBJ_SIZE \<Longrightarrow> cont V e' m' h k = cont V e m h k"
    and "v_valid V e h \<Longrightarrow> safe V e m h \<Longrightarrow> safe V e' m' h"
    and "\<not> v_heap V p \<Longrightarrow> m' p = m p"
  using assms by (simp_all add: silent_def)

lemma same_objects_cont: "same_objects V e e' \<Longrightarrow> cont V e' = cont V e"
  by (simp add: same_objects_def cont_def [abs_def] cong: option.case_cong)

lemma same_objects_safe: "same_objects V e e' \<Longrightarrow> safe V e' = safe V e"
  by (simp add: safe_def [abs_def] same_objects_cont) (simp add: same_objects_def)

lemma same_objects_silent: "same_objects V e e' \<Longrightarrow> silent V e m e' m"
  by (simp add: silent_def same_objects_cont same_objects_safe) (simp add: same_objects_def)

end
