(* ===== verification/Carm_Core.thy ===== *)
theory Carm_Core
  imports Runtime_State
begin

text \<open>
  \<open>src/carm.cpp\<close>: the object state table that caches AIFM's metadata, the dereference scope,
  the dereference operations the compiled program calls, and the callback by which the
  evacuation threads update the table. Tracing (\<open>TRACKFM_TRACE\<close>) is off, as in the shipped
  configuration; \<open>PREFETCH\<close> and \<open>LOOP_PREFETCH\<close> are on.
\<close>

section \<open>Object state table\<close>

definition flush_carn_meta_obj :: "'e rt \<Rightarrow> 'e rt" where
  "flush_carn_meta_obj s =
     s\<lparr>obj_state := (\<lambda>i. if i < TOTAL_OBJECTS then FLUSH_CACHE else obj_state s i)\<rparr>"

text \<open>Called by the evacuation threads with an evicted object's index and metadata.\<close>

definition update_cache_object :: "u64 \<times> u64 \<Rightarrow> 'e rt \<Rightarrow> 'e rt" where
  "update_cache_object x s =
     (if fst x < TOTAL_OBJECTS then s\<lparr>obj_state := (obj_state s)(fst x := snd x)\<rparr> else s)"

definition deliver :: "evacs \<Rightarrow> 'e rt \<Rightarrow> 'e rt" where
  "deliver ev s = fold update_cache_object ev s"

section \<open>Dereference scope\<close>

definition acquire :: "'e env_ops \<Rightarrow> 'e rt \<Rightarrow> 'e rt" where
  "acquire E s = (case e_enter E (env s, mem s) of (ev, e, m) \<Rightarrow>
     deliver ev (s\<lparr>env := e, mem := m\<rparr>))"

definition release :: "'e env_ops \<Rightarrow> 'e rt \<Rightarrow> 'e rt" where
  "release E s = (case e_exit E (env s, mem s) of (ev, e, m) \<Rightarrow>
     deliver ev (s\<lparr>env := e, mem := m\<rparr>))"

definition carm_deref :: "'e env_ops \<Rightarrow> 'e rt \<Rightarrow> 'e rt" where
  "carm_deref E s =
     (let s = (if in_scope s then release E s else s)
      in acquire E (s\<lparr>in_scope := True\<rparr>))"

section \<open>Prefetching\<close>

definition carm_add_prefetch_trace ::
    "'e env_ops \<Rightarrow> u64 \<Rightarrow> bool \<Rightarrow> u64 \<Rightarrow> 'e rt \<Rightarrow> 'e rt run" where
  "carm_add_prefetch_trace E i nt pf s =
     (if MAX_LOOPS < pf then Faulted
      else if prev_obj_index s pf \<noteq> i
      then Done (s\<lparr>env := e_add_trace E pf nt i (env s),
                   prev_obj_index := (prev_obj_index s)(pf := i)\<rparr>)
      else Done s)"

definition carm_static_prefetch ::
    "'e env_ops \<Rightarrow> u64 \<Rightarrow> u64 \<Rightarrow> u64 \<Rightarrow> u64 \<Rightarrow> 'e rt \<Rightarrow> 'e rt run" where
  "carm_static_prefetch E start step num lid s =
     (if MAX_LOOPS < lid then Faulted
      else Done (s\<lparr>env := e_static_prefetch E lid start step num (env s)\<rparr>))"

section \<open>Dereferencing an object\<close>

definition allocate_object :: "'e env_ops \<Rightarrow> u64 \<Rightarrow> 'e rt \<Rightarrow> handle \<times> 'e rt" where
  "allocate_object E i s =
     (case e_alloc E (ds_id s) (obj_size s) (env s, mem s) of (h, ev, e, m) \<Rightarrow>
        let s = deliver ev (s\<lparr>env := e, mem := m\<rparr>);
            s = s\<lparr>ptrs := (ptrs s)(i := Obj h)\<rparr>
        in (h, s\<lparr>env := e_set_index E h i (env s)\<rparr>))"

text \<open>
  \<open>ptrs_[obj_index]\<close>, allocated on first use. The array has \<open>TOTAL_OBJECTS\<close> entries, of
  which \<open>init_objects\<close> writes the first \<open>num_objects\<close>.
\<close>

definition fetch_object :: "'e env_ops \<Rightarrow> u64 \<Rightarrow> 'e rt \<Rightarrow> (handle \<times> 'e rt) run" where
  "fetch_object E i s =
     (if i < TOTAL_OBJECTS
      then case ptrs s i of
             Uninit \<Rightarrow> Faulted
           | Null \<Rightarrow> Done (allocate_object E i s)
           | Obj h \<Rightarrow> Done (h, s)
      else Faulted)"

text \<open>\<open>obj->__deref<nt>()\<close> or \<open>obj->__deref_mut<nt>()\<close>, then the store into the table.\<close>

definition deref_object ::
    "'e env_ops \<Rightarrow> bool \<Rightarrow> bool \<Rightarrow> u64 \<Rightarrow> handle \<times> 'e rt \<Rightarrow> u64 \<times> 'e rt" where
  "deref_object E nt mt i hs =
     (case hs of (h, s) \<Rightarrow>
        case e_deref E nt mt h (env s, mem s) of (md, ev, e, m) \<Rightarrow>
          let s = deliver ev (s\<lparr>env := e, mem := m\<rparr>)
          in (md, s\<lparr>obj_state := (obj_state s)(i := md)\<rparr>))"

definition carmDeref_read :: "'e env_ops \<Rightarrow> u64 \<Rightarrow> 'e rt \<Rightarrow> (u64 \<times> 'e rt) run" where
  "carmDeref_read E i s = bindR (fetch_object E i s) (\<lambda>hs.
     case deref_object E False False i hs of (md, s) \<Rightarrow>
       bindR (carm_add_prefetch_trace E i False 0 s) (\<lambda>s.
         Done (drop_bit kObjectDataAddrBitPos md, s)))"

definition carmDeref_write :: "'e env_ops \<Rightarrow> u64 \<Rightarrow> 'e rt \<Rightarrow> (u64 \<times> 'e rt) run" where
  "carmDeref_write E i s = bindR (fetch_object E i s) (\<lambda>hs.
     case deref_object E False True i hs of (md, s) \<Rightarrow>
       bindR (carm_add_prefetch_trace E i False 0 s) (\<lambda>s.
         Done (drop_bit kObjectDataAddrBitPos md, s)))"

definition carmDeref_write_sp :: "'e env_ops \<Rightarrow> u64 \<Rightarrow> u64 \<Rightarrow> 'e rt \<Rightarrow> (u64 \<times> 'e rt) run" where
  "carmDeref_write_sp E i pf s = bindR (fetch_object E i s) (\<lambda>hs.
     case deref_object E False True i hs of (md, s) \<Rightarrow>
       bindR (carm_add_prefetch_trace E i False pf s) (\<lambda>s.
         Done (drop_bit kObjectDataAddrBitPos md, s)))"

definition carmDeref_read_sp :: "'e env_ops \<Rightarrow> u64 \<Rightarrow> u64 \<Rightarrow> 'e rt \<Rightarrow> (u64 \<times> 'e rt) run" where
  "carmDeref_read_sp E i pf s = bindR (fetch_object E i s) (\<lambda>hs.
     case deref_object E False False i hs of (md, s) \<Rightarrow>
       bindR (carm_add_prefetch_trace E i False pf s) (\<lambda>s.
         Done (drop_bit kObjectDataAddrBitPos md, s)))"

definition carmDeref_write_not_temporal ::
    "'e env_ops \<Rightarrow> u64 \<Rightarrow> 'e rt \<Rightarrow> (u64 \<times> 'e rt) run" where
  "carmDeref_write_not_temporal E i s = bindR (fetch_object E i s) (\<lambda>hs.
     case deref_object E True True i hs of (md, s) \<Rightarrow>
       Done (drop_bit kObjectDataAddrBitPos md, s))"

definition carmDeref_read_not_temporal ::
    "'e env_ops \<Rightarrow> u64 \<Rightarrow> 'e rt \<Rightarrow> (u64 \<times> 'e rt) run" where
  "carmDeref_read_not_temporal E i s = bindR (fetch_object E i s) (\<lambda>hs.
     case deref_object E True False i hs of (md, s) \<Rightarrow>
       Done (drop_bit kObjectDataAddrBitPos md, s))"

definition carm_deref_read :: "'e env_ops \<Rightarrow> u64 \<Rightarrow> 'e rt \<Rightarrow> (u64 \<times> 'e rt) run" where
  "carm_deref_read E i s = carmDeref_read E i (carm_deref E s)"

definition carm_deref_write_not_temporal ::
    "'e env_ops \<Rightarrow> u64 \<Rightarrow> 'e rt \<Rightarrow> (u64 \<times> 'e rt) run" where
  "carm_deref_write_not_temporal E i s = carmDeref_write_not_temporal E i (carm_deref E s)"

definition carm_deref_read_not_temporal ::
    "'e env_ops \<Rightarrow> u64 \<Rightarrow> 'e rt \<Rightarrow> (u64 \<times> 'e rt) run" where
  "carm_deref_read_not_temporal E i s = carmDeref_read_not_temporal E i (carm_deref E s)"

definition carm_deref_write :: "'e env_ops \<Rightarrow> u64 \<Rightarrow> 'e rt \<Rightarrow> (u64 \<times> 'e rt) run" where
  "carm_deref_write E i s = carmDeref_write E i (carm_deref E s)"

definition carm_deref_write_sp :: "'e env_ops \<Rightarrow> u64 \<Rightarrow> u64 \<Rightarrow> 'e rt \<Rightarrow> (u64 \<times> 'e rt) run" where
  "carm_deref_write_sp E i lid s = carmDeref_write_sp E i lid (carm_deref E s)"

definition carm_deref_read_sp :: "'e env_ops \<Rightarrow> u64 \<Rightarrow> u64 \<Rightarrow> 'e rt \<Rightarrow> (u64 \<times> 'e rt) run" where
  "carm_deref_read_sp E i lid s = carmDeref_read_sp E i lid (carm_deref E s)"

end
