(* ===== verification/Object_View.thy ===== *)
theory Object_View
  imports Carm_Core
begin

text \<open>
  What the object layer promises to the rest of the runtime. \<open>view\<close> is the memory the
  program sees: a byte per pointer, local or remote, undefined where an object was never
  allocated or was recycled. \<open>rt_inv\<close> is the cache coherence invariant that makes the
  inlined fast path sound. \<open>evolves\<close> is what any call into the layer may do to the state.
\<close>

section \<open>The program's memory\<close>

definition obj_byte :: "'e env_view \<Rightarrow> 'e rt \<Rightarrow> u64 \<Rightarrow> u64 \<Rightarrow> u8 option" where
  "obj_byte V s i k =
     (case ptrs s i of
        Obj h \<Rightarrow> if i < TOTAL_OBJECTS \<and> v_idx V (env s) h = i
                 then Some (cont V (env s) (mem s) h k) else None
      | _ \<Rightarrow> None)"

definition view :: "'e env_view \<Rightarrow> 'e rt \<Rightarrow> ptr \<Rightarrow> u8 option" where
  "view V s p =
     (if check_carm_object p
      then obj_byte V s ((p XOR CARM_PTR) div OBJ_SIZE) ((p XOR CARM_PTR) mod OBJ_SIZE)
      else if v_heap V p then None else Some (mem s p))"

text \<open>An object that may be dereferenced: not yet allocated, or allocated and not recycled.\<close>

definition accessible :: "'e env_view \<Rightarrow> 'e rt \<Rightarrow> u64 \<Rightarrow> bool" where
  "accessible V s i \<longleftrightarrow> i < TOTAL_OBJECTS \<and>
     (case ptrs s i of Uninit \<Rightarrow> False | Null \<Rightarrow> True | Obj h \<Rightarrow> v_idx V (env s) h = i)"

definition resident :: "'e env_view \<Rightarrow> 'e rt \<Rightarrow> u64 \<Rightarrow> u64 \<Rightarrow> bool" where
  "resident V s i A \<longleftrightarrow> i < TOTAL_OBJECTS \<and>
     (\<exists>h. ptrs s i = Obj h \<and> v_valid V (env s) h \<and> v_idx V (env s) h = i \<and>
          v_res V (env s) h = Some A)"

text \<open>AIFM has the object of this index marked as modified, so an eviction writes it back.\<close>

definition marked :: "'e env_view \<Rightarrow> 'e rt \<Rightarrow> u64 \<Rightarrow> bool" where
  "marked V s i \<longleftrightarrow> (\<exists>h. ptrs s i = Obj h \<and> v_dirty V (env s) h)"

section \<open>Cache coherence\<close>

definition read_exceptions :: u64 where
  "read_exceptions = kHotClear OR kPresentClear OR kEvacuationSet"

definition slots_valid :: "'e env_view \<Rightarrow> 'e rt \<Rightarrow> bool" where
  "slots_valid V s \<longleftrightarrow> (\<forall>i h. ptrs s i = Obj h \<longrightarrow> v_valid V (env s) h)"

text \<open>No change of an object can be lost.\<close>

definition slots_safe :: "'e env_view \<Rightarrow> 'e rt \<Rightarrow> bool" where
  "slots_safe V s \<longleftrightarrow> (\<forall>i h. ptrs s i = Obj h \<longrightarrow> safe V (env s) (mem s) h)"

text \<open>
  A table entry without the exception bits has the object's address, and if its \<open>kDirtyClear\<close> bit
  is not set either, the object is marked.
\<close>

definition coherent :: "'e env_view \<Rightarrow> 'e rt \<Rightarrow> bool" where
  "coherent V s \<longleftrightarrow>
     (\<forall>i h. i < TOTAL_OBJECTS \<and> ptrs s i = Obj h \<and> v_idx V (env s) h = i \<and>
        obj_state s i AND read_exceptions = 0 \<longrightarrow>
        v_res V (env s) h = Some (drop_bit kObjectDataAddrBitPos (obj_state s i)) \<and>
        (obj_state s i AND kDirtyClear = 0 \<longrightarrow> v_dirty V (env s) h))"

definition null_absent :: "'e rt \<Rightarrow> bool" where
  "null_absent s \<longleftrightarrow>
     (\<forall>i < TOTAL_OBJECTS. ptrs s i = Null \<longrightarrow> obj_state s i AND kPresentClear \<noteq> 0)"

definition rt_inv :: "'e env_view \<Rightarrow> 'e rt \<Rightarrow> bool" where
  "rt_inv V s \<longleftrightarrow> v_ok V (env s) \<and> slots_valid V s \<and> slots_safe V s \<and> coherent V s \<and> null_absent s"

text \<open>Fields the object layer never writes.\<close>

definition same_book :: "'e rt \<Rightarrow> 'e rt \<Rightarrow> bool" where
  "same_book s s' \<longleftrightarrow> carm_rt s' = carm_rt s \<and> aspace_start s' = aspace_start s \<and>
     aspace_end s' = aspace_end s \<and> carm_mtx s' = carm_mtx s \<and> ds_id s' = ds_id s \<and>
     obj_size s' = obj_size s \<and> num_objects s' = num_objects s \<and>
     total_obj_cnt s' = total_obj_cnt s \<and> allocation_map s' = allocation_map s \<and>
     free_list_map s' = free_list_map s \<and> loopstate s' = loopstate s \<and>
     loop_id_cnt s' = loop_id_cnt s"

definition evolves :: "'e env_view \<Rightarrow> 'e rt \<Rightarrow> 'e rt \<Rightarrow> bool" where
  "evolves V s s' \<longleftrightarrow> rt_inv V s' \<and> view V s \<subseteq>\<^sub>m view V s' \<and> same_book s s' \<and>
     (\<forall>i. accessible V s i \<longrightarrow> accessible V s' i)"

section \<open>Elementary facts\<close>

lemma present_exception: "x AND read_exceptions = 0 \<Longrightarrow> x AND kPresentClear = 0"
proof -
  assume "x AND read_exceptions = 0"
  moreover have "read_exceptions AND kPresentClear = kPresentClear"
    by (simp add: read_exceptions_def config_defs)
  ultimately show ?thesis by (metis and.assoc bit.conj_zero_left)
qed

lemma same_book_refl [simp]: "same_book s s"
  by (simp add: same_book_def)

lemma same_book_trans: "same_book s t \<Longrightarrow> same_book t u \<Longrightarrow> same_book s u"
  by (simp add: same_book_def)

lemma evolves_refl: "rt_inv V s \<Longrightarrow> evolves V s s"
  by (simp add: evolves_def)

lemma evolves_trans: "evolves V s t \<Longrightarrow> evolves V t u \<Longrightarrow> evolves V s u"
  by (auto simp: evolves_def intro: same_book_trans map_le_trans)

lemma evolves_inv: "evolves V s t \<Longrightarrow> rt_inv V t"
  by (simp add: evolves_def)

lemma evolves_view: "evolves V s t \<Longrightarrow> view V s p = Some b \<Longrightarrow> view V t p = Some b"
  by (auto simp: evolves_def map_le_def dom_def)

lemma evolves_accessible: "evolves V s t \<Longrightarrow> accessible V s i \<Longrightarrow> accessible V t i"
  by (simp add: evolves_def)

lemma evolves_book: "evolves V s t \<Longrightarrow> same_book s t"
  by (simp add: evolves_def)

lemma resident_accessible: "resident V s i A \<Longrightarrow> accessible V s i"
  by (auto simp: resident_def accessible_def)

text \<open>The view, the invariant and accessibility read only these fields.\<close>

lemma view_cong:
  "ptrs s' = ptrs s \<Longrightarrow> env s' = env s \<Longrightarrow> mem s' = mem s \<Longrightarrow> view V s' = view V s"
  by (rule ext) (simp add: view_def obj_byte_def cong: slot.case_cong if_cong)

lemma accessible_cong:
  "ptrs s' = ptrs s \<Longrightarrow> env s' = env s \<Longrightarrow> accessible V s' i = accessible V s i"
  by (simp add: accessible_def cong: slot.case_cong)

lemma rt_inv_cong:
  "ptrs s' = ptrs s \<Longrightarrow> env s' = env s \<Longrightarrow> mem s' = mem s \<Longrightarrow> obj_state s' = obj_state s \<Longrightarrow>
     rt_inv V s' = rt_inv V s"
  by (simp add: rt_inv_def slots_valid_def slots_safe_def coherent_def null_absent_def)

text \<open>Changing memory asks only that no object loses its safety.\<close>

lemma rt_inv_mem:
  "rt_inv V s \<Longrightarrow> slots_safe V (s\<lparr>mem := m\<rparr>) \<Longrightarrow> rt_inv V (s\<lparr>mem := m\<rparr>)"
  by (simp add: rt_inv_def slots_valid_def coherent_def null_absent_def)

lemma resident_cong:
  "ptrs s' = ptrs s \<Longrightarrow> env s' = env s \<Longrightarrow> resident V s' i A = resident V s i A"
  by (simp add: resident_def)

lemma evolvesI:
  assumes "rt_inv V s" "ptrs s' = ptrs s" "env s' = env s" "mem s' = mem s"
    and "obj_state s' = obj_state s" "same_book s s'"
  shows "evolves V s s'"
  using assms rt_inv_cong [of s' s V] accessible_cong [of s' s V] view_cong [of s' s V]
  by (simp add: evolves_def)

section \<open>The callback\<close>

lemma deliver_shape: "deliver ev s = s\<lparr>obj_state := obj_state (deliver ev s)\<rparr>"
proof (induction ev arbitrary: s)
  case (Cons x ev)
  have "deliver (x # ev) s = deliver ev (update_cache_object x s)"
    by (simp add: deliver_def)
  moreover have "update_cache_object x s = s\<lparr>obj_state := obj_state (update_cache_object x s)\<rparr>"
    by (simp add: update_cache_object_def)
  ultimately show ?case
    using Cons.IH [of "update_cache_object x s"] by (cases s) (metis rt.update_convs(3))
qed (simp add: deliver_def)

lemma deliver_fields [simp]:
  "mem (deliver ev s) = mem s" "env (deliver ev s) = env s" "ptrs (deliver ev s) = ptrs s"
  "in_scope (deliver ev s) = in_scope s" "same_book s (deliver ev s)"
  by (subst deliver_shape, simp add: same_book_def)+

lemma deliver_book [simp]:
  "carm_rt (deliver ev s) = carm_rt s" "aspace_start (deliver ev s) = aspace_start s"
  "aspace_end (deliver ev s) = aspace_end s" "carm_mtx (deliver ev s) = carm_mtx s"
  "ds_id (deliver ev s) = ds_id s" "obj_size (deliver ev s) = obj_size s"
  "num_objects (deliver ev s) = num_objects s" "total_obj_cnt (deliver ev s) = total_obj_cnt s"
  "allocation_map (deliver ev s) = allocation_map s"
  "free_list_map (deliver ev s) = free_list_map s" "loopstate (deliver ev s) = loopstate s"
  "loop_id_cnt (deliver ev s) = loop_id_cnt s"
  using deliver_fields(5) [of s ev] by (simp_all add: same_book_def)

lemma obj_state_deliver:
  "obj_state (deliver ev s) i =
     (if i < TOTAL_OBJECTS
      then case map_of (rev ev) i of None \<Rightarrow> obj_state s i | Some md \<Rightarrow> md
      else obj_state s i)"
proof (induction ev rule: rev_induct)
  case (snoc x ev)
  have "deliver (ev @ [x]) s = update_cache_object x (deliver ev s)"
    by (simp add: deliver_def)
  with snoc.IH show ?case by (cases x) (auto simp: update_cache_object_def)
qed (simp add: deliver_def)

section \<open>A silent step with its reports keeps everything\<close>

lemma deliver_no_report:
  assumes "\<forall>x\<in>set ev. snd x AND kPresentClear \<noteq> 0"
    and "obj_state (deliver ev s) i AND kPresentClear = 0"
  shows "obj_state (deliver ev s) i = obj_state s i" "i < TOTAL_OBJECTS \<Longrightarrow> i \<notin> fst ` set ev"
proof -
  have none: "map_of (rev ev) i = None" if i: "i < TOTAL_OBJECTS"
  proof (cases "map_of (rev ev) i")
    case (Some md)
    then have "(i, md) \<in> set ev" using map_of_SomeD by fastforce
    with assms Some i show ?thesis by (auto simp: obj_state_deliver)
  qed
  then show "obj_state (deliver ev s) i = obj_state s i" by (simp add: obj_state_deliver)
  show "i \<notin> fst ` set ev" if "i < TOTAL_OBJECTS"
    using none [OF that] by (auto simp: map_of_eq_None_iff)
qed

lemma present_stays:
  assumes "\<forall>x\<in>set ev. snd x AND kPresentClear \<noteq> 0" and "obj_state s i AND kPresentClear \<noteq> 0"
  shows "obj_state (deliver ev s) i AND kPresentClear \<noteq> 0"
  using deliver_no_report(1) [OF assms(1), of s i] assms(2) by auto

lemma obj_byte_silent:
  assumes "slots_valid V s" "slots_safe V s" "silent V (env s) (mem s) e m" "k < OBJ_SIZE"
    and "obj_byte V s i k = Some b" "ptrs s' i = ptrs s i" "env s' = e" "mem s' = m"
  shows "obj_byte V s' i k = Some b"
proof -
  from assms(5) obtain h where h: "ptrs s i = Obj h"
    by (auto simp: obj_byte_def split: slot.splits)
  with assms(1,2) have "v_valid V (env s) h" "safe V (env s) (mem s) h"
    by (simp_all add: slots_valid_def slots_safe_def)
  with silentD(3,4) [OF assms(3)] assms(4-8) h show ?thesis
    by (auto simp: obj_byte_def split: if_splits)
qed

lemma mod_OBJ_SIZE_less: "(x :: u64) mod OBJ_SIZE < OBJ_SIZE"
  by (simp add: OBJ_SIZE_def word_less_unat)

lemma view_silent:
  assumes "slots_valid V s" "slots_safe V s" "silent V (env s) (mem s) (env s') (mem s')"
    and "\<And>i h. ptrs s i = Obj h \<Longrightarrow> ptrs s' i = Obj h"
  shows "view V s \<subseteq>\<^sub>m view V s'"
  unfolding map_le_def
proof
  fix p assume "p \<in> dom (view V s)"
  then obtain b where p: "view V s p = Some b" by auto
  have "view V s' p = Some b"
  proof (cases "check_carm_object p")
    case True
    let ?i = "(p XOR CARM_PTR) div OBJ_SIZE" and ?k = "(p XOR CARM_PTR) mod OBJ_SIZE"
    from p True have b: "obj_byte V s ?i ?k = Some b" by (simp add: view_def)
    then have "ptrs s' ?i = ptrs s ?i"
      by (auto simp: obj_byte_def assms(4) split: slot.splits)
    from obj_byte_silent [OF assms(1-3) mod_OBJ_SIZE_less b this] True show ?thesis
      by (simp add: view_def)
  next
    case False
    with p silentD(6) [OF assms(3)] show ?thesis by (auto simp: view_def split: if_splits)
  qed
  with p show "view V s p = view V s' p" by simp
qed

lemma accessible_silent:
  assumes "slots_valid V s" "silent V (env s) (mem s) (env s') m" "ptrs s' = ptrs s"
    and "accessible V s i"
  shows "accessible V s' i"
proof (cases "ptrs s i")
  case (Obj h)
  with assms(1) have "v_valid V (env s) h" by (simp add: slots_valid_def)
  with assms Obj show ?thesis by (simp add: accessible_def silent_def)
qed (use assms in \<open>auto simp: accessible_def\<close>)

lemma silent_deliver_inv:
  assumes inv: "rt_inv V s" and sil: "silent V (env s) (mem s) e m"
    and rep: "reported V (env s) e ev"
  shows "rt_inv V (deliver ev (s\<lparr>env := e, mem := m\<rparr>))" (is "rt_inv V ?t")
proof -
  let ?s = "s\<lparr>env := e, mem := m\<rparr>"
  have ev: "\<forall>x\<in>set ev. snd x AND kPresentClear \<noteq> 0" using rep by (simp add: reported_def)
  have "coherent V ?t"
    unfolding coherent_def
  proof (intro allI impI, elim conjE)
    fix i h
    assume i: "i < TOTAL_OBJECTS" and h: "ptrs ?t i = Obj h" and own: "v_idx V (env ?t) h = i"
      and ex: "obj_state ?t i AND read_exceptions = 0"
    have old: "obj_state ?t i = obj_state ?s i" and notin: "i \<notin> fst ` set ev"
      using deliver_no_report [OF ev present_exception [OF ex]] i by simp_all
    from h inv have v: "v_valid V (env s) h" by (simp add: rt_inv_def slots_valid_def)
    with own sil have own': "v_idx V (env s) h = i" by (simp add: silent_def)
    with inv i h ex old have
      "v_res V (env s) h = Some (drop_bit kObjectDataAddrBitPos (obj_state s i))"
      "obj_state s i AND kDirtyClear = 0 \<longrightarrow> v_dirty V (env s) h"
      by (simp_all add: rt_inv_def coherent_def)
    with rep v own' notin have
      "v_res V e h = Some (drop_bit kObjectDataAddrBitPos (obj_state s i))"
      "obj_state s i AND kDirtyClear = 0 \<longrightarrow> v_dirty V e h"
      by (auto simp: reported_def)
    with old show "v_res V (env ?t) h = Some (drop_bit kObjectDataAddrBitPos (obj_state ?t i)) \<and>
        (obj_state ?t i AND kDirtyClear = 0 \<longrightarrow> v_dirty V (env ?t) h)"
      by simp
  qed
  moreover have "null_absent ?t"
    using inv present_stays [OF ev, of ?s] by (simp add: rt_inv_def null_absent_def)
  moreover have "slots_valid V ?t"
    using inv sil by (auto simp: rt_inv_def slots_valid_def silent_def)
  moreover have "slots_safe V ?t"
    using inv silentD(5) [OF sil] by (auto simp: rt_inv_def slots_valid_def slots_safe_def)
  ultimately show ?thesis using sil by (simp add: rt_inv_def silent_def)
qed

lemma silent_deliver:
  assumes inv: "rt_inv V s" and sil: "silent V (env s) (mem s) e m"
    and rep: "reported V (env s) e ev"
  shows "evolves V s (deliver ev (s\<lparr>env := e, mem := m\<rparr>))" (is "evolves V s ?t")
proof -
  have sv: "slots_valid V s" "slots_safe V s" using inv by (simp_all add: rt_inv_def)
  have "view V s \<subseteq>\<^sub>m view V ?t" using sv by (rule view_silent) (use sil in simp_all)
  moreover have "accessible V ?t i" if "accessible V s i" for i
    using sv(1) by (rule accessible_silent [where m = m]) (use sil that in simp_all)
  moreover have "same_book s ?t"
    using deliver_fields(5) [of "s\<lparr>env := e, mem := m\<rparr>" ev] by (simp add: same_book_def)
  ultimately show ?thesis using silent_deliver_inv [OF assms] by (simp add: evolves_def)
qed

text \<open>A call that touches no object.\<close>

lemma same_objects_evolves:
  assumes "rt_inv V s" "same_objects V (env s) e"
  shows "evolves V s (s\<lparr>env := e\<rparr>)"
proof -
  have "reported V (env s) e []" using assms(2) by (simp add: reported_def same_objects_def)
  from silent_deliver [OF assms(1) same_objects_silent [OF assms(2)] this] show ?thesis
    by (simp add: deliver_def)
qed

section \<open>Scopes\<close>

lemma rt_inv_ok: "rt_inv V s \<Longrightarrow> v_ok V (env s)"
  by (simp add: rt_inv_def)

lemma acquire_evolves: "env_laws E V \<Longrightarrow> rt_inv V s \<Longrightarrow> evolves V s (acquire E s)"
  by (auto simp: acquire_def split: prod.split dest: enter_lawD [OF _ rt_inv_ok]
      intro!: silent_deliver)

lemma release_evolves: "env_laws E V \<Longrightarrow> rt_inv V s \<Longrightarrow> evolves V s (release E s)"
  by (auto simp: release_def split: prod.split dest: exit_lawD [OF _ rt_inv_ok]
      intro!: silent_deliver)

lemma in_scope_evolves: "rt_inv V s \<Longrightarrow> evolves V s (s\<lparr>in_scope := b\<rparr>)"
  by (rule evolvesI) (simp_all add: same_book_def)

lemma carm_deref_evolves:
  assumes "env_laws E V" "rt_inv V s"
  shows "evolves V s (carm_deref E s)"
proof -
  let ?s = "if in_scope s then release E s else s"
  have s1: "evolves V s ?s" using assms by (simp add: release_evolves evolves_refl)
  then have s2: "evolves V ?s (?s\<lparr>in_scope := True\<rparr>)" by (intro in_scope_evolves evolves_inv)
  then have "evolves V (?s\<lparr>in_scope := True\<rparr>) (acquire E (?s\<lparr>in_scope := True\<rparr>))"
    by (intro acquire_evolves assms evolves_inv)
  with s1 s2 show ?thesis unfolding carm_deref_def Let_def by (blast intro: evolves_trans)
qed

end
