(* ===== verification/Deref_Service.thy ===== *)
theory Deref_Service
  imports Object_View
begin

text \<open>
  The dereference operations of \<open>src/carm.cpp\<close> keep the coherence invariant and return the
  local address of the object, marked modified by those for writing. The contract of the twelve operations is the locale
  \<open>deref_service\<close>; every operation is an interpretation of it.
\<close>

section \<open>Allocation on first use\<close>

lemma install_inv:
  assumes inv: "rt_inv V s" and null: "ptrs s i = Null" and i: "i < TOTAL_OBJECTS"
    and valid: "v_valid V (env s) h" and fresh: "\<And>j. ptrs s j \<noteq> Obj h"
    and safe: "safe V (env s) (mem s) h"
    and e: "v_ok V e \<and> v_valid V e = v_valid V (env s) \<and> v_res V e = v_res V (env s) \<and>
            v_remote V e = v_remote V (env s) \<and> v_dirty V e = v_dirty V (env s) \<and>
            v_idx V e = (v_idx V (env s))(h := i)"
  shows "rt_inv V (s\<lparr>ptrs := (ptrs s)(i := Obj h), env := e\<rparr>)" (is "rt_inv V ?t")
proof -
  have "coherent V ?t"
    unfolding coherent_def
  proof (intro allI impI, elim conjE)
    fix j g
    assume j: "j < TOTAL_OBJECTS" and g: "ptrs ?t j = Obj g" and own: "v_idx V (env ?t) g = j"
      and ex: "obj_state ?t j AND read_exceptions = 0"
    have "obj_state s i AND kPresentClear \<noteq> 0"
      using inv null i by (simp add: rt_inv_def null_absent_def)
    with ex have ji: "j \<noteq> i" by (auto dest: present_exception)
    with g fresh have "g \<noteq> h" "ptrs s j = Obj g" by auto
    with inv j own ex e show
      "v_res V (env ?t) g = Some (drop_bit kObjectDataAddrBitPos (obj_state ?t j)) \<and>
        (obj_state ?t j AND kDirtyClear = 0 \<longrightarrow> v_dirty V (env ?t) g)"
      by (simp add: rt_inv_def coherent_def)
  qed
  moreover have "safe V e = safe V (env s)"
    by (intro ext) (simp add: safe_def cont_def e cong: option.case_cong)
  then have "slots_safe V ?t" using inv safe by (simp add: rt_inv_def slots_safe_def)
  ultimately show ?thesis
    using inv valid e by (auto simp: rt_inv_def slots_valid_def null_absent_def)
qed

lemma install_view:
  assumes null: "ptrs s i = Null" and fresh: "\<And>j. ptrs s j \<noteq> Obj h"
    and e: "v_res V e = v_res V (env s)" "v_remote V e = v_remote V (env s)"
      "v_idx V e = (v_idx V (env s))(h := i)"
  shows "view V s \<subseteq>\<^sub>m view V (s\<lparr>ptrs := (ptrs s)(i := Obj h), env := e\<rparr>)" (is "_ \<subseteq>\<^sub>m view V ?t")
proof -
  have cont: "cont V e m = cont V (env s) m" for m
    by (simp add: cont_def [abs_def] e cong: option.case_cong)
  have "obj_byte V ?t j k = Some b" if "obj_byte V s j k = Some b" for j k b
  proof -
    from that obtain g where g: "ptrs s j = Obj g" by (auto simp: obj_byte_def split: slot.splits)
    with null fresh have "j \<noteq> i" "g \<noteq> h" by auto
    with that g show ?thesis by (auto simp: obj_byte_def e cont split: if_splits)
  qed
  then have "view V s p = Some b \<Longrightarrow> view V ?t p = Some b" for p b
    by (auto simp: view_def split: if_splits)
  then show ?thesis by (force simp: map_le_def dom_def)
qed

lemma install_accessible:
  assumes null: "ptrs s i = Null" and fresh: "\<And>j. ptrs s j \<noteq> Obj h"
    and e: "v_idx V e = (v_idx V (env s))(h := i)" and "accessible V s j"
  shows "accessible V (s\<lparr>ptrs := (ptrs s)(i := Obj h), env := e\<rparr>) j"
  using assms(4) fresh [of j] by (auto simp: accessible_def e split: slot.splits)

lemma allocate_object_evolves:
  assumes laws: "env_laws E V" and inv: "rt_inv V s"
    and null: "ptrs s i = Null" and i: "i < TOTAL_OBJECTS"
    and run: "allocate_object E i s = (h, s')"
  shows "evolves V s s'" "ptrs s' i = Obj h" "v_idx V (env s') h = i"
proof -
  obtain g ev e m where al: "e_alloc E (ds_id s) (obj_size s) (env s, mem s) = (g, ev, e, m)"
    by (metis prod_cases4)
  let ?t = "deliver ev (s\<lparr>env := e, mem := m\<rparr>)" and ?f = "e_set_index E h i e"
  from run al have h: "g = h" and s': "s' = ?t\<lparr>ptrs := (ptrs ?t)(i := Obj h), env := ?f\<rparr>"
    by (auto simp: allocate_object_def Let_def)
  have law: "\<not> v_valid V (env s) h \<and> v_valid V e h \<and> safe V e m h \<and> silent V (env s) (mem s) e m \<and>
      reported V (env s) e ev"
    using alloc_lawD [OF laws rt_inv_ok [OF inv] al] h by simp
  have t: "evolves V s ?t" using law by (intro silent_deliver inv) simp_all
  have null': "ptrs ?t i = Null" using null by simp
  have fresh: "ptrs ?t j \<noteq> Obj h" for j
    using law inv by (auto simp: rt_inv_def slots_valid_def)
  have ok: "v_ok V e" using law by (simp add: silent_def)
  have f: "v_ok V ?f \<and> v_valid V ?f = v_valid V (env ?t) \<and> v_res V ?f = v_res V (env ?t) \<and>
      v_remote V ?f = v_remote V (env ?t) \<and> v_dirty V ?f = v_dirty V (env ?t) \<and> v_idx V ?f = (v_idx V (env ?t))(h := i)"
    using index_lawD [OF laws ok] law by simp
  have valid: "v_valid V (env ?t) h" "safe V (env ?t) (mem ?t) h" using law by simp_all
  have "rt_inv V s'" unfolding s'
    by (rule install_inv [OF evolves_inv [OF t] null' i valid(1) fresh valid(2) f])
  moreover have "view V ?t \<subseteq>\<^sub>m view V s'" unfolding s'
    by (rule install_view [OF null' fresh]) (use f in blast)+
  moreover have "accessible V ?t j \<Longrightarrow> accessible V s' j" for j unfolding s'
    by (rule install_accessible [OF null' fresh]) (use f in simp_all)
  moreover have "same_book ?t s'" by (simp add: s' same_book_def)
  ultimately have "evolves V ?t s'" by (simp add: evolves_def)
  with t show "evolves V s s'" by (rule evolves_trans)
  show "ptrs s' i = Obj h" by (simp add: s')
  show "v_idx V (env s') h = i" using f by (simp add: s')
qed

lemma fetch_object_evolves:
  assumes "env_laws E V" "rt_inv V s" "accessible V s i"
  shows "\<exists>h s'. fetch_object E i s = Done (h, s') \<and> evolves V s s' \<and> ptrs s' i = Obj h \<and>
           v_idx V (env s') h = i"
proof (cases "ptrs s i")
  case Null
  obtain h s' where run: "allocate_object E i s = (h, s')" by (cases "allocate_object E i s")
  have i: "i < TOTAL_OBJECTS" using assms(3) by (simp add: accessible_def)
  from allocate_object_evolves [OF assms(1,2) Null i run] run Null i show ?thesis
    by (simp add: fetch_object_def)
qed (use assms in \<open>auto simp: fetch_object_def accessible_def evolves_refl\<close>)

section \<open>The dereference\<close>

lemma deref_object_evolves:
  assumes laws: "env_laws E V" and inv: "rt_inv V s" and slot: "ptrs s i = Obj h"
    and own: "v_idx V (env s) h = i" and i: "i < TOTAL_OBJECTS"
    and run: "deref_object E nt mt i (h, s) = (md, s')"
  shows "evolves V s s'" "resident V s' i (drop_bit kObjectDataAddrBitPos md)" "mt \<Longrightarrow> marked V s' i"
proof -
  obtain md' ev e m where dr: "e_deref E nt mt h (env s, mem s) = (md', ev, e, m)"
    by (metis prod_cases4)
  let ?t = "deliver ev (s\<lparr>env := e, mem := m\<rparr>)"
  from run dr have md: "md' = md" and s': "s' = ?t\<lparr>obj_state := (obj_state ?t)(i := md)\<rparr>"
    by (auto simp: deref_object_def Let_def)
  have valid: "v_valid V (env s) h" using inv slot by (simp add: rt_inv_def slots_valid_def)
  have law: "silent V (env s) (mem s) e m \<and> reported V (env s) e ev \<and>
      v_res V e h = Some (drop_bit kObjectDataAddrBitPos md) \<and>
      (mt \<or> md AND kDirtyClear = 0 \<longrightarrow> v_dirty V e h)"
    using deref_lawD [OF laws rt_inv_ok [OF inv] valid dr] md by simp
  have t: "evolves V s ?t" using law by (intro silent_deliver inv) simp_all
  have own': "v_idx V e h = i" and valid': "v_valid V e h"
    using law own valid by (simp_all add: silent_def)
  have "coherent V s'"
    using evolves_inv [OF t] law slot by (auto simp: s' rt_inv_def coherent_def)
  moreover have "null_absent s'"
    using evolves_inv [OF t] slot by (auto simp: s' rt_inv_def null_absent_def)
  moreover have "slots_valid V s'" "slots_safe V s'" "v_ok V (env s')"
    using evolves_inv [OF t] by (simp_all add: s' rt_inv_def slots_valid_def slots_safe_def)
  ultimately have "rt_inv V s'" by (simp add: rt_inv_def)
  moreover have "view V s' = view V ?t" by (rule view_cong) (simp_all add: s')
  moreover have "accessible V s' j = accessible V ?t j" for j
    by (rule accessible_cong) (simp_all add: s')
  moreover have "same_book ?t s'" by (simp add: s' same_book_def)
  ultimately have "evolves V ?t s'" by (simp add: evolves_def)
  with t show "evolves V s s'" by (rule evolves_trans)
  show "resident V s' i (drop_bit kObjectDataAddrBitPos md)"
    using law own' valid' slot i by (simp add: resident_def s')
  show "marked V s' i" if mt using law slot that by (simp add: marked_def s')
qed

text \<open>The prefetch trace that ends a dereference moves no object.\<close>

definition keeps_objects :: "'e env_view \<Rightarrow> ('e rt \<Rightarrow> 'e rt run) \<Rightarrow> bool" where
  "keeps_objects V T \<longleftrightarrow> (\<forall>s. rt_inv V s \<longrightarrow> (\<exists>s'. T s = Done s' \<and> evolves V s s' \<and>
     (\<forall>i A. resident V s i A \<longrightarrow> resident V s' i A) \<and> (\<forall>i. marked V s i \<longrightarrow> marked V s' i)))"

lemma keepsD:
  "keeps_objects V T \<Longrightarrow> rt_inv V s \<Longrightarrow> \<exists>s'. T s = Done s' \<and> evolves V s s' \<and>
     (\<forall>i A. resident V s i A \<longrightarrow> resident V s' i A) \<and> (\<forall>i. marked V s i \<longrightarrow> marked V s' i)"
  by (simp add: keeps_objects_def)

lemma keeps_Done: "keeps_objects V Done"
  by (simp add: keeps_objects_def evolves_refl)

lemma resident_same_objects:
  "same_objects V (env s) (env s') \<Longrightarrow> ptrs s' = ptrs s \<Longrightarrow>
     resident V s i A \<Longrightarrow> resident V s' i A"
  by (simp add: resident_def same_objects_def)

lemma marked_same_objects:
  "same_objects V (env s) (env s') \<Longrightarrow> ptrs s' = ptrs s \<Longrightarrow> marked V s i \<Longrightarrow> marked V s' i"
  by (simp add: marked_def same_objects_def)

lemma keeps_add_trace:
  assumes laws: "env_laws E V" and pf: "pf \<le> MAX_LOOPS"
  shows "keeps_objects V (carm_add_prefetch_trace E i nt pf)"
  unfolding keeps_objects_def
proof (intro allI impI)
  fix s assume inv: "rt_inv V s"
  show "\<exists>s'. carm_add_prefetch_trace E i nt pf s = Done s' \<and> evolves V s s' \<and>
      (\<forall>j A. resident V s j A \<longrightarrow> resident V s' j A) \<and> (\<forall>j. marked V s j \<longrightarrow> marked V s' j)"
  proof (cases "prev_obj_index s pf \<noteq> i")
    case True
    let ?t = "s\<lparr>env := e_add_trace E pf nt i (env s)\<rparr>"
    let ?u = "?t\<lparr>prev_obj_index := (prev_obj_index s)(pf := i)\<rparr>"
    note q = quiet_lawD(1) [OF laws rt_inv_ok [OF inv], of pf nt i]
    have "evolves V s ?t" by (rule same_objects_evolves [OF inv q])
    moreover from this have "evolves V ?t ?u"
      by (rule evolvesI [OF evolves_inv]) (simp_all add: same_book_def)
    ultimately have "evolves V s ?u" by (rule evolves_trans)
    moreover have "carm_add_prefetch_trace E i nt pf s = Done ?u"
      using True pf by (simp add: carm_add_prefetch_trace_def)
    moreover have "resident V s j A \<longrightarrow> resident V ?u j A" "marked V s j \<longrightarrow> marked V ?u j" for j A
      using resident_same_objects [of V s ?u] marked_same_objects [of V s ?u] q by simp_all
    ultimately show ?thesis by blast
  qed (use inv pf in \<open>auto simp: carm_add_prefetch_trace_def evolves_refl\<close>)
qed

lemma deref_core:
  assumes laws: "env_laws E V" and T: "keeps_objects V T"
    and inv: "rt_inv V s" and acc: "accessible V s i"
  shows "\<exists>A s'. bindR (fetch_object E i s) (\<lambda>hs. case deref_object E nt mt i hs of (md, s) \<Rightarrow>
             bindR (T s) (\<lambda>s. Done (drop_bit kObjectDataAddrBitPos md, s))) = Done (A, s') \<and>
           evolves V s s' \<and> resident V s' i A \<and> (mt \<longrightarrow> marked V s' i)"
proof -
  obtain h t where f: "fetch_object E i s = Done (h, t)" "evolves V s t" "ptrs t i = Obj h"
      "v_idx V (env t) h = i"
    using fetch_object_evolves [OF laws inv acc] by blast
  obtain md u where d: "deref_object E nt mt i (h, t) = (md, u)"
    by (cases "deref_object E nt mt i (h, t)")
  have "i < TOTAL_OBJECTS" using acc by (simp add: accessible_def)
  note du = deref_object_evolves [OF laws evolves_inv [OF f(2)] f(3,4) this d]
  obtain s' where "T u = Done s'" "evolves V u s'"
      "resident V s' i (drop_bit kObjectDataAddrBitPos md)" "mt \<longrightarrow> marked V s' i"
    using keepsD [OF T evolves_inv [OF du(1)]] du(2,3) by metis
  moreover from this have "evolves V s s'"
    by (blast intro: evolves_trans f(2) du(1))
  ultimately show ?thesis using f(1) d by simp
qed

lemmas deref_core_rw = deref_core [where mt = False, simplified] deref_core [where mt = True, simplified]

section \<open>The contract\<close>

locale deref_service =
  fixes E :: "'e env_ops" and V :: "'e env_view"
    and op :: "u64 \<Rightarrow> 'e rt \<Rightarrow> (u64 \<times> 'e rt) run" and mt :: bool
  assumes op_spec: "env_laws E V \<Longrightarrow> rt_inv V s \<Longrightarrow> accessible V s i \<Longrightarrow>
    \<exists>A s'. op i s = Done (A, s') \<and> evolves V s s' \<and> resident V s' i A \<and> (mt \<longrightarrow> marked V s' i)"
begin

lemma op_Done:
  assumes "env_laws E V" "rt_inv V s" "accessible V s i"
  obtains A s' where "op i s = Done (A, s')" "evolves V s s'" "resident V s' i A" "mt \<Longrightarrow> marked V s' i"
  using op_spec [OF assms] by blast

lemma op_rule:
  "env_laws E V \<Longrightarrow> rt_inv V s \<Longrightarrow> accessible V s i \<Longrightarrow> op i s = Done (A, s') \<Longrightarrow>
     evolves V s s' \<and> resident V s' i A \<and> (mt \<longrightarrow> marked V s' i)"
  using op_spec [of s i] by auto

text \<open>Running the operation in a fresh scope keeps the contract.\<close>

lemma scoped_spec:
  assumes "env_laws E V" "rt_inv V s" "accessible V s i"
  shows "\<exists>A s'. op i (carm_deref E s) = Done (A, s') \<and> evolves V s s' \<and> resident V s' i A \<and>
    (mt \<longrightarrow> marked V s' i)"
proof -
  have t: "evolves V s (carm_deref E s)" using assms by (intro carm_deref_evolves)
  then have "rt_inv V (carm_deref E s)" "accessible V (carm_deref E s) i"
    using assms by (auto intro: evolves_inv evolves_accessible)
  from op_spec [OF assms(1) this] t show ?thesis by (blast intro: evolves_trans)
qed

lemma op_reads:
  assumes "env_laws E V" "rt_inv V s" "accessible V s i" "op i s = Done (A, s')" "k < OBJ_SIZE"
  shows "obj_byte V s' i k = Some (mem s' (A + k))"
  using op_rule [OF assms(1-4)] by (auto simp: resident_def obj_byte_def cont_def)

end

interpretation dr_read: deref_service E V "carmDeref_read E" False for E V
  by unfold_locales
    (simp add: carmDeref_read_def deref_core_rw keeps_add_trace MAX_LOOPS_def)

interpretation dr_write: deref_service E V "carmDeref_write E" True for E V
  by unfold_locales
    (simp add: carmDeref_write_def deref_core_rw keeps_add_trace MAX_LOOPS_def)

lemma deref_core_nt:
  assumes "env_laws E V" "rt_inv V s" "accessible V s i"
  shows "\<exists>A s'. bindR (fetch_object E i s) (\<lambda>hs. case deref_object E nt mt i hs of (md, s) \<Rightarrow>
             Done (drop_bit kObjectDataAddrBitPos md, s)) = Done (A, s') \<and>
           evolves V s s' \<and> resident V s' i A \<and> (mt \<longrightarrow> marked V s' i)"
  using deref_core [OF assms(1) keeps_Done assms(2,3), of nt mt] by simp

lemmas deref_core_nt_rw = deref_core_nt [where mt = False, simplified] deref_core_nt [where mt = True, simplified]

interpretation dr_write_nt: deref_service E V "carmDeref_write_not_temporal E" True for E V
  by unfold_locales (simp add: carmDeref_write_not_temporal_def deref_core_nt_rw)

interpretation dr_read_nt: deref_service E V "carmDeref_read_not_temporal E" False for E V
  by unfold_locales (simp add: carmDeref_read_not_temporal_def deref_core_nt_rw)

text \<open>The loop variants trace into the prefetcher of their loop, one of \<open>MAX_LOOPS + 1\<close>.\<close>

definition slot_bound :: "u64 \<Rightarrow> u64" where "slot_bound pf = min pf MAX_LOOPS"

lemma slot_bound_le: "slot_bound pf \<le> MAX_LOOPS"
  by (simp add: slot_bound_def)

interpretation dr_write_sp: deref_service E V "\<lambda>i. carmDeref_write_sp E i (slot_bound pf)" True for E V pf
  by unfold_locales (simp add: carmDeref_write_sp_def deref_core_rw keeps_add_trace slot_bound_le)

interpretation dr_read_sp: deref_service E V "\<lambda>i. carmDeref_read_sp E i (slot_bound pf)" False for E V pf
  by unfold_locales (simp add: carmDeref_read_sp_def deref_core_rw keeps_add_trace slot_bound_le)

interpretation sc_read: deref_service E V "carm_deref_read E" False for E V
  by unfold_locales (simp add: carm_deref_read_def dr_read.scoped_spec [simplified])

interpretation sc_write: deref_service E V "carm_deref_write E" True for E V
  by unfold_locales (simp add: carm_deref_write_def dr_write.scoped_spec [simplified])

interpretation sc_write_nt: deref_service E V "carm_deref_write_not_temporal E" True for E V
  by unfold_locales (simp add: carm_deref_write_not_temporal_def dr_write_nt.scoped_spec [simplified])

interpretation sc_read_nt: deref_service E V "carm_deref_read_not_temporal E" False for E V
  by unfold_locales (simp add: carm_deref_read_not_temporal_def dr_read_nt.scoped_spec [simplified])

interpretation sc_write_sp: deref_service E V "\<lambda>i. carm_deref_write_sp E i (slot_bound pf)" True for E V pf
  by unfold_locales (simp add: carm_deref_write_sp_def dr_write_sp.scoped_spec [simplified])

interpretation sc_read_sp: deref_service E V "\<lambda>i. carm_deref_read_sp E i (slot_bound pf)" False for E V pf
  by unfold_locales (simp add: carm_deref_read_sp_def dr_read_sp.scoped_spec [simplified])

end
