(* ===== verification/Far_Memory.thy ===== *)
theory Far_Memory
  imports Deref_Service
begin

text \<open>
  Ranges of remote addresses, the fast path (\<open>_ptrDeref\<close> of \<open>src/libc_support.cpp\<close>), and
  what a write or a read through a dereferenced address means for the program's memory:
  \<open>writes\<close> and \<open>resident_read\<close> are the rules all the C library wrappers use.
\<close>

section \<open>Remote addresses\<close>

definition obj_of :: "ptr \<Rightarrow> u64" where
  "obj_of p = (p XOR CARM_PTR) div OBJ_SIZE"

definition off_of :: "ptr \<Rightarrow> u64" where
  "off_of p = (p XOR CARM_PTR) mod OBJ_SIZE"

text \<open>\<open>n\<close> remote bytes from \<open>d\<close>, all in objects that may be dereferenced.\<close>

definition far_range :: "'e env_view \<Rightarrow> 'e rt \<Rightarrow> ptr \<Rightarrow> u64 \<Rightarrow> bool" where
  "far_range V s d n \<longleftrightarrow> check_carm_object d \<and>
     unat (d XOR CARM_PTR) + unat n \<le> 2 ^ 60 \<and> (\<forall>k<n. accessible V s (obj_of (d + k)))"

text \<open>\<open>n\<close> local bytes from \<open>p\<close>, none in the frames of the object cache.\<close>

definition local_range :: "'e env_view \<Rightarrow> ptr \<Rightarrow> u64 \<Rightarrow> bool" where
  "local_range V p n \<longleftrightarrow> (\<forall>k<n. \<not> check_carm_object (p + k) \<and> \<not> v_heap V (p + k))"

lemma CARM_PTR_num: "CARM_PTR = 0x1000000000000000"
  by (simp add: CARM_PTR_def)

lemma bit_CARM_PTR [bit_simps]: "bit CARM_PTR n \<longleftrightarrow> n = 60"
  by (simp only: CARM_PTR_def bit_simps) auto

lemma check_bit: "check_carm_object p \<longleftrightarrow> bit p 60"
  by (auto simp: check_carm_object_def bit_eq_iff [of "p AND CARM_PTR"] bit_simps)

lemma xor_CARM_sub: "check_carm_object p \<Longrightarrow> p XOR CARM_PTR = p - CARM_PTR"
proof -
  assume "check_carm_object p"
  then have b: "bit p 60" by (simp add: check_bit)
  let ?q = "p XOR CARM_PTR"
  have "?q AND CARM_PTR = 0"
    by (rule bit_eqI) (use b in \<open>auto simp: bit_simps\<close>)
  then have "?q + CARM_PTR = ?q OR CARM_PTR"
    by (rule disjunctive_add_eq_or)
  also have "\<dots> = p"
    by (rule bit_eqI) (use b in \<open>auto simp: bit_simps\<close>)
  finally show ?thesis by (simp add: algebra_simps)
qed

lemma not_bit_60: "unat (a :: u64) < 2 ^ 60 \<Longrightarrow> \<not> bit a 60"
proof -
  assume "unat a < 2 ^ 60"
  then have "unat (a div 2 ^ 60) = 0" by (simp add: unat_div)
  then have "a div 2 ^ 60 = 0" by (simp only: unat_eq_0)
  then show ?thesis by (simp add: bit_iff_odd)
qed

lemma check_CARM_add: "unat a < 2 ^ 60 \<Longrightarrow> check_carm_object (CARM_PTR + a)"
proof -
  assume "unat a < 2 ^ 60"
  then have na: "\<not> bit a 60" by (rule not_bit_60)
  have "CARM_PTR + a = CARM_PTR OR a"
    by (rule disjunctive_add) (use na in \<open>auto simp: bit_simps\<close>)
  then show ?thesis by (simp add: check_bit bit_simps)
qed

text \<open>Adding to a remote pointer adds to its offset, as long as bit 60 is kept.\<close>

lemma remote_add:
  assumes "check_carm_object d" "unat (d XOR CARM_PTR) + unat k < 2 ^ 60"
  shows "check_carm_object (d + k)" "(d + k) XOR CARM_PTR = (d XOR CARM_PTR) + k"
    "unat ((d + k) XOR CARM_PTR) = unat (d XOR CARM_PTR) + unat k"
proof -
  let ?a = "d XOR CARM_PTR"
  have d: "d = CARM_PTR + ?a" using xor_CARM_sub [OF assms(1)] by simp
  have u: "unat (?a + k) = unat ?a + unat k"
    by (rule unat_add_no_wrap) (use assms(2) in simp)
  have "check_carm_object (CARM_PTR + (?a + k))"
    by (rule check_CARM_add) (use u assms(2) in simp)
  moreover have dk: "d + k = CARM_PTR + (?a + k)"
    by (subst (1) d) (rule add.assoc)
  ultimately show c: "check_carm_object (d + k)" by (simp only:)
  show eq: "(d + k) XOR CARM_PTR = ?a + k"
    using xor_CARM_sub [OF c] unfolding dk by simp
  show "unat ((d + k) XOR CARM_PTR) = unat ?a + unat k" by (simp only: eq u)
qed

lemma unat_obj_of: "unat (obj_of p) = unat (p XOR CARM_PTR) div 4096"
  by (simp add: obj_of_def OBJ_SIZE_def)

lemma unat_off_of: "unat (off_of p) = unat (p XOR CARM_PTR) mod 4096"
  by (simp add: off_of_def OBJ_SIZE_def)

lemma off_of_less: "off_of p < OBJ_SIZE"
  by (simp add: off_of_def mod_OBJ_SIZE_less)

lemma unat_off_of_lt: "unat (off_of p) < 4096"
  by (simp add: unat_off_of)

text \<open>Inside an object the object stays and the offset moves.\<close>

lemma same_object:
  assumes "check_carm_object d" "unat (d XOR CARM_PTR) + unat k < 2 ^ 60"
    and "unat (off_of d) + unat k < 4096"
  shows "obj_of (d + k) = obj_of d" "off_of (d + k) = off_of d + k"
proof -
  note u = remote_add(3) [OF assms(1,2)]
  note dm = div_mod_inside [OF assms(3) [unfolded unat_off_of]]
  then have "unat (obj_of (d + k)) = unat (obj_of d)"
    and "unat (off_of (d + k)) = unat (off_of d) + unat k"
    by (simp_all add: unat_obj_of unat_off_of u)
  moreover have "unat (off_of d + k) = unat (off_of d) + unat k"
    by (rule unat_add_no_wrap) (use assms(3) in simp)
  ultimately show "obj_of (d + k) = obj_of d" "off_of (d + k) = off_of d + k"
    by (simp_all only: word_unat_eq_iff)
qed

text \<open>One object further.\<close>

lemma next_object:
  assumes "check_carm_object d" "unat (d XOR CARM_PTR) + unat k < 2 ^ 60"
    and "unat (off_of d) + unat k = 4096"
  shows "obj_of (d + k) = obj_of d + 1" "off_of (d + k) = 0"
proof -
  note u = remote_add(3) [OF assms(1,2)]
  note dm = div_mod_next [OF assms(3) [unfolded unat_off_of]]
  then have o: "unat (obj_of (d + k)) = unat (obj_of d) + 1"
    and f: "unat (off_of (d + k)) = 0"
    by (simp_all add: unat_obj_of unat_off_of u)
  have "unat (obj_of d) < 2 ^ 60" using assms(2) by (simp add: unat_obj_of)
  then have "unat (obj_of d + 1) = unat (obj_of d) + 1" by (simp add: unat_word_ariths)
  with o show "obj_of (d + k) = obj_of d + 1" by (simp only: word_unat_eq_iff)
  from f show "off_of (d + k) = 0" by (simp only: unat_eq_0)
qed

section \<open>Ranges\<close>

lemma far_range_check:
  assumes "far_range V s d n" "k < n"
  shows "check_carm_object (d + k)" "accessible V s (obj_of (d + k))"
    "unat (d XOR CARM_PTR) + unat k < 2 ^ 60"
proof -
  show b: "unat (d XOR CARM_PTR) + unat k < 2 ^ 60"
    using assms by (simp add: far_range_def word_nat)
  with assms show "check_carm_object (d + k)" "accessible V s (obj_of (d + k))"
    by (simp_all add: far_range_def remote_add(1))
qed

lemma far_range_tail:
  assumes "far_range V s d n" "c < n"
  shows "far_range V s (d + c) (n - c)"
proof -
  note c = far_range_check(3) [OF assms]
  have nc: "unat (n - c) = unat n - unat c" using assms(2) by (intro unat_sub_le) simp
  have "accessible V s (obj_of (d + c + k))" if "k < n - c" for k
  proof -
    have "c + k < n" using assms(2) that by (intro word_less_diff) simp_all
    from far_range_check(2) [OF assms(1) this] show ?thesis by (simp only: add.assoc)
  qed
  moreover have "check_carm_object (d + c)" by (rule far_range_check(1) [OF assms])
  moreover have "unat ((d + c) XOR CARM_PTR) + unat (n - c) \<le> 2 ^ 60"
    using assms remote_add(3) [of d c] c nc by (simp add: far_range_def word_nat)
  ultimately show ?thesis by (simp add: far_range_def)
qed

lemma far_range_evolves: "far_range V s d n \<Longrightarrow> evolves V s t \<Longrightarrow> far_range V t d n"
  by (auto simp: far_range_def intro: evolves_accessible)

lemma local_range_tail:
  assumes "local_range V p n" "c < n"
  shows "local_range V (p + c) (n - c)"
  unfolding local_range_def
proof (intro allI impI)
  fix k assume "k < n - c"
  then have "c + k < n" using assms(2) by (intro word_less_diff) simp_all
  with assms(1) show "\<not> check_carm_object (p + c + k) \<and> \<not> v_heap V (p + c + k)"
    by (simp add: local_range_def add.assoc)
qed

lemma local_view: "local_range V p n \<Longrightarrow> k < n \<Longrightarrow> view V s (p + k) = Some (mem s (p + k))"
  by (simp add: local_range_def view_def)

lemma local_evolves:
  assumes "local_range V p n" "evolves V s t" "k < n"
  shows "mem t (p + k) = mem s (p + k)"
proof -
  have "view V s (p + k) = Some (mem s (p + k))" by (rule local_view [OF assms(1,3)])
  from evolves_view [OF assms(2) this] local_view [OF assms(1,3), of t] show ?thesis by simp
qed

end
