(* ===== verification/Sim_Env.thy ===== *)
theory Sim_Env
  imports Far_Memory
begin

text \<open>
  A concrete environment: a far memory with eight local frames, object \<open>h\<close> going to frame
  \<open>h mod 8\<close>. Inside a scope an object stays until another takes its frame; the end of a scope
  evicts everything. Only objects marked modified are written back. It satisfies \<open>env_laws\<close>, so the
  hypotheses of the properties can be met, and it is the environment the witnesses evaluate in.
\<close>

record sim =
  sim_next :: handle
  sim_frames :: "nat \<Rightarrow> handle option"
  sim_dirty :: "handle \<Rightarrow> bool"
  sim_store :: "handle \<Rightarrow> u64 \<Rightarrow> u8"
  sim_idx :: "handle \<Rightarrow> u64"
  sim_brk :: u64

definition SIM_FRAME :: u64 where "SIM_FRAME = 0x200000"

definition sim_frame :: "handle \<Rightarrow> u64" where
  "sim_frame h = SIM_FRAME + of_nat (h mod 8) * OBJ_SIZE"

definition sim_in :: "sim \<Rightarrow> handle \<Rightarrow> bool" where
  "sim_in e h \<longleftrightarrow> sim_frames e (h mod 8) = Some h"

definition sim_ok :: "sim \<Rightarrow> bool" where
  "sim_ok e \<longleftrightarrow> (\<forall>r g. sim_frames e r = Some g \<longrightarrow> g mod 8 = r \<and> g < sim_next e)"

definition sim_view :: "sim env_view" where
  "sim_view =
     \<lparr>v_ok = sim_ok, v_valid = (\<lambda>e h. h < sim_next e),
      v_res = (\<lambda>e h. if sim_in e h then Some (sim_frame h) else None),
      v_remote = sim_store, v_dirty = sim_dirty, v_idx = sim_idx, v_heap = within SIM_FRAME 0x8000\<rparr>"

definition sim_alloc :: "sim \<Rightarrow> handle \<times> sim" where
  "sim_alloc e =
     (sim_next e, e\<lparr>sim_next := sim_next e + 1,
                    sim_store := (sim_store e)(sim_next e := (\<lambda>_. 0))\<rparr>)"

text \<open>What an eviction leaves in far memory.\<close>

definition sim_back :: "sim \<Rightarrow> memory \<Rightarrow> handle \<Rightarrow> u64 \<Rightarrow> u8" where
  "sim_back e m g = (if sim_in e g \<and> sim_dirty e g then (\<lambda>k. m (sim_frame g + k)) else sim_store e g)"

definition sim_evict :: "nat \<Rightarrow> sim \<Rightarrow> memory \<Rightarrow> evacs \<times> sim" where
  "sim_evict r e m =
     (case sim_frames e r of
        None \<Rightarrow> ([], e)
      | Some g \<Rightarrow> ([(sim_idx e g, kPresentClear)],
                  e\<lparr>sim_frames := (sim_frames e)(r := None), sim_dirty := (sim_dirty e)(g := False),
                    sim_store := (sim_store e)(g := sim_back e m g)\<rparr>))"

definition sim_evict_all :: "sim \<Rightarrow> memory \<Rightarrow> evacs \<times> sim" where
  "sim_evict_all e m =
     (map (\<lambda>g. (sim_idx e g, kPresentClear)) (concat (map (\<lambda>r. case sim_frames e r of None \<Rightarrow> [] | Some g \<Rightarrow> [g]) [0..<8])),
      e\<lparr>sim_frames := (\<lambda>_. None), sim_dirty := (\<lambda>_. False), sim_store := sim_back e m\<rparr>)"

definition sim_load :: "handle \<Rightarrow> sim \<Rightarrow> memory \<Rightarrow> sim \<times> memory" where
  "sim_load h e m =
     (e\<lparr>sim_frames := (sim_frames e)(h mod 8 := Some h), sim_dirty := (sim_dirty e)(h := False)\<rparr>,
      (\<lambda>p. if within (sim_frame h) OBJ_SIZE p then sim_store e h (p - sim_frame h) else m p))"

definition sim_md :: "sim \<Rightarrow> handle \<Rightarrow> u64" where
  "sim_md e h = push_bit kObjectDataAddrBitPos (sim_frame h) OR (if sim_dirty e h then 0 else kDirtyClear)"

definition sim_mark :: "bool \<Rightarrow> handle \<Rightarrow> sim \<Rightarrow> sim" where
  "sim_mark mt h e = (if mt then e\<lparr>sim_dirty := (sim_dirty e)(h := True)\<rparr> else e)"

definition sim_deref :: "bool \<Rightarrow> handle \<Rightarrow> sim \<times> memory \<Rightarrow> u64 \<times> evacs \<times> sim \<times> memory" where
  "sim_deref mt h em =
     (case em of (e, m) \<Rightarrow>
        if sim_in e h then (sim_md (sim_mark mt h e) h, [], sim_mark mt h e, m)
        else case sim_evict (h mod 8) e m of (ev, e) \<Rightarrow>
          case sim_load h e m of (e, m) \<Rightarrow> (sim_md (sim_mark mt h e) h, ev, sim_mark mt h e, m))"

definition sim_ops :: "sim env_ops" where
  "sim_ops =
     \<lparr>e_alloc = (\<lambda>ds sz (e, m). case sim_alloc e of (h, e) \<Rightarrow> (h, [], e, m)),
      e_set_index = (\<lambda>h i e. e\<lparr>sim_idx := (sim_idx e)(h := i)\<rparr>),
      e_deref = (\<lambda>nt mt. sim_deref mt), e_enter = (\<lambda>(e, m). ([], e, m)),
      e_exit = (\<lambda>(e, m). case sim_evict_all e m of (ev, e) \<Rightarrow> (ev, e, m)), e_add_trace = (\<lambda>pf nt i e. e),
      e_static_prefetch = (\<lambda>pf a b n e. e), e_mark_region = (\<lambda>a e. (0, e)),
      e_invalidate_region = (\<lambda>a e. e),
      e_malloc = (\<lambda>n e. (sim_brk e, e\<lparr>sim_brk := sim_brk e + n\<rparr>)), e_free = (\<lambda>p e. e),
      e_realloc = (\<lambda>p n (e, m). (p, e, m))\<rparr>"

section \<open>It is an environment\<close>

lemma sim_view_simps [simp]:
  "v_ok sim_view = sim_ok" "v_valid sim_view e h \<longleftrightarrow> h < sim_next e"
  "v_res sim_view e h = (if sim_in e h then Some (sim_frame h) else None)"
  "v_remote sim_view = sim_store" "v_dirty sim_view = sim_dirty" "v_idx sim_view = sim_idx"
  "v_heap sim_view = within SIM_FRAME 0x8000"
  by (simp_all add: sim_view_def)

lemma sim_cont:
  "cont sim_view e m h k = (if sim_in e h then m (sim_frame h + k) else sim_store e h k)"
  by (simp add: cont_def)

lemma sim_safe:
  "safe sim_view e m h \<longleftrightarrow> sim_dirty e h \<or> (\<forall>k<OBJ_SIZE. sim_in e h \<longrightarrow> m (sim_frame h + k) = sim_store e h k)"
  by (auto simp: safe_def sim_cont)

text \<open>The frames.\<close>

lemma in_frame: "within (sim_frame h) OBJ_SIZE p \<longleftrightarrow> unat (p - SIM_FRAME) div 4096 = h mod 8"
proof -
  let ?x = "p - SIM_FRAME" and ?r = "of_nat (h mod 8) * OBJ_SIZE :: u64"
  have r: "unat ?r = h mod 8 * 4096" by (simp add: unat_word_ariths OBJ_SIZE_def unat_of_nat)
  have "within (sim_frame h) OBJ_SIZE p \<longleftrightarrow> ?x - ?r < OBJ_SIZE"
    by (simp add: within_def sim_frame_def algebra_simps)
  also have "\<dots> \<longleftrightarrow> unat (?x - ?r) < 4096" by (simp add: word_less_unat OBJ_SIZE_def)
  also have "\<dots> \<longleftrightarrow> unat ?x div 4096 = h mod 8"
  proof
    assume l: "unat (?x - ?r) < 4096"
    have "unat (?r + (?x - ?r)) = unat ?r + unat (?x - ?r)"
      by (rule unat_add_no_wrap) (use l r mod_less_divisor [of 8 h] in simp)
    then have "unat ?x = h mod 8 * 4096 + unat (?x - ?r)" by (simp add: r)
    with l show "unat ?x div 4096 = h mod 8" by simp
  next
    assume d: "unat ?x div 4096 = h mod 8"
    have e: "unat ?x = h mod 8 * 4096 + unat ?x mod 4096" using div_mult_mod_eq [of "unat ?x" 4096] d by simp
    then have "?r \<le> ?x" using r by (simp add: word_le_unat)
    then have "unat (?x - ?r) = unat ?x - h mod 8 * 4096" using unat_sub_le r by metis
    with e show "unat (?x - ?r) < 4096" using mod_less_divisor [of 4096 "unat ?x"] by linarith
  qed
  finally show ?thesis .
qed


lemma frame_in: "k < OBJ_SIZE \<Longrightarrow> unat (sim_frame h + k - SIM_FRAME) div 4096 = h mod 8"
  using in_frame [of h "sim_frame h + k"] withinI [of k OBJ_SIZE "sim_frame h"] by simp

lemma frame_heap: "within (sim_frame h) OBJ_SIZE p \<Longrightarrow> within SIM_FRAME 0x8000 p"
proof -
  assume "within (sim_frame h) OBJ_SIZE p"
  then have "unat (p - SIM_FRAME) div 4096 < 8" using mod_less_divisor [of 8 h] by (simp add: in_frame)
  then have "unat (p - SIM_FRAME) < 0x8000" by simp
  then show ?thesis by (simp add: within_def word_less_unat)
qed

lemma sim_ok_in: "sim_ok e \<Longrightarrow> sim_frames e r = Some g \<Longrightarrow> r = g mod 8 \<and> sim_in e g \<and> g < sim_next e"
  by (auto simp: sim_ok_def sim_in_def)

lemma mod8_cases: "h mod 8 \<in> {0, 1, 2, 3, 4, 5, 6, 7 :: nat}"
proof -
  have "h mod 8 < 8" by simp
  then show ?thesis by (simp only: insert_iff empty_iff) presburger
qed

lemma sim_md_addr: "drop_bit kObjectDataAddrBitPos (sim_md e h) = sim_frame h"
  using mod8_cases [of h]
  by (auto simp: sim_md_def sim_frame_def SIM_FRAME_def OBJ_SIZE_def kObjectDataAddrBitPos_def kDirtyClear_def)

lemma sim_md_dirty: "sim_md e h AND kDirtyClear = 0 \<longleftrightarrow> sim_dirty e h"
  using mod8_cases [of h]
  by (auto simp: sim_md_def sim_frame_def SIM_FRAME_def OBJ_SIZE_def kObjectDataAddrBitPos_def kDirtyClear_def)

lemma silent_refl: "v_ok V e \<Longrightarrow> silent V e m e m"
  by (simp add: silent_def)

lemma silent_trans: "silent V e m e1 m1 \<Longrightarrow> silent V e1 m1 e2 m2 \<Longrightarrow> silent V e m e2 m2"
  by (auto simp: silent_def)

lemma absent_bit: "kPresentClear \<noteq> 0"
  by (simp add: kPresentClear_def)

lemma sim_evict_law:
  assumes ok: "sim_ok e" and run: "sim_evict r e m = (ev, e')"
  shows "silent sim_view e m e' m" "reported sim_view e e' ev" "sim_ok e'"
    "sim_frames e' r = None" "sim_next e' = sim_next e"
proof -
  have "silent sim_view e m e' m \<and> reported sim_view e e' ev \<and> sim_ok e' \<and>
    sim_frames e' r = None \<and> sim_next e' = sim_next e"
  proof (cases "sim_frames e r")
    case None
    with ok run show ?thesis by (simp add: sim_evict_def silent_refl reported_def)
  next
    case (Some g)
    note g = sim_ok_in [OF ok Some]
    have e': "ev = [(sim_idx e g, kPresentClear)]" "sim_frames e' = (sim_frames e)(r := None)"
      "sim_dirty e' = (sim_dirty e)(g := False)" "sim_store e' = (sim_store e)(g := sim_back e m g)"
      "sim_next e' = sim_next e" "sim_idx e' = sim_idx e"
      using run by (auto simp: sim_evict_def Some)
    have i: "sim_in e' h \<longleftrightarrow> sim_in e h \<and> h \<noteq> g" for h
      using g by (auto simp: sim_in_def e'(2))
    have ok': "sim_ok e'" using ok by (simp add: sim_ok_def e'(2,5))
    then have "silent sim_view e m e' m"
      by (auto simp: silent_def sim_safe sim_cont i e' sim_back_def g)
    with ok' show ?thesis by (auto simp: reported_def i e' absent_bit)
  qed
  then show "silent sim_view e m e' m" "reported sim_view e e' ev" "sim_ok e'"
    "sim_frames e' r = None" "sim_next e' = sim_next e" by simp_all
qed

lemma sim_evict_all_law:
  assumes ok: "sim_ok e" and run: "sim_evict_all e m = (ev, e')"
  shows "silent sim_view e m e' m" "reported sim_view e e' ev"
proof -
  let ?gs = "concat (map (\<lambda>r. case sim_frames e r of None \<Rightarrow> [] | Some g \<Rightarrow> [g]) [0..<8])"
  have e': "ev = map (\<lambda>g. (sim_idx e g, kPresentClear)) ?gs" "sim_frames e' = (\<lambda>_. None)"
    "sim_dirty e' = (\<lambda>_. False)" "sim_store e' = sim_back e m" "sim_next e' = sim_next e" "sim_idx e' = sim_idx e"
    using run by (auto simp: sim_evict_all_def)
  have i: "\<not> sim_in e' h" for h by (simp add: sim_in_def e')
  have ok': "sim_ok e'" by (simp add: sim_ok_def e')
  then show "silent sim_view e m e' m"
    by (auto simp: silent_def sim_safe sim_cont i e' sim_back_def)
  have gs: "h \<in> set ?gs" if "sim_in e h" for h
    using that by (auto simp: sim_in_def intro!: bexI [of _ "h mod 8"])
  have f: "fst ` set ev = sim_idx e ` set ?gs" by (simp add: e'(1) image_image)
  show "reported sim_view e e' ev"
    unfolding reported_def f using gs by (auto simp: e'(1) absent_bit split: if_splits)
qed

lemma sim_load_law:
  assumes ok: "sim_ok e" and h: "h < sim_next e" and free: "sim_frames e (h mod 8) = None"
    and run: "sim_load h e m = (e', m')"
  shows "silent sim_view e m e' m'" "reported sim_view e e' []" "sim_ok e'" "sim_in e' h" "sim_next e' = sim_next e"
proof -
  have e': "sim_frames e' = (sim_frames e)(h mod 8 := Some h)" "sim_dirty e' = (sim_dirty e)(h := False)"
    "sim_store e' = sim_store e" "sim_next e' = sim_next e" "sim_idx e' = sim_idx e"
    and m': "m' = (\<lambda>p. if within (sim_frame h) OBJ_SIZE p then sim_store e h (p - sim_frame h) else m p)"
    using run by (auto simp: sim_load_def)
  show in_h: "sim_in e' h" and "sim_next e' = sim_next e" by (simp_all add: sim_in_def e')
  show ok': "sim_ok e'" using ok h by (auto simp: sim_ok_def e' split: if_splits)
  have i: "sim_in e' g \<longleftrightarrow> g = h \<or> sim_in e g" "sim_in e g \<Longrightarrow> g mod 8 \<noteq> h mod 8" for g
    using free by (auto simp: sim_in_def e')
  have new: "m' (sim_frame h + k) = sim_store e h k" if "k < OBJ_SIZE" for k
    using withinI [OF that] by (simp add: m')
  have old: "m' (sim_frame g + k) = m (sim_frame g + k)" if "k < OBJ_SIZE" "sim_in e g" for k g
    using frame_in [OF that(1), of g] i(2) [OF that(2)] by (simp add: m' in_frame)
  have keep: "m' p = m p" if "\<not> within SIM_FRAME 0x8000 p" for p using that frame_heap by (auto simp: m')
  have "\<not> sim_in e h" using free by (simp add: sim_in_def)
  with ok' new old i(1) keep show "silent sim_view e m e' m'"
    by (auto simp: silent_def sim_safe sim_cont e')
  show "reported sim_view e e' []" using i by (auto simp: reported_def e')
qed

lemma sim_mark_law:
  assumes "sim_ok e"
  shows "silent sim_view e m (sim_mark mt h e) m" "reported sim_view e (sim_mark mt h e) []"
proof -
  have i: "sim_in (sim_mark mt h e) = sim_in e" "sim_ok (sim_mark mt h e)" "sim_store (sim_mark mt h e) = sim_store e"
    "sim_idx (sim_mark mt h e) = sim_idx e" "sim_next (sim_mark mt h e) = sim_next e"
    "sim_dirty e g \<Longrightarrow> sim_dirty (sim_mark mt h e) g" for g
    using assms by (auto simp: sim_mark_def sim_in_def [abs_def] sim_ok_def)
  then show "silent sim_view e m (sim_mark mt h e) m" "reported sim_view e (sim_mark mt h e) []"
    by (auto simp: silent_def reported_def sim_safe sim_cont)
qed

lemma reported_trans:
  assumes "silent V e m e1 m1" "reported V e e1 ev" "reported V e1 e2 []"
  shows "reported V e e2 ev"
  using assms unfolding reported_def silent_def by (metis empty_iff image_empty list.set(1))

lemma sim_alloc_law: "alloc_law sim_ops sim_view"
proof -
  have "\<not> h < sim_next e \<and> h < sim_next e' \<and> safe sim_view e' m h \<and> silent sim_view e m e' m \<and> reported sim_view e e' []"
    if ok: "sim_ok e" and run: "sim_alloc e = (h, e')" for e h e' m
  proof -
    have e': "h = sim_next e" "sim_next e' = sim_next e + 1" "sim_frames e' = sim_frames e" "sim_dirty e' = sim_dirty e"
      "sim_idx e' = sim_idx e" "sim_store e' = (sim_store e)(sim_next e := (\<lambda>_. 0))"
      using run by (auto simp: sim_alloc_def)
    have i: "sim_in e' = sim_in e" "\<not> sim_in e (sim_next e)"
      using ok by (auto simp: sim_in_def [abs_def] e' sim_ok_def)
    have ok': "sim_ok e'" using ok by (auto simp: sim_ok_def e' less_SucI)
    show ?thesis using i ok' by (auto simp: silent_def reported_def sim_safe sim_cont e')
  qed
  then show ?thesis unfolding alloc_law_def by (auto simp: sim_ops_def split: prod.splits)
qed

lemma sim_index_law: "index_law sim_ops sim_view"
  by (auto simp: index_law_def sim_ops_def Let_def sim_ok_def sim_view_def sim_in_def)

lemma sim_deref_law: "deref_law sim_ops sim_view"
proof -
  have "silent sim_view e m e' m' \<and> reported sim_view e e' ev \<and>
     v_res sim_view e' h = Some (drop_bit kObjectDataAddrBitPos md) \<and>
     (mt \<or> md AND kDirtyClear = 0 \<longrightarrow> v_dirty sim_view e' h)"
    if ok: "sim_ok e" and h: "h < sim_next e" and run: "sim_deref mt h (e, m) = (md, ev, e', m')"
    for e m mt h md ev e' m'
  proof -
    have mark: "sim_in (sim_mark mt h e) g = sim_in e g" "mt \<Longrightarrow> sim_dirty (sim_mark mt h e) h" for e g
      by (simp_all add: sim_mark_def sim_in_def)
    show ?thesis
    proof (cases "sim_in e h")
      case True
      then have r: "md = sim_md (sim_mark mt h e) h" "ev = []" "e' = sim_mark mt h e" "m' = m"
        using run by (auto simp: sim_deref_def)
      show ?thesis using True sim_mark_law(1) [OF ok, of m mt h] sim_mark_law(2) [OF ok, of mt h] mark by (simp add: r sim_md_addr sim_md_dirty)
    next
      case False
      obtain ev1 e1 where 1: "sim_evict (h mod 8) e m = (ev1, e1)" by (cases "sim_evict (h mod 8) e m")
      obtain e2 m2 where 2: "sim_load h e1 m = (e2, m2)" by (cases "sim_load h e1 m")
      have r: "md = sim_md (sim_mark mt h e2) h" "ev = ev1" "e' = sim_mark mt h e2" "m' = m2"
        using run False by (auto simp: sim_deref_def 1 2)
      note ev = sim_evict_law [OF ok 1]
      have "h < sim_next e1" using h ev(5) by simp
      note ld = sim_load_law [OF ev(3) this ev(4) 2]
      note mk = sim_mark_law(1) [OF ld(3), of m2 mt h] sim_mark_law(2) [OF ld(3), of mt h]
      have "silent sim_view e m e' m'"
        unfolding r by (rule silent_trans [OF silent_trans [OF ev(1) ld(1)] mk(1)])
      moreover have "reported sim_view e e' ev" unfolding r
        by (rule reported_trans [OF silent_trans [OF ev(1) ld(1)] reported_trans [OF ev(1,2) ld(2)] mk(2)])
      ultimately show ?thesis using ld(4) mark by (simp add: r sim_md_addr sim_md_dirty)
    qed
  qed
  then show ?thesis by (simp add: deref_law_def sim_ops_def)
qed

lemma sim_scope_law: "scope_law sim_ops sim_view"
  unfolding scope_law_def
proof (intro allI impI)
  fix e m ev e' m'
  assume ok: "v_ok sim_view e" and run: "e_enter sim_ops (e, m) = (ev, e', m') \<or> e_exit sim_ops (e, m) = (ev, e', m')"
  obtain ev1 e1 where ex: "sim_evict_all e m = (ev1, e1)" by (cases "sim_evict_all e m")
  from run consider "ev = []" "e' = e" "m' = m" | "ev = ev1" "e' = e1" "m' = m"
    by (auto simp: sim_ops_def ex)
  then show "silent sim_view e m e' m' \<and> reported sim_view e e' ev"
  proof cases
    case 1
    with ok show ?thesis by (simp add: silent_refl reported_def)
  next
    case 2
    from sim_evict_all_law [OF _ ex] ok show ?thesis by (simp add: 2)
  qed
qed

lemma sim_quiet_law: "quiet_law sim_ops sim_view"
  by (auto simp: quiet_law_def sim_ops_def same_objects_def sim_ok_def sim_view_def sim_in_def)

lemma sim_frames_law: "frames_law sim_view"
proof -
  have "h = h'" if "sim_in e h" "sim_in e h'" "h mod 8 = h' mod 8" for e h h'
    using that by (simp add: sim_in_def)
  then have sep: "\<not> within (sim_frame h') OBJ_SIZE p"
    if "sim_in e h" "sim_in e h'" "h \<noteq> h'" "within (sim_frame h) OBJ_SIZE p" for e h h' p
    using that by (metis in_frame)
  show ?thesis unfolding frames_law_def
    using sep frame_heap by (simp add: if_split_eq1 split: if_split_asm) blast
qed

theorem sim_env_laws: "env_laws sim_ops sim_view"
  by (simp add: env_laws_def sim_frames_law sim_alloc_law sim_index_law sim_deref_law
      sim_scope_law sim_quiet_law)

text \<open>Nothing is local between two scopes.\<close>

lemma sim_exit_evicts: "e_exit sim_ops (e, m) = (ev, e', m') \<Longrightarrow> v_res sim_view e' h = None"
  by (auto simp: sim_ops_def sim_evict_all_def sim_in_def)

section \<open>A process over it\<close>

definition sim_boot :: sim where
  "sim_boot = \<lparr>sim_next = 0, sim_frames = (\<lambda>_. None), sim_dirty = (\<lambda>_. False), sim_store = (\<lambda>_ _. 0), sim_idx = (\<lambda>_. 0),
               sim_brk = 0x100000\<rparr>"

definition no_loop :: carm_loop where
  "no_loop = \<lparr>cl_obj_index = 0, cl_static_prefetch = 0, cl_active = False, cl_carm_ptr = False,
              cl_step_value_constant = False, cl_carm_start_addr = 0, cl_stack_addr = 0,
              cl_start_obj_index = 0, cl_start_obj_offset = 0, cl_region_addr = 0, cl_stride = 0\<rparr>"

definition sim_start :: "memory \<Rightarrow> sim rt" where
  "sim_start m =
     \<lparr>mem = m, env = sim_boot, obj_state = (\<lambda>i. FLUSH_CACHE), in_scope = False,
      prev_obj_index = (\<lambda>_. 0), carm_rt = True, aspace_start = START_ADDR,
      aspace_end = START_ADDR + 0x3C0000000, carm_mtx = False, ds_id = 1, obj_size = OBJ_SIZE,
      num_objects = 3932160, total_obj_cnt = 3932160,
      ptrs = (\<lambda>i. if i < 3932160 then Null else Uninit), allocation_map = Map.empty,
      free_list_map = (\<lambda>_. 0), loopstate = (\<lambda>_. no_loop), loop_id_cnt = 0\<rparr>"

lemma sim_start_inv: "rt_inv sim_view (sim_start m)"
  by (simp add: rt_inv_def sim_start_def sim_boot_def sim_ok_def slots_valid_def slots_safe_def coherent_def
      null_absent_def config_defs)

lemma sim_start_accessible: "unat i < 3932160 \<Longrightarrow> accessible sim_view (sim_start m) i"
  by (simp add: accessible_def sim_start_def word_less_unat TOTAL_OBJECTS_def)

lemma sim_start_far:
  assumes "unat a + unat n < 4096 * 1000000"
  shows "far_range sim_view (sim_start m) (CARM_PTR + a) n"
proof -
  have a: "unat a < 2 ^ 60" using assms by simp
  have x: "(CARM_PTR + a) XOR CARM_PTR = a"
    using xor_CARM_sub [OF check_CARM_add [OF a]] by simp
  have "accessible sim_view (sim_start m) (obj_of (CARM_PTR + a + k))" if "k < n" for k
  proof (rule sim_start_accessible)
    have "unat a + unat k < 4096 * 1000000" using assms that by (simp add: word_less_unat)
    moreover from this have "unat ((CARM_PTR + a + k) XOR CARM_PTR) = unat a + unat k"
      using remote_add(3) [OF check_CARM_add [OF a], of k] x by simp
    ultimately have "unat (obj_of (CARM_PTR + a + k)) < 1000000"
      by (simp add: unat_obj_of)
    then show "unat (obj_of (CARM_PTR + a + k)) < 3932160" by simp
  qed
  then show ?thesis using assms check_CARM_add [OF a] x by (simp add: far_range_def)
qed

lemma sim_local:
  assumes "unat p + unat n < 0x200000"
  shows "local_range sim_view p n"
  unfolding local_range_def
proof (intro allI impI conjI)
  fix k assume "k < n"
  then have k: "unat p + unat k < 0x200000" using assms by (simp add: word_less_unat)
  then have u: "unat (p + k) = unat p + unat k" by (intro unat_add_no_wrap) simp
  then show "\<not> check_carm_object (p + k)" using k by (simp add: check_bit not_bit_60)
  have "p + k < SIM_FRAME" using k by (simp add: word_less_unat u SIM_FRAME_def)
  show "\<not> v_heap sim_view (p + k)"
  proof
    assume "v_heap sim_view (p + k)"
    then obtain j where j: "p + k = SIM_FRAME + j" "j < 0x8000" by (auto elim: withinE)
    then have "unat (p + k) = 0x200000 + unat j"
      by (simp add: word_less_unat SIM_FRAME_def OBJ_SIZE_def unat_add_no_wrap)
    with k u show False by simp
  qed
qed

text \<open>The same process with its first thousand objects allocated, none of them local.\<close>

definition sim_far :: "memory \<Rightarrow> (u64 \<Rightarrow> u64 \<Rightarrow> u8) \<Rightarrow> sim rt" where
  "sim_far m st = (sim_start m)
     \<lparr>env := sim_boot\<lparr>sim_next := 1000, sim_store := (\<lambda>h. st (of_nat h)), sim_idx := of_nat\<rparr>,
      ptrs := (\<lambda>i. if i < 1000 then Obj (unat i) else ptrs (sim_start m) i)\<rparr>"

lemma sim_far_inv: "rt_inv sim_view (sim_far m st)"
proof -
  have "slots_valid sim_view (sim_far m st)"
    by (auto simp: slots_valid_def sim_far_def sim_start_def word_less_unat split: if_splits)
  moreover have "slots_safe sim_view (sim_far m st)"
    by (simp add: slots_safe_def sim_safe sim_far_def sim_boot_def sim_in_def)
  ultimately show ?thesis
    by (simp add: rt_inv_def sim_far_def sim_start_def sim_boot_def sim_ok_def coherent_def
        null_absent_def read_exceptions_def config_defs)
qed

lemma remote_number:
  assumes "unat a + unat k < 2 ^ 60"
  shows "check_carm_object (CARM_PTR + a + k)" "(CARM_PTR + a + k) XOR CARM_PTR = a + k"
    "unat (a + k) = unat a + unat k"
proof -
  have a: "unat a < 2 ^ 60" using assms by simp
  have x: "(CARM_PTR + a) XOR CARM_PTR = a"
    using xor_CARM_sub [OF check_CARM_add [OF a]] by simp
  note r = remote_add [OF check_CARM_add [OF a], of k, unfolded x, OF assms]
  show "check_carm_object (CARM_PTR + a + k)" "(CARM_PTR + a + k) XOR CARM_PTR = a + k"
    by (rule r)+
  show "unat (a + k) = unat a + unat k" using r(2,3) by simp
qed

lemma sim_far_view:
  assumes "unat a + unat n \<le> 4096 * 1000" "k < n"
  shows "view sim_view (sim_far m st) (CARM_PTR + a + k) =
           Some (st ((a + k) div 4096) ((a + k) mod 4096))"
proof -
  have "unat a + unat k < 4096 * 1000" using assms by (simp add: word_less_unat)
  then have r: "unat a + unat k < 2 ^ 60" by simp
  note rn = remote_number [OF r]
  have "unat ((a + k) div 4096) < 1000"
    using \<open>unat a + unat k < 4096 * 1000\<close> by (simp add: rn(3))
  then have "(a + k) div 4096 < 1000" "(a + k) div 4096 < TOTAL_OBJECTS"
    by (simp_all add: word_less_unat TOTAL_OBJECTS_def)
  then show ?thesis
    by (simp add: view_def rn(1,2) obj_byte_def sim_far_def sim_cont sim_in_def OBJ_SIZE_def sim_boot_def
        del: unat_div_4096)
qed

lemma sim_far_range:
  assumes "unat a + unat n \<le> 4096 * 1000"
  shows "far_range sim_view (sim_far m st) (CARM_PTR + a) n"
proof -
  have a: "unat a < 2 ^ 60" using assms by simp
  have x: "(CARM_PTR + a) XOR CARM_PTR = a"
    using xor_CARM_sub [OF check_CARM_add [OF a]] by simp
  have "accessible sim_view (sim_far m st) (obj_of (CARM_PTR + a + k))" if "k < n" for k
    using sim_far_view [OF assms that, of m st] remote_number(1,2) [of a k] assms that
    by (auto simp: view_def obj_byte_def accessible_def obj_of_def word_less_unat
        split: slot.splits if_splits)
  then show ?thesis using assms check_CARM_add [OF a] x by (simp add: far_range_def)
qed

end
