(* ===== verification/Fast_Path.thy ===== *)
theory Fast_Path
  imports Sim_Env
begin

text \<open>
  \<open>_ptrDeref\<close> of \<open>src/libc_support.cpp\<close>: the inlined fast path, which takes the local
  address from the object state table when no exception bit is set and calls the
  dereference operation otherwise. It meets the same contract as the operations
  themselves. Then what writing and reading through the address means.
\<close>

section \<open>The inlined dereference\<close>

text \<open>The first argument of the source, the pointer, is not used there and left out.\<close>

definition ptr_exceptions :: "carm_ptr \<Rightarrow> u64" where
  "ptr_exceptions cp =
     (let exceptions = kHotClear OR kPresentClear OR kEvacuationSet
      in if cp_mut cp \<noteq> 0 then exceptions OR kDirtyClear else exceptions)"

definition ptrDeref :: "'e env_ops \<Rightarrow> carm_ptr \<Rightarrow> 'e rt \<Rightarrow> (u64 \<times> 'e rt) run" where
  "ptrDeref E cp s =
     (if cp_obj_index cp < TOTAL_OBJECTS
      then let metadata = obj_state s (cp_obj_index cp)
           in if metadata AND ptr_exceptions cp \<noteq> 0
              then bindR (if cp_mut cp \<noteq> 0 then carm_deref_write E (cp_obj_index cp) s
                          else carm_deref_read E (cp_obj_index cp) s)
                     (\<lambda>(addr, s). Done (addr + cp_offset cp, s))
              else Done (drop_bit kObjectDataAddrBitPos metadata + cp_offset cp, s)
      else Faulted)"

lemma exceptions_read: "x AND ptr_exceptions cp = 0 \<Longrightarrow> x AND read_exceptions = 0"
proof -
  assume "x AND ptr_exceptions cp = 0"
  moreover have "ptr_exceptions cp AND read_exceptions = read_exceptions"
    by (simp add: ptr_exceptions_def read_exceptions_def config_defs)
  ultimately show ?thesis by (metis and.assoc bit.conj_zero_left)
qed

lemma exceptions_dirty: "x AND ptr_exceptions cp = 0 \<Longrightarrow> cp_mut cp \<noteq> 0 \<Longrightarrow> x AND kDirtyClear = 0"
proof -
  assume "x AND ptr_exceptions cp = 0" "cp_mut cp \<noteq> 0"
  moreover from this have "ptr_exceptions cp AND kDirtyClear = kDirtyClear"
    by (simp add: ptr_exceptions_def config_defs)
  ultimately show ?thesis by (metis and.assoc bit.conj_zero_left)
qed

lemma fast_resident:
  assumes "rt_inv V s" "accessible V s i" "obj_state s i AND read_exceptions = 0"
  shows "resident V s i (drop_bit kObjectDataAddrBitPos (obj_state s i))"
proof (cases "ptrs s i")
  case (Obj h)
  with assms show ?thesis
    by (simp add: rt_inv_def coherent_def slots_valid_def accessible_def resident_def)
next
  case Null
  with assms(1,2) have "obj_state s i AND kPresentClear \<noteq> 0"
    by (simp add: rt_inv_def null_absent_def accessible_def)
  with present_exception [OF assms(3)] show ?thesis by simp
qed (use assms(2) in \<open>simp add: accessible_def\<close>)

lemma fast_marked:
  assumes "rt_inv V s" "accessible V s i" "obj_state s i AND read_exceptions = 0" "obj_state s i AND kDirtyClear = 0"
  shows "marked V s i"
proof -
  obtain h where "ptrs s i = Obj h" "v_idx V (env s) h = i" "i < TOTAL_OBJECTS"
    using fast_resident [OF assms(1-3)] by (auto simp: resident_def)
  with assms show ?thesis by (auto simp: marked_def rt_inv_def coherent_def)
qed

lemma ptrDeref_rule:
  assumes "env_laws E V" "rt_inv V s" "accessible V s (cp_obj_index cp)"
  shows "\<exists>A s'. ptrDeref E cp s = Done (A + cp_offset cp, s') \<and> evolves V s s' \<and>
           resident V s' (cp_obj_index cp) A \<and> (cp_mut cp \<noteq> 0 \<longrightarrow> marked V s' (cp_obj_index cp))"
proof (cases "obj_state s (cp_obj_index cp) AND ptr_exceptions cp = 0")
  case True
  have "cp_obj_index cp < TOTAL_OBJECTS" using assms(3) by (simp add: accessible_def)
  with True fast_resident [OF assms(2,3) exceptions_read [OF True]]
    fast_marked [OF assms(2,3) exceptions_read [OF True] exceptions_dirty [OF True]] show ?thesis
    by (auto simp: ptrDeref_def Let_def intro: evolves_refl assms(2))
next
  case slow: False
  have i: "cp_obj_index cp < TOTAL_OBJECTS" using assms(3) by (simp add: accessible_def)
  show ?thesis
  proof (cases "cp_mut cp \<noteq> 0")
    case True
    obtain A s' where "carm_deref_write E (cp_obj_index cp) s = Done (A, s')" "evolves V s s'"
        "resident V s' (cp_obj_index cp) A" "marked V s' (cp_obj_index cp)"
      using sc_write.op_Done [OF assms] by blast
    with i True slow show ?thesis by (simp add: ptrDeref_def Let_def)
  next
    case mut: False
    obtain A s' where "carm_deref_read E (cp_obj_index cp) s = Done (A, s')" "evolves V s s'"
        "resident V s' (cp_obj_index cp) A"
      using sc_read.op_Done [OF assms] by blast
    with i mut slow show ?thesis by (simp add: ptrDeref_def Let_def)
  qed
qed

text \<open>The pointer record of one object, at offset 0.\<close>

definition obj_start :: "u64 \<Rightarrow> u64 \<Rightarrow> carm_ptr" where
  "obj_start mt i = \<lparr>cp_addr = i * OBJ_SIZE, cp_offset = 0, cp_obj_index = i, cp_mut = mt,
                     cp_is_carmptr = True\<rparr>"

interpretation fast: deref_service E V "\<lambda>i. ptrDeref E (obj_start mt i)" "mt \<noteq> 0" for E V mt
proof unfold_locales
  fix s i assume "env_laws E V" "rt_inv V s" "accessible V s i"
  then show "\<exists>A s'. ptrDeref E (obj_start mt i) s = Done (A, s') \<and> evolves V s s' \<and>
      resident V s' i A \<and> (mt \<noteq> 0 \<longrightarrow> marked V s' i)"
    using ptrDeref_rule [of E V s "obj_start mt i"] by (simp add: obj_start_def)
qed

section \<open>Where an iteration stands\<close>

text \<open>The pointer record of an iteration describes the remote address \<open>p\<close>.\<close>

definition at_ptr :: "carm_ptr \<Rightarrow> ptr \<Rightarrow> bool" where
  "at_ptr cp p \<longleftrightarrow> cp_obj_index cp = obj_of p \<and> cp_offset cp = off_of p"

definition next_obj :: "carm_ptr \<Rightarrow> carm_ptr" where
  "next_obj cp = cp\<lparr>cp_obj_index := cp_obj_index cp + 1, cp_offset := 0\<rparr>"

lemma at_get: "check_carm_object p \<Longrightarrow> at_ptr (get_carm_ptr p mt) p"
  by (simp add: at_ptr_def get_carm_ptr_def obj_of_def off_of_def Let_def)

lemma get_mut [simp]: "check_carm_object p \<Longrightarrow> cp_mut (get_carm_ptr p mt) = mt" "cp_mut (next_obj cp) = cp_mut cp"
  by (simp_all add: get_carm_ptr_def next_obj_def Let_def)

lemma get_is_carmptr [simp]: "cp_is_carmptr (get_carm_ptr p mt) = check_carm_object p"
  by (simp add: get_carm_ptr_def Let_def)

text \<open>The bytes left in the object.\<close>

definition room :: "ptr \<Rightarrow> u64" where
  "room p = OBJ_SIZE - off_of p"

lemma unat_room: "unat (room p) = 4096 - unat (off_of p)"
  using off_of_less [of p] unfolding room_def
  by (subst unat_sub_le) (simp_all add: OBJ_SIZE_def)

lemma unat_room_bounds: "0 < unat (room p)" "unat (room p) \<le> 4096"
  using unat_off_of_lt [of p] by (simp_all add: unat_room)

lemma at_next:
  assumes "at_ptr cp p" "check_carm_object p"
    and "unat (p XOR CARM_PTR) + unat (room p) < 2 ^ 60"
  shows "at_ptr (next_obj cp) (p + room p)"
  using next_object [OF assms(2,3)] assms(1) unat_off_of_lt [of p]
  by (simp add: at_ptr_def next_obj_def unat_room)

section \<open>Reading through the address\<close>

lemma view_accessible:
  "check_carm_object p \<Longrightarrow> view V s p \<noteq> None \<Longrightarrow> accessible V s (obj_of p)"
  by (auto simp: view_def obj_byte_def accessible_def obj_of_def split: slot.splits if_splits)

lemma resident_read:
  assumes res: "resident V s (obj_of p) A" and c: "check_carm_object p"
    and b: "unat (p XOR CARM_PTR) + unat k < 2 ^ 60" and k: "k < room p"
  shows "view V s (p + k) = Some (mem s (A + off_of p + k))"
proof -
  have "unat (off_of p) + unat k < 4096"
    using k unat_off_of_lt [of p] by (simp add: word_less_unat unat_room)
  note o = same_object [OF c b this]
  have "view V s (p + k) = obj_byte V s (obj_of p) (off_of p + k)"
    using o remote_add(1) [OF c b] by (simp add: view_def obj_of_def off_of_def)
  also have "\<dots> = Some (mem s (A + off_of p + k))"
    using res by (auto simp: obj_byte_def resident_def cont_def add.assoc)
  finally show ?thesis .
qed

section \<open>Writing through the address\<close>

text \<open>
  From \<open>s\<close> to \<open>s'\<close> the program's memory gets \<open>f k\<close> at \<open>d + k\<close> for \<open>k < n\<close> and keeps
  every other byte; \<open>rt_inv\<close> of \<open>s'\<close> says that no later eviction loses any of it.
\<close>

definition writes ::
    "'e env_view \<Rightarrow> 'e rt \<Rightarrow> 'e rt \<Rightarrow> ptr \<Rightarrow> u64 \<Rightarrow> (u64 \<Rightarrow> u8) \<Rightarrow> bool" where
  "writes V s s' d n f \<longleftrightarrow> rt_inv V s' \<and> same_book s s' \<and>
     (\<forall>i. accessible V s i \<longrightarrow> accessible V s' i) \<and>
     (\<forall>k<n. view V s' (d + k) = Some (f k)) \<and>
     (\<forall>p b. \<not> within d n p \<and> view V s p = Some b \<longrightarrow> view V s' p = Some b)"

lemma writes_evolves: "writes V s s' d 0 f \<Longrightarrow> evolves V s s'"
  by (force simp: writes_def evolves_def map_le_def dom_def)

lemma evolves_writes_0: "evolves V s s' \<Longrightarrow> writes V s s' d 0 f"
  by (auto simp: writes_def evolves_inv evolves_book evolves_accessible intro: evolves_view)

lemma writes_inv: "writes V s s' d n f \<Longrightarrow> rt_inv V s'"
  by (simp add: writes_def)

lemma writes_far_range: "far_range V s q n' \<Longrightarrow> writes V s s' d n f \<Longrightarrow> far_range V s' q n'"
  by (auto simp: far_range_def writes_def)

lemma evolves_writes:
  assumes "evolves V s t" "writes V t u d n f"
  shows "writes V s u d n f"
  using assms evolves_view [OF assms(1)] evolves_accessible [OF assms(1)]
    evolves_book [OF assms(1)]
  by (auto simp: writes_def intro: same_book_trans)

lemma writes_cong:
  "writes V s s' d n f \<Longrightarrow> (\<And>k. k < n \<Longrightarrow> f k = g k) \<Longrightarrow> writes V s s' d n g"
  by (auto simp: writes_def)

lemma writes_append:
  assumes w1: "writes V s t d c f" and w2: "writes V t u (d + c) (n - c) (\<lambda>k. f (c + k))"
    and c: "c \<le> n"
  shows "writes V s u d n f"
proof -
  have "view V u (d + k) = Some (f k)" if k: "k < n" for k
  proof (cases "k < c")
    case True
    have "\<not> within (d + c) (n - c) (d + k)"
    proof
      assume "within (d + c) (n - c) (d + k)"
      then obtain j where j: "d + k = d + c + j" "j < n - c" by (rule withinE)
      then have "k = c + j" by (simp add: add.assoc)
      with word_less_diff(2) [OF c j(2)] True show False by (simp add: word_less_unat)
    qed
    with True w1 w2 show ?thesis by (simp add: writes_def)
  next
    case False
    then have "k - c < n - c"
      using k c by (simp add: word_less_unat word_le_unat unat_sub_le)
    moreover have "\<forall>j<n - c. view V u (d + c + j) = Some (f (c + j))"
      using w2 by (simp add: writes_def)
    ultimately have "view V u (d + c + (k - c)) = Some (f (c + (k - c)))" by blast
    then show ?thesis by simp
  qed
  moreover have "view V u p = Some b" if "\<not> within d n p" "view V s p = Some b" for p b
  proof -
    have "\<not> within d c p" "\<not> within (d + c) (n - c) p"
      using that(1) within_split [OF c, of d p] by auto
    with that w1 w2 show ?thesis by (simp add: writes_def)
  qed
  ultimately show ?thesis
    using w1 w2 by (auto simp: writes_def intro: same_book_trans)
qed

text \<open>A remote address and its object and offset determine each other.\<close>

lemma within_off:
  assumes "check_carm_object p" "check_carm_object d" "obj_of p = obj_of d"
  shows "within d n p \<longleftrightarrow> within (off_of d) n (off_of p)"
proof -
  have eq: "q XOR CARM_PTR = obj_of q * OBJ_SIZE + off_of q" for q
    by (simp only: obj_of_def off_of_def div_mult_mod_eq)
  have "p - d = (p XOR CARM_PTR) - (d XOR CARM_PTR)"
    using assms(1,2) by (simp add: xor_CARM_sub)
  also have "\<dots> = off_of p - off_of d" by (simp add: eq assms(3))
  finally show ?thesis by (simp add: within_def)
qed

lemma write_view_other:
  assumes laws: "frames_law V" and inv: "rt_inv V s" and res: "resident V s i A"
    and m: "\<And>q. \<not> within A OBJ_SIZE q \<Longrightarrow> m q = mem s q"
    and "j \<noteq> i" and k: "k < OBJ_SIZE"
  shows "obj_byte V (s\<lparr>mem := m\<rparr>) j k = obj_byte V s j k"
proof (cases "ptrs s j")
  case (Obj h)
  show ?thesis
  proof (cases "j < TOTAL_OBJECTS \<and> v_idx V (env s) h = j")
    case own: True
    from res obtain g where g: "v_valid V (env s) g" "v_idx V (env s) g = i"
        "v_res V (env s) g = Some A"
      by (auto simp: resident_def)
    have "cont V (env s) m h k = cont V (env s) (mem s) h k"
    proof (cases "v_res V (env s) h")
      case (Some B)
      have "v_valid V (env s) h" using inv Obj by (simp add: rt_inv_def slots_valid_def)
      moreover have "h \<noteq> g" using g own \<open>j \<noteq> i\<close> by auto
      moreover have "within B OBJ_SIZE (B + k)" using k by (rule withinI)
      ultimately have "\<not> within A OBJ_SIZE (B + k)"
        using laws g Some rt_inv_ok [OF inv] unfolding frames_law_def by metis
      with Some m show ?thesis by (simp add: cont_def)
    qed (simp add: cont_def)
    with Obj own show ?thesis by (simp add: obj_byte_def)
  next
    case False
    with Obj show ?thesis by (auto simp: obj_byte_def)
  qed
qed (simp_all add: obj_byte_def)

lemma write_view_same:
  "resident V s i A \<Longrightarrow> obj_byte V (s\<lparr>mem := m\<rparr>) i k = Some (m (A + k))"
  by (auto simp: obj_byte_def resident_def cont_def)

text \<open>Only a marked object may be changed: the change of another is lost when it is evicted.\<close>

lemma frame_safe:
  assumes laws: "frames_law V" and inv: "rt_inv V s" and res: "resident V s i A" and mk: "marked V s i"
    and m: "\<And>q. \<not> within A OBJ_SIZE q \<Longrightarrow> m q = mem s q"
  shows "slots_safe V (s\<lparr>mem := m\<rparr>)"
  unfolding slots_safe_def
proof (intro allI impI)
  fix j h assume "ptrs (s\<lparr>mem := m\<rparr>) j = Obj h"
  then have h: "ptrs s j = Obj h" by simp
  then have v: "v_valid V (env s) h" "safe V (env s) (mem s) h"
    using inv by (simp_all add: rt_inv_def slots_valid_def slots_safe_def)
  obtain g where g: "ptrs s i = Obj g" "v_valid V (env s) g" "v_res V (env s) g = Some A" "v_dirty V (env s) g"
    using res mk by (auto simp: resident_def marked_def)
  show "safe V (env (s\<lparr>mem := m\<rparr>)) (mem (s\<lparr>mem := m\<rparr>)) h"
  proof (cases "h = g")
    case False
    have "cont V (env s) m h k = cont V (env s) (mem s) h k" if "k < OBJ_SIZE" for k
    proof (cases "v_res V (env s) h")
      case (Some B)
      have "\<not> within A OBJ_SIZE (B + k)"
        using laws rt_inv_ok [OF inv] g(2,3) v(1) Some False withinI [OF that, of B]
        unfolding frames_law_def by metis
      with Some m show ?thesis by (simp add: cont_def)
    qed (simp add: cont_def)
    with v(2) show ?thesis by (simp add: safe_def)
  qed (use g(4) in \<open>simp add: safe_def\<close>)
qed

lemma resident_writes:
  assumes laws: "env_laws E V" and inv: "rt_inv V s" and c: "check_carm_object d"
    and res: "resident V s (obj_of d) A" and mk: "marked V s (obj_of d)" and n: "n \<le> room d"
    and b: "unat (d XOR CARM_PTR) + unat n \<le> 2 ^ 60"
    and out: "\<And>q. \<not> within (A + off_of d) n q \<Longrightarrow> m q = mem s q"
    and inn: "\<And>k. k < n \<Longrightarrow> m (A + off_of d + k) = f k"
  shows "writes V s (s\<lparr>mem := m\<rparr>) d n f"
proof -
  let ?t = "s\<lparr>mem := m\<rparr>"
  have fr: "frames_law V" using laws by (simp add: env_laws_def)
  have offn: "unat (off_of d) + unat n \<le> 4096"
    using n unat_off_of_lt [of d] by (simp add: word_le_unat unat_room)
  have frame: "within A OBJ_SIZE q" if "within (A + off_of d) n q" for q
  proof -
    from that obtain j where j: "q = A + off_of d + j" "j < n" by (rule withinE)
    then have "unat (off_of d + j) = unat (off_of d) + unat j"
      using offn by (intro unat_add_no_wrap) (simp add: word_less_unat)
    then have "off_of d + j < OBJ_SIZE"
      using offn j(2) by (simp add: word_less_unat OBJ_SIZE_def)
    with j(1) show ?thesis by (simp add: within_def add.assoc)
  qed
  have keep: "\<not> within A OBJ_SIZE q \<Longrightarrow> m q = mem s q" for q using frame out by blast
  have pos: "view V ?t (d + k) = Some (f k)" if k: "k < n" for k
  proof -
    have kb: "unat (d XOR CARM_PTR) + unat k < 2 ^ 60" "k < room d"
      using k b n by (simp_all add: word_less_unat word_le_unat)
    have "resident V ?t (obj_of d) A" using res by (simp add: resident_def)
    from resident_read [OF this c kb] inn [OF k] show ?thesis by simp
  qed
  have neg: "view V ?t p = Some v" if p: "\<not> within d n p" "view V s p = Some v" for p v
  proof (cases "check_carm_object p")
    case True
    have vw: "view V u p = obj_byte V u (obj_of p) (off_of p)" for u
      using True by (simp add: view_def obj_of_def off_of_def)
    show ?thesis
    proof (cases "obj_of p = obj_of d")
      case same: True
      have "\<not> within (off_of d) n (off_of p)" using p(1) within_off [OF True c same] by simp
      then have "\<not> within (A + off_of d) n (A + off_of p)" by (simp add: within_def)
      from out [OF this] write_view_same [OF res, of m] write_view_same [OF res, of "mem s"]
      show ?thesis using p(2) by (simp add: vw same)
    next
      case False
      from write_view_other [OF fr inv res keep False off_of_less] p(2) vw show ?thesis by simp
    qed
  next
    case False
    with p(2) have h: "\<not> v_heap V p" by (auto simp: view_def split: if_splits)
    from res obtain g where "v_valid V (env s) g" "v_res V (env s) g = Some A"
      by (auto simp: resident_def)
    with fr rt_inv_ok [OF inv] h have "\<not> within A OBJ_SIZE p" unfolding frames_law_def by blast
    with keep p(2) False h show ?thesis by (simp add: view_def)
  qed
  have "rt_inv V ?t" by (rule rt_inv_mem [OF inv frame_safe [OF fr inv res mk keep]])
  moreover have "accessible V ?t i = accessible V s i" for i by (rule accessible_cong) simp_all
  moreover have "same_book s ?t" by (simp add: same_book_def)
  ultimately show ?thesis using pos neg by (simp add: writes_def)
qed

text \<open>Writing local memory.\<close>

lemma local_writes:
  assumes inv: "rt_inv V s" and loc: "local_range V d n"
    and heap: "frames_law V"
    and out: "\<And>q. \<not> within d n q \<Longrightarrow> m q = mem s q"
    and inn: "\<And>k. k < n \<Longrightarrow> m (d + k) = f k"
  shows "writes V s (s\<lparr>mem := m\<rparr>) d n f"
proof -
  let ?t = "s\<lparr>mem := m\<rparr>"
  have nheap: "\<not> v_heap V q" if "within d n q" for q
    using that loc by (auto simp: local_range_def elim!: withinE)
  have ct: "cont V (env s) m h k = cont V (env s) (mem s) h k"
    if "v_valid V (env s) h" "k < OBJ_SIZE" for h k
  proof (cases "v_res V (env s) h")
    case (Some A)
    have "v_heap V (A + k)"
      using heap rt_inv_ok [OF inv] that Some withinI [OF that(2)] unfolding frames_law_def by blast
    then have "\<not> within d n (A + k)" using nheap by blast
    with out Some show ?thesis by (simp add: cont_def)
  qed (simp add: cont_def)
  have "safe V (env s) m h" if "v_valid V (env s) h" "safe V (env s) (mem s) h" for h
    using that ct by (simp add: safe_def)
  then have "slots_safe V ?t" using inv by (simp add: rt_inv_def slots_valid_def slots_safe_def)
  then have inv': "rt_inv V ?t" by (rule rt_inv_mem [OF inv])
  from ct have ob: "obj_byte V ?t i k = obj_byte V s i k" if "k < OBJ_SIZE" for i k
    using inv that by (auto simp: obj_byte_def rt_inv_def slots_valid_def split: slot.split)
  have "view V ?t p = view V s p" if "\<not> within d n p" for p
    using that out by (simp add: view_def ob mod_OBJ_SIZE_less)
  moreover have "view V ?t (d + k) = Some (f k)" if "k < n" for k
    using that loc inn by (simp add: view_def local_range_def)
  moreover note inv'
  moreover have "accessible V ?t i = accessible V s i" for i by (rule accessible_cong) simp_all
  ultimately show ?thesis by (simp add: writes_def same_book_def)
qed

section \<open>Bookkeeping\<close>

text \<open>No dereference touches the tables of the allocator and of the loops.\<close>

lemma scope_book: "same_book s (carm_deref E s)"
  by (simp add: carm_deref_def acquire_def release_def Let_def same_book_def split: prod.split)

lemma fetch_book: "fetch_object E i s = Done (h, t) \<Longrightarrow> same_book s t"
  by (auto simp: fetch_object_def allocate_object_def Let_def same_book_def
      split: if_splits slot.splits prod.splits)

lemma deref_object_book: "deref_object E nt mt i (h, s) = (md, t) \<Longrightarrow> same_book s t"
  by (auto simp: deref_object_def Let_def same_book_def split: prod.splits)

lemma trace_book: "carm_add_prefetch_trace E i nt pf s = Done t \<Longrightarrow> same_book s t"
  by (auto simp: carm_add_prefetch_trace_def same_book_def split: if_splits)

lemma core_book:
  assumes "bindR (fetch_object E i s) (\<lambda>hs. case deref_object E nt mt i hs of (md, s) \<Rightarrow>
      bindR (T s) (\<lambda>s. Done (drop_bit kObjectDataAddrBitPos md, s))) = Done (a, t)"
    and T: "\<And>u v. T u = Done v \<Longrightarrow> same_book u v"
  shows "same_book s t"
proof -
  obtain h u where f: "fetch_object E i s = Done (h, u)"
    using assms(1) by (auto simp: bindR_Done_iff)
  obtain md v where d: "deref_object E nt mt i (h, u) = (md, v)"
    by (cases "deref_object E nt mt i (h, u)")
  have "T v = Done t" using assms(1) by (simp add: f d bindR_Done_iff)
  with fetch_book [OF f] deref_object_book [OF d] T show ?thesis by (blast intro: same_book_trans)
qed

lemma deref_rw_book:
  "carm_deref_read E i s = Done (a, t) \<Longrightarrow> same_book s t"
  "carm_deref_write E i s = Done (a, t) \<Longrightarrow> same_book s t"
  unfolding carm_deref_read_def carm_deref_write_def carmDeref_read_def carmDeref_write_def
  by (rule same_book_trans [OF scope_book core_book], assumption, erule trace_book)+

lemma deref_sp_book:
  "carm_deref_read_sp E i pf s = Done (a, t) \<Longrightarrow> same_book s t"
  "carm_deref_write_sp E i pf s = Done (a, t) \<Longrightarrow> same_book s t"
  unfolding carm_deref_read_sp_def carm_deref_write_sp_def carmDeref_read_sp_def
    carmDeref_write_sp_def
  by (rule same_book_trans [OF scope_book core_book], assumption, erule trace_book)+

lemma ptrDeref_book: "ptrDeref E cp s = Done (a, t) \<Longrightarrow> same_book s t"
  by (auto simp: ptrDeref_def Let_def bindR_Done_iff split: if_splits prod.splits dest: deref_rw_book)

section \<open>What the dereference guarantees\<close>

text \<open>
  C1: the address \<open>_ptrDeref\<close> returns, whether from the table or from a dereference, holds
  the byte the program last stored at the pointer, and the call keeps the coherence invariant
  and the program's memory; a pointer taken for writing has AIFM mark its object as modified.
\<close>

theorem ptrDeref_current:
  assumes "env_laws E V" "rt_inv V s" "check_carm_object p" "view V s p = Some b"
    and "unat (p XOR CARM_PTR) < 2 ^ 60"
  shows "\<exists>a s'. ptrDeref E (get_carm_ptr p mt) s = Done (a, s') \<and> mem s' a = b \<and> rt_inv V s' \<and>
    view V s \<subseteq>\<^sub>m view V s' \<and> (mt \<noteq> 0 \<longrightarrow> marked V s' (obj_of p))"
proof -
  have at: "at_ptr (get_carm_ptr p mt) p" by (rule at_get [OF assms(3)])
  have "accessible V s (obj_of p)"
    by (rule view_accessible [OF assms(3)]) (simp add: assms(4))
  with at obtain A s' where run: "ptrDeref E (get_carm_ptr p mt) s = Done (A + off_of p, s')"
      "evolves V s s'" "resident V s' (obj_of p) A" "mt \<noteq> 0 \<longrightarrow> marked V s' (obj_of p)"
    using ptrDeref_rule [OF assms(1,2), of "get_carm_ptr p mt"] assms(3) by (auto simp: at_ptr_def)
  have "view V s' (p + 0) = Some (mem s' (A + off_of p + 0))"
    using unat_room_bounds(1) [of p] assms(5)
    by (intro resident_read [OF run(3) assms(3)]) (simp_all add: word_less_unat)
  moreover have "view V s' p = Some b" by (rule evolves_view [OF run(2) assms(4)])
  ultimately show ?thesis using run by (auto simp: evolves_def)
qed

theorem ptrDeref_current_witness:
  "\<exists>a s'. ptrDeref sim_ops (get_carm_ptr (CARM_PTR + 0x5007) 1) (sim_far (\<lambda>_. 0) (\<lambda>i k. ucast (i + k))) =
      Done (a, s') \<and> mem s' a = 12 \<and> rt_inv sim_view s' \<and>
    view sim_view (sim_far (\<lambda>_. 0) (\<lambda>i k. ucast (i + k))) \<subseteq>\<^sub>m view sim_view s' \<and>
    (1 \<noteq> (0 :: u64) \<longrightarrow> marked sim_view s' (obj_of (CARM_PTR + 0x5007)))"
proof (rule ptrDeref_current [OF sim_env_laws sim_far_inv])
  show "view sim_view (sim_far (\<lambda>_. 0) (\<lambda>i k. ucast (i + k))) (CARM_PTR + 0x5007) = Some 12"
    using sim_far_view [of "0x5007" 1 0] by simp
qed (simp_all add: check_carm_object_def CARM_PTR_def)

text \<open>
  C2: each of the six dereference operations, in its fresh scope, returns on every object that
  may be dereferenced, makes the object local at the returned address, and keeps coherence
  and the program's memory; those for writing have AIFM mark the object as modified.
\<close>

theorem carm_deref_ops:
  assumes "env_laws E V" "rt_inv V s" "accessible V s i" "pf \<le> MAX_LOOPS"
    and "op \<in> {carm_deref_read E, carm_deref_write E, carm_deref_read_not_temporal E,
      carm_deref_write_not_temporal E, \<lambda>i. carm_deref_read_sp E i pf, \<lambda>i. carm_deref_write_sp E i pf}"
  shows "\<exists>A s'. op i s = Done (A, s') \<and> rt_inv V s' \<and> view V s \<subseteq>\<^sub>m view V s' \<and> resident V s' i A \<and>
    (op \<in> {carm_deref_write E, carm_deref_write_not_temporal E, \<lambda>i. carm_deref_write_sp E i pf} \<longrightarrow> marked V s' i)"
proof -
  let ?W = "{carm_deref_write E, carm_deref_write_not_temporal E, \<lambda>i. carm_deref_write_sp E i pf}"
  have b: "slot_bound pf = pf" using assms(4) by (simp add: slot_bound_def)
  have "\<exists>A s'. op i s = Done (A, s') \<and> evolves V s s' \<and> resident V s' i A \<and>
      (op \<in> ?W \<longrightarrow> marked V s' i)"
  proof (cases "op \<in> ?W")
    case True
    then show ?thesis
      using sc_write.op_spec [OF assms(1-3)] sc_write_nt.op_spec [OF assms(1-3)]
        sc_write_sp.op_spec [OF assms(1-3), of pf, unfolded b] by auto
  next
    case False
    with assms(5) have "op \<in> {carm_deref_read E, carm_deref_read_not_temporal E, \<lambda>i. carm_deref_read_sp E i pf}" by auto
    then have "\<exists>A s'. op i s = Done (A, s') \<and> evolves V s s' \<and> resident V s' i A"
      using sc_read.op_spec [OF assms(1-3)] sc_read_nt.op_spec [OF assms(1-3)]
        sc_read_sp.op_spec [OF assms(1-3), of pf, unfolded b] by auto
    with False show ?thesis by simp
  qed
  then show ?thesis by (auto simp: evolves_def)
qed

theorem carm_deref_ops_witness:
  "\<exists>A s'. carm_deref_write_not_temporal sim_ops 7 (sim_start (\<lambda>_. 0)) = Done (A, s') \<and>
     rt_inv sim_view s' \<and> view sim_view (sim_start (\<lambda>_. 0)) \<subseteq>\<^sub>m view sim_view s' \<and>
     resident sim_view s' 7 A \<and> (carm_deref_write_not_temporal sim_ops \<in> {carm_deref_write sim_ops,
       carm_deref_write_not_temporal sim_ops, \<lambda>i. carm_deref_write_sp sim_ops i 0} \<longrightarrow> marked sim_view s' 7)"
  by (rule carm_deref_ops [OF sim_env_laws sim_start_inv, where pf = 0])
    (simp_all add: sim_start_accessible)

text \<open>
  C3: switching the dereference scope, which is when AIFM may evict objects and the callback
  updates the state table, keeps the table coherent and the program's memory.
\<close>

theorem scope_switch_coherent:
  assumes "env_laws E V" "rt_inv V s"
  shows "rt_inv V (carm_deref E s) \<and> view V s \<subseteq>\<^sub>m view V (carm_deref E s)"
  using carm_deref_evolves [OF assms] by (simp add: evolves_def)

theorem scope_switch_coherent_witness:
  "rt_inv sim_view (carm_deref sim_ops (sim_far (\<lambda>_. 0) (\<lambda>i k. 1))) \<and>
   view sim_view (sim_far (\<lambda>_. 0) (\<lambda>i k. 1)) \<subseteq>\<^sub>m
     view sim_view (carm_deref sim_ops (sim_far (\<lambda>_. 0) (\<lambda>i k. 1)))"
  by (rule scope_switch_coherent [OF sim_env_laws sim_far_inv])

text \<open>
  \<open>get_carm_ptr\<close> takes a remote pointer apart without loss: object index and offset give
  the pointer back, and the offset lies in the object.
\<close>

lemma get_carm_ptr_roundtrip:
  assumes "check_carm_object p"
  shows "CARM_PTR + cp_obj_index (get_carm_ptr p mt) * OBJ_SIZE + cp_offset (get_carm_ptr p mt) = p \<and>
    cp_offset (get_carm_ptr p mt) < OBJ_SIZE \<and> cp_mut (get_carm_ptr p mt) = mt"
proof -
  have "(p XOR CARM_PTR) div OBJ_SIZE * OBJ_SIZE + (p XOR CARM_PTR) mod OBJ_SIZE = p XOR CARM_PTR"
    by (rule div_mult_mod_eq)
  moreover have "CARM_PTR + (p XOR CARM_PTR) = p" using xor_CARM_sub [OF assms] by simp
  ultimately show ?thesis
    using assms by (simp add: get_carm_ptr_def Let_def mod_OBJ_SIZE_less add.assoc)
qed

theorem get_carm_ptr_roundtrip_witness:
  "CARM_PTR + cp_obj_index (get_carm_ptr 0x1000000000012345 1) * OBJ_SIZE +
     cp_offset (get_carm_ptr 0x1000000000012345 1) = 0x1000000000012345 \<and>
   cp_offset (get_carm_ptr 0x1000000000012345 1) < OBJ_SIZE \<and>
   cp_mut (get_carm_ptr 0x1000000000012345 1) = 1"
  by (rule get_carm_ptr_roundtrip) (simp add: check_carm_object_def CARM_PTR_def)

end
