(* ===== verification/Chunk_Walk.thy ===== *)
theory Chunk_Walk
  imports Fast_Path
begin

text \<open>
  The walk over a remote range that the copying functions of \<open>src/libc_support.cpp\<close> share:
  dereference the current object, do the bytes up to its end, go to the next one. The
  counter is 32 bits wide. The locale \<open>chunk_writer\<close> is the contract of a loop that writes
  one byte per byte walked; its theorem says that the loop returns and writes the range.
\<close>

section \<open>Arithmetic of one iteration\<close>

text \<open>\<open>OBJ_SIZE - offset\<close>, kept in a 32-bit variable.\<close>

definition chunk :: "carm_ptr \<Rightarrow> u32" where
  "chunk cp = ucast (OBJ_SIZE - cp_offset cp)"

text \<open>The longest range whose walk does not wrap the counter.\<close>

definition MAX_WALK :: u64 where "MAX_WALK = 0xfffff000"

lemma chunk_at: "at_ptr cp p \<Longrightarrow> chunk cp = ucast (room p)"
  by (simp add: chunk_def at_ptr_def room_def)

lemma unat_ucast_room: "unat (ucast (room p) :: u32) = unat (room p)"
proof -
  have "unat (ucast (room p) :: u32) = unat (room p) mod 2 ^ 32"
    by (simp add: unsigned_ucast_eq take_bit_eq_mod)
  then show ?thesis using unat_room_bounds(2) [of p] by simp
qed

lemma chunk_room:
  assumes "at_ptr cp p"
  shows "(ucast (chunk cp) :: u64) = room p" "(scast (chunk cp) :: u64) = room p" "chunk cp \<noteq> 0"
proof -
  have u: "unat (chunk cp) = unat (room p)" by (simp add: chunk_at [OF assms] unat_ucast_room)
  then show e: "(ucast (chunk cp) :: u64) = room p" by (simp add: word_unat_eq_iff)
  have "unat (chunk cp) < 2 ^ 31" using u unat_room_bounds(2) [of p] by simp
  from scast_small [OF this] e show "(scast (chunk cp) :: u64) = room p" by simp
  show "chunk cp \<noteq> 0" using u unat_room_bounds(1) [of p] by auto
qed

text \<open>One step of the counter.\<close>

lemma counter_by:
  assumes ch: "(ucast (ch :: u32) :: u64) = c" "unat c \<le> 4096"
    and bt: "(ucast bt :: u64) < sz" and sz: "sz \<le> MAX_WALK"
  shows "(ucast (bt + ch) :: u64) = ucast bt + c"
    and "ucast (bt + ch) < sz \<longleftrightarrow> c < sz - ucast bt"
    and "c < sz - ucast bt \<Longrightarrow> unat (sz - (ucast bt + c)) = unat (sz - ucast bt) - unat c"
    and "unat (ucast bt :: u64) + unat c < 2 ^ 64"
proof -
  have uc: "unat ch = unat c" using ch(1) by (metis unat_ucast_32_64)
  have b: "unat bt < unat sz" and s: "unat sz \<le> 4294963200"
    using bt sz by (simp_all add: word_nat MAX_WALK_def)
  have sum: "unat (bt + ch) = unat bt + unat c"
    using b s uc ch(2) by (subst unat_add_no_wrap) simp_all
  have sum64: "unat (ucast bt + c) = unat bt + unat c"
    using b s ch(2) by (subst unat_add_no_wrap) simp_all
  show e: "(ucast (bt + ch) :: u64) = ucast bt + c"
    by (simp only: word_unat_eq_iff unat_ucast_32_64 sum sum64)
  have d: "unat (sz - ucast bt) = unat sz - unat bt"
    using bt by (subst unat_sub_le) simp_all
  show c: "ucast (bt + ch) < sz \<longleftrightarrow> c < sz - ucast bt"
    unfolding e word_less_unat sum64 d by (simp add: less_diff_conv add.commute)
  show "unat (sz - (ucast bt + c)) = unat (sz - ucast bt) - unat c" if "c < sz - ucast bt"
  proof -
    have "ucast bt + c \<le> sz" using that c e by simp
    then show ?thesis by (simp add: unat_sub_le sum64 d)
  qed
  show "unat (ucast bt :: u64) + unat c < 2 ^ 64" using b s ch(2) by simp
qed

lemmas counter_step = counter_by [OF chunk_room(1) unat_room_bounds(2)]

text \<open>The fuel left after a whole object, counting from the object's start.\<close>

lemma fuel_step:
  assumes "unat n + unat (off_of p) < Suc f * 4096" "room p < n"
    and "unat n' = unat n - unat (room p)" "off_of p' = 0"
  shows "unat n' + unat (off_of p') < f * 4096"
  using assms unat_off_of_lt [of p] by (simp add: word_less_unat unat_room)

definition enough_fuel :: "u64 \<Rightarrow> nat" where
  "enough_fuel n = unat n div 4096 + 3"

lemma enough_fuel_bound: "unat n + unat (off_of p) < (enough_fuel n - 1) * 4096"
  using unat_off_of_lt [of p] by (simp add: enough_fuel_def algebra_simps)

section \<open>Loops that write\<close>

locale chunk_writer =
  fixes E :: "'e env_ops" and V :: "'e env_view"
    and loop :: "nat \<Rightarrow> carm_ptr \<Rightarrow> u32 \<Rightarrow> 'e rt \<Rightarrow> 'e rt run"
    and put :: "u64 \<Rightarrow> u64 \<Rightarrow> u64 \<Rightarrow> 'e rt \<Rightarrow> 'e rt"
    and walk tgt sz mt :: u64
    and pre :: "'e rt \<Rightarrow> bool" and val :: "'e rt \<Rightarrow> u64 \<Rightarrow> u8"
  assumes stop: "\<not> ucast bt < sz \<Longrightarrow> loop (Suc f) cp bt s = Done s"
    and more: "ucast bt < sz \<Longrightarrow> at_ptr cp p \<Longrightarrow> ptrDeref E cp s = Done (a, t) \<Longrightarrow>
      ucast (bt + chunk cp) < sz \<Longrightarrow>
      loop (Suc f) cp bt s = loop f (next_obj cp) (bt + chunk cp) (put a (ucast bt) (room p) t)"
    and last_one: "ucast bt < sz \<Longrightarrow> at_ptr cp p \<Longrightarrow> ptrDeref E cp s = Done (a, t) \<Longrightarrow>
      \<not> ucast (bt + chunk cp) < sz \<Longrightarrow> sz \<le> MAX_WALK \<Longrightarrow>
      loop (Suc (Suc f)) cp bt s = Done (put a (ucast bt) (sz - ucast bt) t)"
    and pre_world: "pre s \<Longrightarrow> env_laws E V \<and> rt_inv V s \<and> far_range V s walk sz"
    and pre_evolves: "pre s \<Longrightarrow> evolves V s t \<Longrightarrow> pre t \<and> (\<forall>k< sz. val t k = val s k)"
    and pre_writes: "pre s \<Longrightarrow> writes V s t (tgt + j) n g \<Longrightarrow> j + n \<le> sz \<Longrightarrow> j \<le> j + n \<Longrightarrow>
      pre t \<and> (\<forall>k< sz. k < j \<or> j + n \<le> k \<longrightarrow> val t k = val s k)"
    and put_writes: "pre s \<Longrightarrow> resident V s (obj_of (walk + j)) A \<Longrightarrow>
      (mt \<noteq> 0 \<Longrightarrow> marked V s (obj_of (walk + j))) \<Longrightarrow> j < sz \<Longrightarrow>
      n \<le> sz - j \<Longrightarrow> n \<le> room (walk + j) \<Longrightarrow>
      writes V s (put (A + off_of (walk + j)) j n s) (tgt + j) n (\<lambda>k. val s (j + k))"
begin

lemma deref_step:
  assumes "pre s" "at_ptr cp (walk + j)" "cp_mut cp = mt" "j < sz"
  obtains A t where "ptrDeref E cp s = Done (A + off_of (walk + j), t)" "pre t"
    "evolves V s t" "resident V t (obj_of (walk + j)) A" "\<forall>k< sz. val t k = val s k"
    "mt \<noteq> 0 \<Longrightarrow> marked V t (obj_of (walk + j))"
proof -
  have "accessible V s (obj_of (walk + j))"
    using pre_world [OF assms(1)] assms(4) by (blast intro: far_range_check)
  with ptrDeref_rule [of E V s cp] pre_world [OF assms(1)] assms(2,3) obtain A t where
    "ptrDeref E cp s = Done (A + off_of (walk + j), t)" "evolves V s t"
    "resident V t (obj_of (walk + j)) A" "mt \<noteq> 0 \<longrightarrow> marked V t (obj_of (walk + j))"
    by (auto simp: at_ptr_def)
  with pre_evolves [OF assms(1)] that show thesis by blast
qed

text \<open>A piece and what the loop writes after it make up the rest of the range.\<close>

lemma piece_joins:
  assumes "pre t" and c: "c < sz - j" "j + c < sz" "j \<le> j + c"
    and w: "writes V t u (tgt + j) c (\<lambda>k. val t (j + k))"
    and w': "writes V u s' (tgt + (j + c)) (sz - (j + c)) (\<lambda>k. val u (j + c + k))"
  shows "writes V t s' (tgt + j) (sz - j) (\<lambda>k. val t (j + k))"
proof -
  have vu: "\<forall>k< sz. k < j \<or> j + c \<le> k \<longrightarrow> val u k = val t k"
    using pre_writes [OF assms(1) w less_imp_le [OF c(2)] c(3)] by blast
  have tail: "val u (j + c + k) = val t (j + c + k)" if k: "k < sz - (j + c)" for k
  proof -
    note wd = word_less_diff [OF less_imp_le [OF c(2)] k]
    have "j + c \<le> j + c + k" by (simp only: word_le_unat wd(2))
    with wd(1) vu show ?thesis by blast
  qed
  have "writes V u s' (tgt + j + c) (sz - j - c) (\<lambda>k. val t (j + (c + k)))"
    using writes_cong [OF w' tail] by (simp add: algebra_simps)
  from writes_append [OF w this less_imp_le [OF c(1)]] show ?thesis .
qed

text \<open>The loop returns and writes what is left of the range.\<close>

theorem loop_writes:
  assumes "pre s" "ucast bt \<le> sz" "sz \<le> MAX_WALK"
    and "ucast bt < sz \<Longrightarrow> at_ptr cp (walk + ucast bt)" "cp_mut cp = mt"
    and "unat (sz - ucast bt) + unat (off_of (walk + ucast bt)) < f * 4096"
  shows "\<exists>s'. loop (Suc f) cp bt s = Done s' \<and>
    writes V s s' (tgt + ucast bt) (sz - ucast bt) (\<lambda>k. val s (ucast bt + k))"
  using assms
proof (induction f arbitrary: s cp bt)
  case (Suc f)
  let ?j = "ucast bt :: u64" and ?p = "walk + ucast bt"
  show ?case
  proof (cases "?j < sz")
    case False
    then have "?j = sz" using Suc.prems(2) by simp
    with stop [OF False] pre_world [OF Suc.prems(1)] show ?thesis
      by (auto intro: evolves_writes_0 evolves_refl)
  next
    case j: True
    note at = Suc.prems(4) [OF j]
    obtain A t where d: "ptrDeref E cp s = Done (A + off_of ?p, t)" "pre t" "evolves V s t"
        "resident V t (obj_of ?p) A" "\<forall>k< sz. val t k = val s k" "mt \<noteq> 0 \<Longrightarrow> marked V t (obj_of ?p)"
      using deref_step [OF Suc.prems(1) at Suc.prems(5) j] by blast
    have vals: "val t (?j + k) = val s (?j + k)" if "k < sz - ?j" for k
      using d(5) word_less_diff(1) [OF _ that] j by simp
    note cs = counter_step [OF at j Suc.prems(3)]
    show ?thesis
    proof (cases "ucast (bt + chunk cp) < sz")
      case False
      then have "sz - ?j \<le> room ?p" using cs(2) by simp
      from writes_cong [OF put_writes [OF d(2,4,6) j order_refl this] vals]
      have "writes V s (put (A + off_of ?p) ?j (sz - ?j) t) (tgt + ?j) (sz - ?j)
          (\<lambda>k. val s (?j + k))"
        by (rule evolves_writes [OF d(3)])
      with last_one [OF j at d(1) False Suc.prems(3)] show ?thesis by auto
    next
      case True
      let ?c = "room ?p" and ?n = "sz - ?j"
      let ?u = "put (A + off_of ?p) ?j ?c t" and ?k = "?j + ?c"
      have c: "?c < ?n" using True cs(2) by simp
      have w: "writes V t ?u (tgt + ?j) ?c (\<lambda>k. val t (?j + k))"
        using put_writes [OF d(2,4,6) j _ order_refl] c by simp
      have kn: "?k < sz" using True cs(1) by simp
      have jk: "?j \<le> ?k" using cs(4) by (simp add: word_le_unat unat_add_no_wrap)
      from pre_writes [OF d(2) w less_imp_le [OF kn] jk] have pu: "pre ?u" by blast
      have fr: "check_carm_object ?p" "unat (?p XOR CARM_PTR) + unat ?c < 2 ^ 60"
        using far_range_tail [of V t walk sz ?j] pre_world [OF d(2)] j c
        by (auto simp: far_range_def word_less_unat)
      have at': "at_ptr (next_obj cp) (walk + ?k)"
        using at_next [OF at fr] by (simp add: add.assoc)
      have "off_of (walk + ?k) = 0"
        using next_object(2) [OF fr] unat_off_of_lt [of ?p] by (simp add: unat_room add.assoc)
      with fuel_step [OF Suc.prems(6) c cs(3) [OF c]]
      have fuel: "unat (sz - ?k) + unat (off_of (walk + ?k)) < f * 4096" by blast
      have "\<exists>s'. loop (Suc f) (next_obj cp) (bt + chunk cp) ?u = Done s' \<and>
          writes V ?u s' (tgt + ?k) (sz - ?k) (\<lambda>k. val ?u (?k + k))"
        using Suc.IH [OF pu, of "bt + chunk cp" "next_obj cp"] kn Suc.prems(3,5) at' fuel
        by (simp add: cs(1))
      then obtain s' where run: "loop (Suc f) (next_obj cp) (bt + chunk cp) ?u = Done s'"
        and w': "writes V ?u s' (tgt + ?k) (sz - ?k) (\<lambda>k. val ?u (?k + k))" by blast
      from piece_joins [OF d(2) c kn jk w w']
      have "writes V t s' (tgt + ?j) ?n (\<lambda>k. val t (?j + k))" .
      with d(3) vals have "writes V s s' (tgt + ?j) ?n (\<lambda>k. val s (?j + k))"
        by (blast intro: evolves_writes writes_cong)
      with run more [OF j at d(1) True] show ?thesis by auto
    qed
  qed
qed simp

text \<open>From the first byte, with fuel for every object of the range.\<close>

corollary loop_all:
  assumes "pre s" "sz \<le> MAX_WALK" "at_ptr cp walk" "cp_mut cp = mt"
  shows "\<exists>s'. loop (enough_fuel sz) cp 0 s = Done s' \<and> writes V s s' tgt sz (val s)"
proof -
  have "enough_fuel sz = Suc (enough_fuel sz - 1)" by (simp add: enough_fuel_def)
  with loop_writes [of s 0 cp "enough_fuel sz - 1"] assms enough_fuel_bound [of sz walk]
  show ?thesis by simp
qed

end

end
