(* ===== verification/Libc_Copy.thy ===== *)
theory Libc_Copy
  imports Chunk_Walk
begin

text \<open>
  \<open>carm_memcpy\<close>, \<open>carm_wmemcpy\<close> and \<open>carm_memset\<close> of \<open>src/libc_support.cpp\<close>. Fuel counts
  loop iterations; \<open>enough_fuel\<close> covers a range of its length. The byte counters are
  \<open>unsigned int\<close>, as in the source.
\<close>

section \<open>Sizes\<close>

definition valid_size :: "u32 \<Rightarrow> bool" where
  "valid_size sz = (sz \<noteq> 0)"

definition enforce_size_constraints :: "u64 \<Rightarrow> u64" where
  "enforce_size_constraints sz =
     (if sz < CARM_ALLOC_SIZE_MULTIPLE then CARM_ALLOC_SIZE_MULTIPLE
      else let rem = sz mod CARM_ALLOC_SIZE_MULTIPLE
           in if rem \<noteq> 0 then (sz - rem) + CARM_ALLOC_SIZE_MULTIPLE else sz)"

section \<open>\<open>memcpy\<close>\<close>

text \<open>\<open>_carm_memcpy_dst_carm_ptr\<close>\<close>

fun memcpy_dst_loop ::
    "nat \<Rightarrow> 'e env_ops \<Rightarrow> ptr \<Rightarrow> u64 \<Rightarrow> carm_ptr \<Rightarrow> u32 \<Rightarrow> 'e rt \<Rightarrow> 'e rt run" where
  "memcpy_dst_loop 0 E src sz cp bytes_transfered s = OutOfFuel"
| "memcpy_dst_loop (Suc f) E src sz cp bytes_transfered s =
     (if ucast bytes_transfered < sz
      then bindR (ptrDeref E cp s) (\<lambda>(d, s).
        let q = src + ucast bytes_transfered; chunk_size = chunk cp
        in if ucast (bytes_transfered + chunk_size) < sz
           then memcpy_dst_loop f E src sz (next_obj cp) (bytes_transfered + chunk_size)
                  (s\<lparr>mem := c_memmove (mem s) d q (scast chunk_size)\<rparr>)
           else Done (s\<lparr>mem := c_memmove (mem s) d q (sz - ucast bytes_transfered)\<rparr>))
      else Done s)"

text \<open>\<open>_carm_memcpy_src_carm_ptr\<close>\<close>

fun memcpy_src_loop ::
    "nat \<Rightarrow> 'e env_ops \<Rightarrow> ptr \<Rightarrow> u64 \<Rightarrow> carm_ptr \<Rightarrow> u32 \<Rightarrow> 'e rt \<Rightarrow> 'e rt run" where
  "memcpy_src_loop 0 E dst sz cp bytes_transfered s = OutOfFuel"
| "memcpy_src_loop (Suc f) E dst sz cp bytes_transfered s =
     (if ucast bytes_transfered < sz
      then bindR (ptrDeref E cp s) (\<lambda>(q, s).
        let d = dst + ucast bytes_transfered; chunk_size = chunk cp
        in if ucast (bytes_transfered + chunk_size) < sz
           then memcpy_src_loop f E dst sz (next_obj cp) (bytes_transfered + chunk_size)
                  (s\<lparr>mem := c_memmove (mem s) d q (scast chunk_size)\<rparr>)
           else Done (s\<lparr>mem := c_memmove (mem s) d q (sz - ucast bytes_transfered)\<rparr>))
      else Done s)"

text \<open>
  Both sides remote. The local address of the destination is taken before the source is
  dereferenced. \<open>std::min\<close> compares as \<open>int\<close>.
\<close>

definition min_int :: "u32 \<Rightarrow> u32 \<Rightarrow> u32" where
  "min_int a b = (if word_sless b a then b else a)"

fun memcpy_both_loop ::
    "nat \<Rightarrow> 'e env_ops \<Rightarrow> ptr \<Rightarrow> ptr \<Rightarrow> u64 \<Rightarrow> carm_ptr \<Rightarrow> carm_ptr \<Rightarrow> u32 \<Rightarrow> 'e rt \<Rightarrow> 'e rt run"
  where
  "memcpy_both_loop 0 E dst src sz cd cs bytes_transfered s = OutOfFuel"
| "memcpy_both_loop (Suc f) E dst src sz cd cs bytes_transfered s =
     (if ucast bytes_transfered < sz
      then bindR (ptrDeref E cd s) (\<lambda>(d, s). bindR (ptrDeref E cs s) (\<lambda>(q, s).
        let chunk_size = min_int (chunk cd) (chunk cs)
        in if \<not> valid_size chunk_size then Exited
           else if ucast (bytes_transfered + chunk_size) < sz
           then memcpy_both_loop f E dst src sz
                  (get_carm_ptr (dst + ucast (bytes_transfered + chunk_size)) 1)
                  (get_carm_ptr (src + ucast (bytes_transfered + chunk_size)) 0)
                  (bytes_transfered + chunk_size)
                  (s\<lparr>mem := c_memmove (mem s) d q (scast chunk_size)\<rparr>)
           else Done (s\<lparr>mem := c_memmove (mem s) d q (sz - ucast bytes_transfered)\<rparr>)))
      else Done s)"

definition carm_memcpy ::
    "nat \<Rightarrow> 'e env_ops \<Rightarrow> ptr \<Rightarrow> ptr \<Rightarrow> u64 \<Rightarrow> 'e rt \<Rightarrow> (ptr \<times> 'e rt) run" where
  "carm_memcpy f E dst src sz s =
     (let cd = get_carm_ptr dst 1; cs = get_carm_ptr src 0
      in if \<not> cp_is_carmptr cd \<and> \<not> cp_is_carmptr cs
         then Done (dst, s\<lparr>mem := c_memmove (mem s) dst src sz\<rparr>)
         else if cp_is_carmptr cd \<and> \<not> cp_is_carmptr cs
         then bindR (memcpy_dst_loop f E src sz cd 0 s) (\<lambda>s. Done (dst, s))
         else if \<not> cp_is_carmptr cd \<and> cp_is_carmptr cs
         then bindR (memcpy_src_loop f E dst sz cs 0 s) (\<lambda>s. Done (dst, s))
         else bindR (memcpy_both_loop f E dst src sz cd cs 0 s) (\<lambda>s. Done (dst, s)))"

definition carm_wmemcpy ::
    "nat \<Rightarrow> 'e env_ops \<Rightarrow> ptr \<Rightarrow> ptr \<Rightarrow> u64 \<Rightarrow> 'e rt \<Rightarrow> (ptr \<times> 'e rt) run" where
  "carm_wmemcpy f E dst src sz s = Exited"

section \<open>\<open>memset\<close>\<close>

fun memset_loop ::
    "nat \<Rightarrow> 'e env_ops \<Rightarrow> u32 \<Rightarrow> u64 \<Rightarrow> carm_ptr \<Rightarrow> u32 \<Rightarrow> 'e rt \<Rightarrow> 'e rt run" where
  "memset_loop 0 E c sz cp bytes_set s = OutOfFuel"
| "memset_loop (Suc f) E c sz cp bytes_set s =
     (if ucast bytes_set < sz
      then bindR (ptrDeref E cp s) (\<lambda>(d, s).
        let chunk_size = chunk cp
        in if \<not> valid_size chunk_size then Exited
           else memset_loop f E c sz (next_obj cp) (bytes_set + chunk_size)
                  (s\<lparr>mem := c_memset (mem s) d (ucast c)
                     (if ucast (bytes_set + chunk_size) < sz then scast chunk_size
                      else sz - ucast bytes_set)\<rparr>))
      else Done s)"

definition carm_memset ::
    "nat \<Rightarrow> 'e env_ops \<Rightarrow> ptr \<Rightarrow> u32 \<Rightarrow> u64 \<Rightarrow> 'e rt \<Rightarrow> (ptr \<times> 'e rt) run" where
  "carm_memset f E dst c sz s =
     (let cd = get_carm_ptr dst 1
      in if \<not> cp_is_carmptr cd
         then Done (dst, s\<lparr>mem := c_memset (mem s) dst (ucast c) sz\<rparr>)
         else bindR (memset_loop f E c sz cd 0 s) (\<lambda>s. Done (dst, s)))"

section \<open>Local and remote ranges are disjoint\<close>

lemma far_not_local:
  assumes "far_range V s d sz" "j + n \<le> sz" "j \<le> j + n" "\<not> check_carm_object p"
  shows "\<not> within (d + j) n p"
proof
  assume "within (d + j) n p"
  then obtain i where i: "p = d + j + i" "i < n" by (rule withinE)
  have "n = (j + n) - j" by simp
  with word_less_diff(1) [OF assms(3), of i] i(2) have "j + i < j + n" by simp
  with assms(2) have "j + i < sz" by simp
  from far_range_check(1) [OF assms(1) this] i(1) assms(4) show False by (simp add: add.assoc)
qed

lemma local_not_far:
  assumes "local_range V d sz" "j + n \<le> sz" "j \<le> j + n" "check_carm_object p"
  shows "\<not> within (d + j) n p"
proof
  assume "within (d + j) n p"
  then obtain i where i: "p = d + j + i" "i < n" by (rule withinE)
  have "n = (j + n) - j" by simp
  with word_less_diff(1) [OF assms(3), of i] i(2) have "j + i < j + n" by simp
  with assms(2) have "j + i < sz" by simp
  with assms(1,4) i(1) show False by (simp add: local_range_def add.assoc)
qed

lemma local_range_sub:
  assumes "local_range V d sz" "j < sz" "n \<le> sz - j"
  shows "local_range V (d + j) n"
  using local_range_tail [OF assms(1,2)] assms(3) by (auto simp: local_range_def)

text \<open>The piece of a far range up to the end of an object.\<close>

lemma far_piece:
  assumes "far_range V s d sz" "j < sz" "n \<le> sz - j"
  shows "check_carm_object (d + j)" "unat ((d + j) XOR CARM_PTR) + unat n \<le> 2 ^ 60"
  using far_range_tail [OF assms(1,2)] assms(3) by (auto simp: far_range_def word_le_unat)

section \<open>Remote destination\<close>

definition dst_pre ::
    "'e env_ops \<Rightarrow> 'e env_view \<Rightarrow> ptr \<Rightarrow> ptr \<Rightarrow> u64 \<Rightarrow> 'e rt \<Rightarrow> bool" where
  "dst_pre E V dst src n s \<longleftrightarrow> env_laws E V \<and> rt_inv V s \<and> far_range V s dst n \<and>
     local_range V src n"

text \<open>One chunk of the walk lies in the range and in one object.\<close>

lemma piece_writes:
  assumes "env_laws E V" "rt_inv V s" "far_range V s d sz" "resident V s (obj_of (d + j)) A"
    "marked V s (obj_of (d + j))" and "j < sz" "n \<le> sz - j" "n \<le> room (d + j)"
    and "\<And>q. \<not> within (A + off_of (d + j)) n q \<Longrightarrow> m q = mem s q"
    and "\<And>k. k < n \<Longrightarrow> m (A + off_of (d + j) + k) = f k"
  shows "writes V s (s\<lparr>mem := m\<rparr>) (d + j) n f"
  using far_piece [OF assms(3,6,7)] assms(9,10)
  by (intro resident_writes [OF assms(1,2) _ assms(4,5,8)]) blast+

lemma writes_local_keeps:
  assumes "writes V s t (d + j) n g" "far_range V s d sz" "j + n \<le> sz" "j \<le> j + n"
    and "local_range V p n'" "k < n'"
  shows "mem t (p + k) = mem s (p + k)"
proof -
  have "\<not> check_carm_object (p + k)" using assms(5,6) by (simp add: local_range_def)
  from far_not_local [OF assms(2,3,4) this] assms(1) local_view [OF assms(5,6), of s]
    local_view [OF assms(5,6), of t]
  show ?thesis by (simp add: writes_def)
qed

interpretation cp_dst: chunk_writer E V "\<lambda>f cp bt s. memcpy_dst_loop f E src sz cp bt s"
  "\<lambda>a j n s. s\<lparr>mem := c_memmove (mem s) a (src + j) n\<rparr>" dst dst sz 1
  "dst_pre E V dst src sz" "\<lambda>s k. mem s (src + k)" for E V dst src sz
proof (unfold_locales, goal_cases)
  case 5
  then show ?case
    by (auto simp: dst_pre_def evolves_inv local_evolves intro: far_range_evolves)
next
  case 6
  then show ?case
    by (auto simp: dst_pre_def writes_inv writes_far_range intro: writes_local_keeps)
next
  case 7
  then show ?case
    by (intro piece_writes) (auto simp: dst_pre_def c_memmove_in c_memmove_out simp flip: add.assoc)
qed (simp_all add: chunk_room dst_pre_def)

section \<open>Remote source\<close>

definition src_pre ::
    "'e env_ops \<Rightarrow> 'e env_view \<Rightarrow> ptr \<Rightarrow> ptr \<Rightarrow> u64 \<Rightarrow> 'e rt \<Rightarrow> bool" where
  "src_pre E V dst src n s \<longleftrightarrow> env_laws E V \<and> rt_inv V s \<and> far_range V s src n \<and>
     local_range V dst n \<and> (\<forall>k<n. view V s (src + k) \<noteq> None)"

lemma writes_far_keeps:
  assumes "writes V s t (d + j) n g" "local_range V d sz" "j + n \<le> sz" "j \<le> j + n"
    and "check_carm_object p" "view V s p \<noteq> None"
  shows "view V t p = view V s p"
  using local_not_far [OF assms(2-5)] assms(1,6) by (auto simp: writes_def)

interpretation cp_src: chunk_writer E V "\<lambda>f cp bt s. memcpy_src_loop f E dst sz cp bt s"
  "\<lambda>a j n s. s\<lparr>mem := c_memmove (mem s) (dst + j) a n\<rparr>" src dst sz 0
  "src_pre E V dst src sz" "\<lambda>s k. the (view V s (src + k))" for E V dst src sz
proof (unfold_locales, goal_cases)
  case (5 s t)
  have "view V t (src + k) = view V s (src + k)" if "k < sz" for k
    using 5 that evolves_view [of V s t "src + k"] by (auto simp: src_pre_def)
  with 5 show ?case
    by (auto simp: src_pre_def evolves_inv intro: far_range_evolves)
next
  case (6 s t j n g)
  have "view V t (src + k) = view V s (src + k)" if "k < sz" for k
    using 6 that far_range_check(1) [of V s src sz k]
    by (intro writes_far_keeps [of V s t dst j n g sz]) (auto simp: src_pre_def)
  with 6 show ?case
    by (auto simp: src_pre_def writes_inv writes_far_range)
next
  case (7 s j A n)
  have read: "view V s (src + j + k) = Some (mem s (A + off_of (src + j) + k))" if "k < n" for k
    using 7 that far_piece [of V s src sz j n]
    by (intro resident_read) (auto simp: src_pre_def word_less_unat word_le_unat)
  show ?case
    using 7 read
    by (intro local_writes)
      (auto simp: src_pre_def env_laws_def c_memmove_in c_memmove_out
        simp flip: add.assoc intro: local_range_sub)
qed (simp_all add: chunk_room src_pre_def)

section \<open>\<open>memset\<close> of a remote range\<close>

definition set_pre :: "'e env_ops \<Rightarrow> 'e env_view \<Rightarrow> ptr \<Rightarrow> u64 \<Rightarrow> 'e rt \<Rightarrow> bool" where
  "set_pre E V dst n s \<longleftrightarrow> env_laws E V \<and> rt_inv V s \<and> far_range V s dst n"

interpretation ms: chunk_writer E V "\<lambda>f cp bt s. memset_loop f E c sz cp bt s"
  "\<lambda>a j n s. s\<lparr>mem := c_memset (mem s) a (ucast c) n\<rparr>" dst dst sz 1
  "set_pre E V dst sz" "\<lambda>s k. ucast c" for E V dst c sz
proof (unfold_locales, goal_cases)
  case 5
  then show ?case
    by (auto simp: set_pre_def evolves_inv intro: far_range_evolves)
next
  case 6
  then show ?case
    by (auto simp: set_pre_def writes_inv writes_far_range)
next
  case 7
  then show ?case
    by (intro piece_writes) (auto simp: set_pre_def c_memset_in c_memset_out withinI)
qed (simp_all add: chunk_room set_pre_def valid_size_def)

section \<open>Both sides remote\<close>

text \<open>The objects of the range can be taken from the table without a call.\<close>

definition hot :: "u64 \<Rightarrow> 'e rt \<Rightarrow> ptr \<Rightarrow> u64 \<Rightarrow> bool" where
  "hot exc s d n \<longleftrightarrow> (\<forall>k<n. obj_state s (obj_of (d + k)) AND exc = 0)"

definition write_exceptions :: u64 where
  "write_exceptions = read_exceptions OR kDirtyClear"

lemma exceptions_get:
  "check_carm_object p \<Longrightarrow> ptr_exceptions (get_carm_ptr p 1) = write_exceptions"
  "check_carm_object p \<Longrightarrow> ptr_exceptions (get_carm_ptr p 0) = read_exceptions"
  by (simp_all add: ptr_exceptions_def get_carm_ptr_def write_exceptions_def read_exceptions_def
      Let_def)

lemma write_read_exceptions: "x AND write_exceptions = 0 \<Longrightarrow> x AND read_exceptions = 0"
  using exceptions_read [of x "get_carm_ptr CARM_PTR 1"]
  by (simp add: exceptions_get check_bit bit_CARM_PTR)

lemma ptrDeref_hot:
  assumes "rt_inv V s" "accessible V s (obj_of p)" "at_ptr cp p"
    and "obj_state s (obj_of p) AND ptr_exceptions cp = 0"
  shows "\<exists>A. ptrDeref E cp s = Done (A + off_of p, s) \<and> resident V s (obj_of p) A \<and>
    (cp_mut cp \<noteq> 0 \<longrightarrow> marked V s (obj_of p))"
proof -
  have "obj_of p < TOTAL_OBJECTS" using assms(2) by (simp add: accessible_def)
  moreover have "obj_state s (obj_of p) AND read_exceptions = 0"
    using assms(4) by (rule exceptions_read)
  ultimately show ?thesis
    using assms fast_resident [OF assms(1,2)] fast_marked [OF assms(1,2)] exceptions_dirty [of "obj_state s (obj_of p)" cp]
    by (auto simp: ptrDeref_def at_ptr_def Let_def)
qed

lemma min_chunk:
  assumes "at_ptr cd p" "at_ptr cs q"
  shows "(ucast (min_int (chunk cd) (chunk cs)) :: u64) = min (room p) (room q)"
    "(scast (min_int (chunk cd) (chunk cs)) :: u64) = min (room p) (room q)"
    "valid_size (min_int (chunk cd) (chunk cs))"
proof -
  note c = chunk_room [OF assms(1)] chunk_room [OF assms(2)]
  have u: "unat (chunk cd) = unat (room p)" "unat (chunk cs) = unat (room q)"
    using c(1,4) by (metis unat_ucast_32_64)+
  have small: "unat (chunk cd) < 2 ^ 31" "unat (chunk cs) < 2 ^ 31"
    using u unat_room_bounds(2) [of p] unat_room_bounds(2) [of q] by simp_all
  have "word_sless (chunk cs) (chunk cd) \<longleftrightarrow> room q < room p"
    by (simp only: sless_small [OF small(2,1)] word_less_unat u)
  then show "(ucast (min_int (chunk cd) (chunk cs)) :: u64) = min (room p) (room q)"
    "(scast (min_int (chunk cd) (chunk cs)) :: u64) = min (room p) (room q)"
    "valid_size (min_int (chunk cd) (chunk cs))"
    using c by (auto simp: min_int_def valid_size_def min_def)
qed

text \<open>Every iteration reaches the end of an object on one of the two sides.\<close>

definition both_fuel :: "u64 \<Rightarrow> nat" where
  "both_fuel n = 2 * (unat n div 4096) + 4"

lemma both_fuel_bound:
  "(unat n + unat (off_of p)) + (unat n + unat (off_of q)) < both_fuel n * 4096"
proof -
  have "unat n < unat n div 4096 * 4096 + 4096"
    using div_mult_mod_eq [of "unat n" 4096] mod_less_divisor [of 4096 "unat n"] by linarith
  moreover have "both_fuel n * 4096 = 2 * (unat n div 4096 * 4096) + 4 * 4096"
    by (simp add: both_fuel_def)
  ultimately show ?thesis using unat_off_of_lt [of p] unat_off_of_lt [of q] by linarith
qed

lemma end_of_piece:
  assumes "check_carm_object p" "unat (p XOR CARM_PTR) + unat c < 2 ^ 60" "c \<le> room p"
    and "unat n' = unat n - unat c" "c < n"
  shows "unat n' + unat (off_of (p + c)) = unat n + unat (off_of p) \<and> c \<noteq> room p \<or>
         unat n' + unat (off_of (p + c)) + 4096 = unat n + unat (off_of p) \<and> c = room p"
proof (cases "c = room p")
  case True
  have e: "unat (off_of p) + unat c = 4096"
    using unat_off_of_lt [of p] by (simp add: True unat_room)
  from next_object(2) [OF assms(1,2) e] e True assms(4,5) show ?thesis
    by (simp add: word_less_unat)
next
  case False
  then have "unat c < unat (room p)"
    using assms(3) by (metis le_neq_trans word_le_unat word_less_unat word_unat_eq_iff)
  then have e: "unat (off_of p) + unat c < 4096" using unat_off_of_lt [of p] by (simp add: unat_room)
  have "unat (off_of p + c) = unat (off_of p) + unat c"
    using e by (intro unat_add_no_wrap) simp
  with same_object(2) [OF assms(1,2) e] False assms(4,5) show ?thesis
    by (simp add: word_less_unat)
qed

lemma far_piece_within:
  assumes "within (d + j) c p" "j + c \<le> n" "j \<le> j + c"
  shows "within d n p"
proof -
  obtain i where i: "p = d + j + i" "i < c" using assms(1) by (rule withinE)
  have "c = (j + c) - j" by simp
  with word_less_diff(1) [OF assms(3), of i] i(2) have "j + i < j + c" by simp
  with assms(2) have "j + i < n" by simp
  with withinI [OF this, of d] i(1) show ?thesis by (simp add: add.assoc)
qed

text \<open>A hot range can be read in place.\<close>

lemma hot_resident:
  assumes "rt_inv V s" "far_range V s d n" "hot exc s d n" "k < n"
    and "\<And>x. x AND exc = 0 \<Longrightarrow> x AND read_exceptions = 0"
  shows "resident V s (obj_of (d + k)) (drop_bit kObjectDataAddrBitPos (obj_state s (obj_of (d + k))))"
  using assms far_range_check(2) [OF assms(2,4)] by (intro fast_resident) (auto simp: hot_def)

lemma hot_view:
  assumes "rt_inv V s" "far_range V s d n" "hot read_exceptions s d n" "k < n"
  shows "view V s (d + k) \<noteq> None"
proof -
  have "resident V s (obj_of (d + k)) (drop_bit kObjectDataAddrBitPos (obj_state s (obj_of (d + k))))"
    using assms by (rule hot_resident)
  moreover have "unat ((d + k) XOR CARM_PTR) + unat (0 :: u64) < 2 ^ 60"
    using far_range_check(3) [OF assms(2,4)] assms(2) remote_add(3) [of d k]
    by (simp add: far_range_def)
  moreover have "0 < room (d + k)" using unat_room_bounds(1) [of "d + k"] by (simp add: word_less_unat)
  ultimately show ?thesis
    using resident_read [of V s "d + k" _ 0] far_range_check(1) [OF assms(2,4)] by auto
qed

text \<open>One piece of the copy, inside one object on both sides.\<close>

lemma both_piece:
  assumes laws: "env_laws E V" and inv: "rt_inv V s"
    and far: "far_range V s dst n" "far_range V s src n"
    and j: "j < n" "len \<le> n - j" "len \<le> room (dst + j)" "len \<le> room (src + j)"
    and A: "resident V s (obj_of (dst + j)) A" "marked V s (obj_of (dst + j))" and B: "resident V s (obj_of (src + j)) B"
  shows "writes V s (s\<lparr>mem := c_memmove (mem s) (A + off_of (dst + j)) (B + off_of (src + j)) len\<rparr>)
           (dst + j) len (\<lambda>k. the (view V s (src + j + k)))"
proof (rule piece_writes [OF laws inv far(1) A j(1-3)])
  fix k assume k: "k < len"
  have "view V s (src + j + k) = Some (mem s (B + off_of (src + j) + k))"
    using far_piece [OF far(2) j(1,2)] j(4) k
    by (intro resident_read [OF B]) (auto simp: word_less_unat word_le_unat)
  then show "c_memmove (mem s) (A + off_of (dst + j)) (B + off_of (src + j)) len
      (A + off_of (dst + j) + k) = the (view V s (src + j + k))"
    by (simp add: c_memmove_in k)
qed (simp add: c_memmove_out)

lemma both_join:
  assumes inv: "rt_inv V s" and far: "far_range V s src n" and hs: "hot read_exceptions s src n"
    and sep: "\<And>k. k < n \<Longrightarrow> \<not> within dst n (src + k)"
    and c: "c < n - j" "j + c < n" "j \<le> j + c"
    and w: "writes V s u (dst + j) c (\<lambda>k. the (view V s (src + j + k)))"
    and w': "writes V u s' (dst + (j + c)) (n - (j + c)) (\<lambda>k. the (view V u (src + (j + c) + k)))"
  shows "writes V s s' (dst + j) (n - j) (\<lambda>k. the (view V s (src + j + k)))"
proof -
  have tail: "view V u (src + (j + c) + k) = view V s (src + j + (c + k))" if k: "k < n - (j + c)" for k
  proof -
    have kk: "j + c + k < n" using c(2) k by (intro word_less_diff) simp_all
    have "\<not> within (dst + j) c (src + (j + c + k))"
      using sep [OF kk] far_piece_within [OF _ less_imp_le [OF c(2)] c(3)] by blast
    moreover have "view V s (src + (j + c + k)) \<noteq> None" by (rule hot_view [OF inv far hs kk])
    ultimately show ?thesis using w by (auto simp: writes_def algebra_simps)
  qed
  have "writes V u s' (dst + j + c) (n - j - c) (\<lambda>k. the (view V s (src + j + (c + k))))"
    using writes_cong [OF w', of "\<lambda>k. the (view V s (src + j + (c + k)))"] tail
    by (simp add: algebra_simps)
  from writes_append [OF w this less_imp_le [OF c(1)]] show ?thesis by simp
qed

lemma both_loop_hot:
  assumes laws: "env_laws E V" and n: "n \<le> MAX_WALK"
    and sep: "\<And>k. k < n \<Longrightarrow> \<not> within dst n (src + k)"
    and "rt_inv V s" "far_range V s dst n" "far_range V s src n"
    and "hot write_exceptions s dst n" "hot read_exceptions s src n" "ucast bt \<le> n"
    and "(unat (n - ucast bt) + unat (off_of (dst + ucast bt))) +
         (unat (n - ucast bt) + unat (off_of (src + ucast bt))) < f * 4096"
  shows "\<exists>s'. memcpy_both_loop f E dst src n (get_carm_ptr (dst + ucast bt) 1)
           (get_carm_ptr (src + ucast bt) 0) bt s = Done s' \<and>
         writes V s s' (dst + ucast bt) (n - ucast bt) (\<lambda>k. the (view V s (src + ucast bt + k)))"
  using assms(4-)
proof (induction f arbitrary: s bt)
  case (Suc f)
  let ?j = "ucast bt :: u64"
  let ?p = "dst + ?j" and ?q = "src + ?j"
  let ?cd = "get_carm_ptr ?p 1" and ?cs = "get_carm_ptr ?q 0"
  note inv = Suc.prems(1) and far = Suc.prems(2,3) and hd = Suc.prems(4) and hs = Suc.prems(5)
  show ?case
  proof (cases "?j < n")
    case False
    then have "?j = n" using Suc.prems(6) by simp
    with inv show ?thesis by (auto intro: evolves_writes_0 evolves_refl)
  next
    case j: True
    note cp = far_range_check(1,2) [OF far(1) j] and cq = far_range_check(1,2) [OF far(2) j]
    obtain A where A: "ptrDeref E ?cd s = Done (A + off_of ?p, s)" "resident V s (obj_of ?p) A"
        "marked V s (obj_of ?p)"
      using ptrDeref_hot [OF inv cp(2) at_get [OF cp(1)], of 1 E] hd j exceptions_get(1) [OF cp(1)] cp(1)
      by (auto simp: hot_def)
    obtain B where B: "ptrDeref E ?cs s = Done (B + off_of ?q, s)" "resident V s (obj_of ?q) B"
      using ptrDeref_hot [OF inv cq(2) at_get [OF cq(1)]] hs j exceptions_get(2) [OF cq(1)]
      unfolding hot_def by metis
    let ?ch = "min_int (chunk ?cd) (chunk ?cs)" and ?c = "min (room ?p) (room ?q)"
    note mc = min_chunk [OF at_get [OF cp(1), of 1] at_get [OF cq(1), of 0]]
    have "unat ?c \<le> 4096" using unat_room_bounds(2) by (simp add: min_def)
    note cs = counter_by [OF mc(1) this j n]
    let ?t = "\<lambda>len. s\<lparr>mem := c_memmove (mem s) (A + off_of ?p) (B + off_of ?q) len\<rparr>"
    note piece = both_piece [OF laws inv far j _ _ _ A(2,3) B(2)]
    show ?thesis
    proof (cases "ucast (bt + ?ch) < n")
      case False
      then have "n - ?j \<le> ?c" using cs(2) by (simp only: not_less)
      then have "n - ?j \<le> room ?p" "n - ?j \<le> room ?q" by (simp_all only: min.bounded_iff)
      then have "writes V s (?t (n - ?j)) ?p (n - ?j) (\<lambda>k. the (view V s (?q + k)))"
        by (intro piece) simp_all
      with False j A(1) B(1) mc(3) show ?thesis by (simp add: Let_def)
    next
      case True
      let ?u = "?t ?c" and ?k = "?j + ?c"
      have c: "?c < n - ?j" using True cs(2) by simp
      have w: "writes V s ?u ?p ?c (\<lambda>k. the (view V s (?q + k)))"
        by (intro piece) (use c in simp_all)
      have kn: "?k < n" using True cs(1) by simp
      have jk: "?j \<le> ?k" using cs(4) by (simp add: word_le_unat unat_add_no_wrap)
      note step = cs(3) [OF c]
      have "unat (?p XOR CARM_PTR) + unat ?c < 2 ^ 60" "unat (?q XOR CARM_PTR) + unat ?c < 2 ^ 60"
        using far_piece(2) [OF far(1) j order_refl] far_piece(2) [OF far(2) j order_refl] c
        by (auto simp only: word_less_unat)
      note ep = end_of_piece [OF cp(1) this(1) min.cobounded1 step c]
        and eq = end_of_piece [OF cq(1) this(2) min.cobounded2 step c]
      have fuel: "(unat (n - ?k) + unat (off_of (dst + ?k))) +
          (unat (n - ?k) + unat (off_of (src + ?k))) < f * 4096"
        using ep eq Suc.prems(7) by (auto simp: add.assoc min_def split: if_splits)
      have "hot write_exceptions ?u dst n" "hot read_exceptions ?u src n"
        using hd hs by (simp_all add: hot_def)
      from Suc.IH [OF writes_inv [OF w] writes_far_range [OF far(1) w]
          writes_far_range [OF far(2) w] this, of "bt + ?ch", unfolded cs(1),
          OF less_imp_le [OF kn] fuel]
      obtain s' where run: "memcpy_both_loop f E dst src n (get_carm_ptr (dst + ?k) 1)
            (get_carm_ptr (src + ?k) 0) (bt + ?ch) ?u = Done s'"
        and w': "writes V ?u s' (dst + ?k) (n - ?k) (\<lambda>k. the (view V ?u (src + ?k + k)))"
        by blast
      from both_join [OF inv far(2) hs sep c kn jk w w'] run True j A(1) B(1) mc(2,3) cs(1)
      show ?thesis by (simp add: Let_def)
    qed
  qed
qed simp

section \<open>What the functions do\<close>

text \<open>
  C7: copying a local buffer into remote memory returns and writes exactly the source bytes
  to the destination range, whatever the cache evicts on the way, and leaves them where no later
  eviction loses them.
\<close>

theorem carm_memcpy_to_remote:
  assumes "env_laws E V" "rt_inv V s" "far_range V s dst n" "local_range V src n"
    and "\<not> check_carm_object src" "n \<le> MAX_WALK"
  shows "\<exists>s'. carm_memcpy (enough_fuel n) E dst src n s = Done (dst, s') \<and>
           writes V s s' dst n (\<lambda>k. mem s (src + k))"
proof -
  have c: "check_carm_object dst" using assms(3) by (simp add: far_range_def)
  have "dst_pre E V dst src n s" using assms by (simp add: dst_pre_def)
  from cp_dst.loop_all [OF this assms(6) at_get [OF c, of 1] get_mut(1) [OF c]] assms(5) c show ?thesis
    by (auto simp: carm_memcpy_def)
qed

theorem carm_memcpy_to_remote_witness:
  "\<exists>s'. carm_memcpy (enough_fuel 5000) sim_ops (CARM_PTR + 4090) 0x1000 5000
          (sim_start (\<lambda>p. ucast p)) = Done (CARM_PTR + 4090, s') \<and>
        writes sim_view (sim_start (\<lambda>p. ucast p)) s' (CARM_PTR + 4090) 5000
          (\<lambda>k. mem (sim_start (\<lambda>p. ucast p)) (0x1000 + k))"
  by (rule carm_memcpy_to_remote [OF sim_env_laws sim_start_inv])
    (simp_all add: sim_start_far sim_local check_bit not_bit_60 MAX_WALK_def)

text \<open>
  C8: copying remote memory into a local buffer returns and delivers the bytes the program
  last stored there, across object boundaries, whether the objects are local or not.
\<close>

theorem carm_memcpy_from_remote:
  assumes "env_laws E V" "rt_inv V s" "far_range V s src n" "local_range V dst n"
    and "\<not> check_carm_object dst" "n \<le> MAX_WALK" "\<forall>k<n. view V s (src + k) \<noteq> None"
  shows "\<exists>s'. carm_memcpy (enough_fuel n) E dst src n s = Done (dst, s') \<and>
           writes V s s' dst n (\<lambda>k. the (view V s (src + k)))"
proof -
  have c: "check_carm_object src" using assms(3) by (simp add: far_range_def)
  have "src_pre E V dst src n s" using assms by (simp add: src_pre_def)
  from cp_src.loop_all [OF this assms(6) at_get [OF c, of 0] get_mut(1) [OF c]] assms(5) c show ?thesis
    by (auto simp: carm_memcpy_def)
qed

theorem carm_memcpy_from_remote_witness:
  "\<exists>s'. carm_memcpy (enough_fuel 300) sim_ops 0x1000 (CARM_PTR + 4000) 300
          (sim_far (\<lambda>_. 0) (\<lambda>i k. ucast (i + k))) = Done (0x1000, s') \<and>
        writes sim_view (sim_far (\<lambda>_. 0) (\<lambda>i k. ucast (i + k))) s' 0x1000 300
          (\<lambda>k. the (view sim_view (sim_far (\<lambda>_. 0) (\<lambda>i k. ucast (i + k))) (CARM_PTR + 4000 + k)))"
proof (rule carm_memcpy_from_remote [OF sim_env_laws sim_far_inv])
  show "\<forall>k<300. view sim_view (sim_far (\<lambda>_. 0) (\<lambda>i k. ucast (i + k))) (CARM_PTR + 4000 + k) \<noteq> None"
    by (simp add: sim_far_view [where n = 300])
qed (simp_all add: sim_far_range sim_local check_bit not_bit_60 MAX_WALK_def)

text \<open>
  C10: setting a remote range returns and fills exactly that range with the low byte of the
  value, where no later eviction loses them.
\<close>

theorem carm_memset_remote:
  assumes "env_laws E V" "rt_inv V s" "far_range V s dst n" "n \<le> MAX_WALK"
  shows "\<exists>s'. carm_memset (enough_fuel n) E dst c n s = Done (dst, s') \<and>
           writes V s s' dst n (\<lambda>k. ucast c)"
proof -
  have c: "check_carm_object dst" using assms(3) by (simp add: far_range_def)
  have "set_pre E V dst n s" using assms by (simp add: set_pre_def)
  from ms.loop_all [where c = c, OF this assms(4) at_get [OF c, of 1] get_mut(1) [OF c]] c show ?thesis
    by (auto simp: carm_memset_def)
qed

theorem carm_memset_remote_witness:
  "\<exists>s'. carm_memset (enough_fuel 9000) sim_ops (CARM_PTR + 100) 0x1ff 9000
          (sim_start (\<lambda>_. 0)) = Done (CARM_PTR + 100, s') \<and>
        writes sim_view (sim_start (\<lambda>_. 0)) s' (CARM_PTR + 100) 9000 (\<lambda>k. ucast (0x1ff :: u32))"
  by (rule carm_memset_remote [OF sim_env_laws sim_start_inv])
    (simp_all add: sim_start_far MAX_WALK_def)

text \<open>
  C9: with both sides remote, a copy between disjoint ranges whose objects are in the local
  cache returns and writes exactly the source bytes, whatever the alignment of the two.
\<close>

theorem carm_memcpy_both_hot:
  assumes "env_laws E V" "rt_inv V s" "far_range V s dst n" "far_range V s src n"
    and "hot write_exceptions s dst n" "hot read_exceptions s src n"
    and "\<forall>k<n. \<not> within dst n (src + k)" "n \<le> MAX_WALK"
  shows "\<exists>s'. carm_memcpy (both_fuel n) E dst src n s = Done (dst, s') \<and>
           writes V s s' dst n (\<lambda>k. the (view V s (src + k)))"
proof -
  have c: "check_carm_object dst" "check_carm_object src"
    using assms(3,4) by (simp_all add: far_range_def)
  have "\<exists>s'. memcpy_both_loop (both_fuel n) E dst src n (get_carm_ptr dst 1) (get_carm_ptr src 0) 0 s =
      Done s' \<and> writes V s s' dst n (\<lambda>k. the (view V s (src + k)))"
    using both_loop_hot [of E V n dst src s 0 "both_fuel n"] assms both_fuel_bound by simp
  with c show ?thesis by (auto simp: carm_memcpy_def)
qed

text \<open>Object 0 is local and marked, and the table knows.\<close>

definition sim_hot :: "sim rt" where
  "sim_hot = (sim_far (\<lambda>p. ucast p) (\<lambda>_ _. 0))
     \<lparr>env := (env (sim_far (\<lambda>_. 0) (\<lambda>_ _. 0)))\<lparr>sim_frames := [0 \<mapsto> 0], sim_dirty := (\<lambda>h. h = 0)\<rparr>,
      obj_state := (\<lambda>i. if i = 0 then push_bit kObjectDataAddrBitPos SIM_FRAME else FLUSH_CACHE)\<rparr>"

lemma sim_hot_fields:
  "sim_in (env sim_hot) h \<longleftrightarrow> h = 0" "sim_dirty (env sim_hot) h \<longleftrightarrow> h = 0" "sim_ok (env sim_hot)"
  "v_idx sim_view (env sim_hot) h = of_nat h" "sim_frame 0 = SIM_FRAME"
  by (auto simp: sim_in_def sim_ok_def sim_hot_def sim_far_def sim_boot_def sim_frame_def split: if_splits)

lemma sim_hot_inv: "rt_inv sim_view sim_hot"
proof -
  have st: "obj_state sim_hot i = (if i = 0 then push_bit kObjectDataAddrBitPos SIM_FRAME else FLUSH_CACHE)"
    "ptrs sim_hot = ptrs (sim_far (\<lambda>p. ucast p) (\<lambda>_ _. 0))" for i
    by (simp_all add: sim_hot_def sim_far_def sim_start_def)
  have "slots_valid sim_view sim_hot"
    by (auto simp: slots_valid_def sim_hot_def sim_far_def sim_start_def sim_boot_def word_less_unat
        split: if_splits)
  moreover have "slots_safe sim_view sim_hot"
    by (auto simp: slots_safe_def sim_safe sim_hot_fields(1,2))
  moreover have "coherent sim_view sim_hot"
  proof -
    have "drop_bit kObjectDataAddrBitPos (push_bit kObjectDataAddrBitPos SIM_FRAME) = SIM_FRAME"
      "FLUSH_CACHE AND read_exceptions \<noteq> 0"
      by (simp_all add: config_defs SIM_FRAME_def read_exceptions_def)
    moreover have "unat i = 0 \<longleftrightarrow> i = 0" for i :: u64 by (rule unat_eq_0)
    ultimately show ?thesis
      by (auto simp: coherent_def sim_hot_fields st sim_far_def sim_start_def split: if_splits)
  qed
  moreover have "null_absent sim_hot"
    by (auto simp: null_absent_def sim_hot_def sim_far_def sim_start_def config_defs split: if_splits)
  ultimately show ?thesis by (simp add: rt_inv_def sim_hot_fields)
qed

lemma sim_hot_range:
  assumes "unat a + unat n \<le> 4096"
  shows "far_range sim_view sim_hot (CARM_PTR + a) n" "hot write_exceptions sim_hot (CARM_PTR + a) n"
    "hot read_exceptions sim_hot (CARM_PTR + a) n"
proof -
  have "accessible sim_view sim_hot i = accessible sim_view (sim_far (\<lambda>_. 0) (\<lambda>_ _. 0)) i" for i
    by (simp add: accessible_def sim_hot_def sim_far_def sim_start_def sim_boot_def
        cong: slot.case_cong)
  then show "far_range sim_view sim_hot (CARM_PTR + a) n"
    using sim_far_range [of a n "\<lambda>_. 0" "\<lambda>_ _. 0"] assms by (simp add: far_range_def)
  have "obj_of (CARM_PTR + a + k) = 0" if "k < n" for k
  proof -
    have k: "unat a + unat k < 4096" using assms that by (simp add: word_less_unat)
    then have "unat (obj_of (CARM_PTR + a + k)) = 0"
      using remote_number [of a k] by (simp add: unat_obj_of)
    then show ?thesis by (simp only: unat_eq_0)
  qed
  then show "hot write_exceptions sim_hot (CARM_PTR + a) n" "hot read_exceptions sim_hot (CARM_PTR + a) n"
    by (simp_all add: hot_def sim_hot_def write_exceptions_def read_exceptions_def config_defs
        SIM_FRAME_def)
qed

theorem carm_memcpy_both_hot_witness:
  "\<exists>s'. carm_memcpy (both_fuel 100) sim_ops (CARM_PTR + 2048) (CARM_PTR + 16) 100 sim_hot =
      Done (CARM_PTR + 2048, s') \<and>
    writes sim_view sim_hot s' (CARM_PTR + 2048) 100
      (\<lambda>k. the (view sim_view sim_hot (CARM_PTR + 16 + k)))"
proof (rule carm_memcpy_both_hot [OF sim_env_laws sim_hot_inv])
  show "\<forall>k<100. \<not> within (CARM_PTR + 2048) 100 (CARM_PTR + 16 + k)"
  proof (intro allI impI notI)
    fix k :: u64 assume k: "k < 100" and w: "within (CARM_PTR + 2048) 100 (CARM_PTR + 16 + k)"
    from w have x: "k - 2032 < 100" by (simp add: within_def algebra_simps)
    then have "unat ((k - 2032) + 2032) = unat (k - 2032) + 2032"
      by (subst unat_add_no_wrap) (simp_all add: word_less_unat)
    with k show False by (simp add: word_less_unat)
  qed
qed (simp_all add: sim_hot_range MAX_WALK_def)

section \<open>Where they go wrong\<close>

lemma counter_below: "2 ^ 32 \<le> unat sz \<Longrightarrow> (ucast (x :: u32) :: u64) < sz"
  by (rule order_less_le_trans [of _ "2 ^ 32"]) (simp_all add: word_less_unat word_le_unat)

lemma dst_loop_huge: "2 ^ 32 \<le> unat sz \<Longrightarrow> memcpy_dst_loop f E src sz cp bt s \<noteq> Done r"
  by (induction f arbitrary: cp bt s)
    (auto simp: counter_below bindR_Done_iff Let_def split: prod.splits if_splits)

lemma src_loop_huge: "2 ^ 32 \<le> unat sz \<Longrightarrow> memcpy_src_loop f E dst sz cp bt s \<noteq> Done r"
  by (induction f arbitrary: cp bt s)
    (auto simp: counter_below bindR_Done_iff Let_def split: prod.splits if_splits)

lemma both_loop_huge: "2 ^ 32 \<le> unat sz \<Longrightarrow> memcpy_both_loop f E dst src sz cd cs bt s \<noteq> Done r"
  by (induction f arbitrary: cd cs bt s)
    (auto simp: counter_below bindR_Done_iff Let_def split: prod.splits if_splits)

lemma memset_loop_huge: "2 ^ 32 \<le> unat sz \<Longrightarrow> memset_loop f E c sz cp bt s \<noteq> Done r"
  by (induction f arbitrary: cp bt s)
    (auto simp: counter_below bindR_Done_iff Let_def split: prod.splits if_splits)

text \<open>
  C40: a copy of 4 GiB or more that touches remote memory never returns: the 32-bit counter
  stays below the 64-bit size for ever, whatever the fuel.
\<close>

theorem carm_memcpy_huge:
  assumes "check_carm_object dst \<or> check_carm_object src" "2 ^ 32 \<le> unat n"
  shows "carm_memcpy f E dst src n s \<noteq> Done r"
  using assms by (auto simp: carm_memcpy_def Let_def bindR_Done_iff dst_loop_huge src_loop_huge
      both_loop_huge)

theorem carm_memcpy_huge_witness:
  "\<forall>r. carm_memcpy 1000000 sim_ops CARM_PTR 0x1000 0x100000000 (sim_start (\<lambda>_. 0)) \<noteq> Done r"
  by (intro allI carm_memcpy_huge) (simp_all add: check_bit bit_CARM_PTR)

section \<open>Fuel\<close>

lemma memcpy_dst_more [fuel_mono]: "memcpy_dst_loop f E src sz cp bt s \<le> memcpy_dst_loop (Suc f) E src sz cp bt s"
  by (induction f arbitrary: cp bt s) (simp, subst (1 2) memcpy_dst_loop.simps, intro fuel_mono order_refl)

lemma memcpy_src_more [fuel_mono]: "memcpy_src_loop f E src sz cp bt s \<le> memcpy_src_loop (Suc f) E src sz cp bt s"
  by (induction f arbitrary: cp bt s) (simp, subst (1 2) memcpy_src_loop.simps, intro fuel_mono order_refl)

lemma memcpy_both_more [fuel_mono]: "memcpy_both_loop f E dst src sz cd cs bt s \<le> memcpy_both_loop (Suc f) E dst src sz cd cs bt s"
  by (induction f arbitrary: cd cs bt s) (simp, subst (1 2) memcpy_both_loop.simps, intro fuel_mono order_refl)

lemma memset_more [fuel_mono]: "memset_loop f E c sz cp bt s \<le> memset_loop (Suc f) E c sz cp bt s"
  by (induction f arbitrary: cp bt s) (simp, subst (1 2) memset_loop.simps, intro fuel_mono order_refl)

lemma carm_memcpy_more [fuel_mono]: "carm_memcpy f E d q n s \<le> carm_memcpy (Suc f) E d q n s"
  unfolding carm_memcpy_def by (intro fuel_mono order_refl)

lemma carm_memset_more [fuel_mono]: "carm_memset f E d c n s \<le> carm_memset (Suc f) E d c n s"
  unfolding carm_memset_def by (intro fuel_mono order_refl)

interpretation fuel_memcpy: fuelled "\<lambda>f (d, q, n, s). carm_memcpy f E d q n s" for E
  by unfold_locales (auto intro: carm_memcpy_more)

interpretation fuel_memset: fuelled "\<lambda>f (d, c, n, s). carm_memset f E d c n s" for E
  by unfold_locales (auto intro: carm_memset_more)

end
