(* ===== verification/Libc_Alloc.thy ===== *)
theory Libc_Alloc
  imports Libc_Copy
begin

text \<open>
  The allocator of \<open>src/libc_support.cpp\<close>: a bump allocator over the remote address space,
  the size table, and the accounting by which \<open>carm_free\<close> recycles an object when all its
  bytes are free. Operations on the tables run under \<open>carm_mtx\<close>; taking it twice does not
  return, which the model reports as \<open>Faulted\<close>, as it does a use of \<open>carm_rt\<close> when it is
  null.
\<close>

section \<open>The mutex and the size table\<close>

definition lock_mtx :: "'e rt \<Rightarrow> 'e rt run" where
  "lock_mtx s = (if carm_mtx s then Faulted else Done (s\<lparr>carm_mtx := True\<rparr>))"

definition unlock_mtx :: "'e rt \<Rightarrow> 'e rt" where
  "unlock_mtx s = s\<lparr>carm_mtx := False\<rparr>"

definition record_size :: "ptr \<Rightarrow> u64 \<Rightarrow> 'e rt \<Rightarrow> 'e rt" where
  "record_size p n s = s\<lparr>allocation_map := (allocation_map s)(p \<mapsto> n)\<rparr>"

text \<open>\<open>operator[]\<close> of the map: an absent key is inserted with 0.\<close>

definition lookup_size :: "ptr \<Rightarrow> 'e rt \<Rightarrow> u64 \<times> 'e rt" where
  "lookup_size p s =
     (case allocation_map s p of Some n \<Rightarrow> (n, s) | None \<Rightarrow> (0, record_size p 0 s))"

section \<open>Allocation\<close>

definition carm_local_malloc :: "'e env_ops \<Rightarrow> u64 \<Rightarrow> 'e rt \<Rightarrow> (ptr \<times> 'e rt) run" where
  "carm_local_malloc E sz s =
     (case e_malloc E sz (env s) of (ret, e) \<Rightarrow>
        let s = s\<lparr>env := e\<rparr>
        in if carm_rt s then Done (ret, record_size ret sz s) else Faulted)"

definition carm_remote_malloc :: "'e env_ops \<Rightarrow> u64 \<Rightarrow> 'e rt \<Rightarrow> (ptr \<times> 'e rt) run" where
  "carm_remote_malloc E sz s =
     (if carm_rt s
      then let asize = enforce_size_constraints sz
           in bindR (lock_mtx s) (\<lambda>s.
                let ret = aspace_start s; s = record_size ret asize s;
                    s = s\<lparr>aspace_start := aspace_start s + asize\<rparr>
                in Done (ret, unlock_mtx s))
      else carm_local_malloc E sz s)"

text \<open>
  Without a runtime the source calls \<open>calloc\<close> and then writes through the null
  \<open>carm_rt\<close>.
\<close>

definition carm_calloc :: "nat \<Rightarrow> 'e env_ops \<Rightarrow> u64 \<Rightarrow> u64 \<Rightarrow> 'e rt \<Rightarrow> (ptr \<times> 'e rt) run" where
  "carm_calloc f E elem elem_size s =
     (let sz = elem * elem_size
      in if carm_rt s
         then let asize = enforce_size_constraints sz
              in bindR (lock_mtx s) (\<lambda>s.
                   let ret = aspace_start s; s = record_size ret asize s;
                       s = s\<lparr>aspace_start := aspace_start s + asize\<rparr>
                   in bindR (carm_memset f E ret 0 asize s) (\<lambda>(_, s). Done (ret, unlock_mtx s)))
         else Faulted)"

section \<open>Freeing\<close>

text \<open>
  The object of a freed slot goes to the end of the table under its new index. Called only
  where the slot holds an object.
\<close>

definition update_object_list :: "'e env_ops \<Rightarrow> u64 \<Rightarrow> 'e rt \<Rightarrow> 'e rt run" where
  "update_object_list E old_index s =
     (let new_index = total_obj_cnt s
      in if new_index < TOTAL_OBJECTS
         then case ptrs s old_index of
                Obj h \<Rightarrow> Done (s\<lparr>ptrs := (ptrs s)(new_index := Obj h),
                                env := e_set_index E h new_index (env s),
                                total_obj_cnt := total_obj_cnt s + 1\<rparr>)
              | _ \<Rightarrow> Faulted
         else Faulted)"

definition account :: "u64 \<Rightarrow> u64 \<Rightarrow> 'e rt \<Rightarrow> 'e rt" where
  "account i n s = s\<lparr>free_list_map := (free_list_map s)(i := free_list_map s i + n)\<rparr>"

fun free_loop :: "nat \<Rightarrow> 'e env_ops \<Rightarrow> u64 \<Rightarrow> u64 \<Rightarrow> u32 \<Rightarrow> u64 \<Rightarrow> 'e rt \<Rightarrow> 'e rt run" where
  "free_loop 0 E sz freed_size chunk_size i s = OutOfFuel"
| "free_loop (Suc f) E sz freed_size chunk_size i s =
     (if freed_size < sz
      then if \<not> valid_size chunk_size then Exited
           else if \<not> i < TOTAL_OBJECTS then Faulted
           else let s = account i (if freed_size + ucast chunk_size < sz then ucast chunk_size
                                   else sz - freed_size) s;
                    next = free_loop f E sz (freed_size + ucast chunk_size) (ucast OBJ_SIZE) (i + 1)
                in if free_list_map s i = OBJ_SIZE
                   then case ptrs s i of
                          Uninit \<Rightarrow> Faulted
                        | Null \<Rightarrow> Done s
                        | Obj h \<Rightarrow> bindR (update_object_list E i s) next
                   else if OBJ_SIZE < free_list_map s i then Aborted
                   else next s
      else Done s)"

definition carm_free :: "nat \<Rightarrow> 'e env_ops \<Rightarrow> ptr \<Rightarrow> 'e rt \<Rightarrow> 'e rt run" where
  "carm_free f E addr s =
     (if check_carm_object addr
      then if \<not> carm_rt s then Faulted
           else case lookup_size addr s of (sz, s) \<Rightarrow>
             let cp = get_carm_ptr addr 0; chunk_size = chunk cp
             in bindR (lock_mtx s) (\<lambda>s.
                  bindR (free_loop f E sz 0 chunk_size (cp_obj_index cp) s) (\<lambda>s.
                    Done (unlock_mtx s)))
      else Done (s\<lparr>env := e_free E addr (env s)\<rparr>))"

section \<open>Reallocation and duplication\<close>

definition carm_realloc :: "nat \<Rightarrow> 'e env_ops \<Rightarrow> ptr \<Rightarrow> u64 \<Rightarrow> 'e rt \<Rightarrow> (ptr \<times> 'e rt) run" where
  "carm_realloc f E p sz s =
     (if \<not> check_carm_object p
      then case e_realloc E p sz (env s, mem s) of (q, e, m) \<Rightarrow> Done (q, s\<lparr>env := e, mem := m\<rparr>)
      else if sz = 0 then bindR (carm_free f E p s) (\<lambda>s. Done (0, s))
      else bindR (carm_remote_malloc E sz s) (\<lambda>(rptr, s).
             if p \<noteq> 0 \<and> 0 < sz
             then if \<not> carm_rt s then Faulted
                  else case lookup_size p s of (old, s) \<Rightarrow>
                    bindR (carm_memcpy f E rptr p old s) (\<lambda>(_, s).
                      bindR (carm_free f E p s) (\<lambda>s. Done (rptr, s)))
             else Done (rptr, s)))"

section \<open>Fuel\<close>

lemma case_slot_mono [fuel_mono]:
  fixes r :: "'a run"
  shows "r \<le> r' \<Longrightarrow> q \<le> q' \<Longrightarrow> (\<And>h. k h \<le> l h) \<Longrightarrow>
    (case p of Uninit \<Rightarrow> r | Null \<Rightarrow> q | Obj h \<Rightarrow> k h) \<le> (case p of Uninit \<Rightarrow> r' | Null \<Rightarrow> q' | Obj h \<Rightarrow> l h)"
  by (cases p) simp_all

lemma free_more [fuel_mono]: "free_loop f E sz fr ch i s \<le> free_loop (Suc f) E sz fr ch i s"
  by (induction f arbitrary: fr ch i s) (simp, subst (1 2) free_loop.simps, unfold Let_def, intro fuel_mono order_refl)

lemma carm_calloc_more [fuel_mono]: "carm_calloc f E n sz s \<le> carm_calloc (Suc f) E n sz s"
  unfolding carm_calloc_def by (intro fuel_mono order_refl)

lemma carm_free_more [fuel_mono]: "carm_free f E a s \<le> carm_free (Suc f) E a s"
  unfolding carm_free_def by (intro fuel_mono order_refl)

lemma carm_realloc_more [fuel_mono]: "carm_realloc f E a n s \<le> carm_realloc (Suc f) E a n s"
  unfolding carm_realloc_def by (intro fuel_mono order_refl)

interpretation fuel_calloc: fuelled "\<lambda>f (n, sz, s). carm_calloc f E n sz s" for E
  by unfold_locales (auto intro: carm_calloc_more)

interpretation fuel_free: fuelled "\<lambda>f (a, s). carm_free f E a s" for E
  by unfold_locales (auto intro: carm_free_more)

interpretation fuel_realloc: fuelled "\<lambda>f (a, n, s). carm_realloc f E a n s" for E
  by unfold_locales (auto intro: carm_realloc_more)

end
