(* ===== verification/Alloc_Props.thy ===== *)
theory Alloc_Props
  imports Libc_Alloc
begin

text \<open>
  What the allocator guarantees: rounding, fresh and disjoint blocks for any sequence of
  requests (the locale \<open>fresh_allocator\<close>, interpreted on \<open>carm_remote_malloc\<close> and
  \<open>carm_calloc\<close>), zeroed memory from \<open>carm_calloc\<close>, and aligned fields that stay inside one
  object from start-up on.
\<close>

section \<open>Rounding\<close>

definition round8 :: "nat \<Rightarrow> nat" where
  "round8 n = (if n < 8 then 8 else if n mod 8 = 0 then n else (n div 8 + 1) * 8)"

lemma round8_bounds: "n \<le> round8 n" "round8 n \<le> n + 8" "8 \<le> round8 n" "round8 n mod 8 = 0"
proof -
  have e: "n = n div 8 * 8 + n mod 8" "n mod 8 < 8" by simp_all
  then have "n \<le> (n div 8 + 1) * 8" unfolding distrib_right by linarith
  moreover have "(n div 8 + 1) * 8 \<le> n + 8" using e unfolding distrib_right by linarith
  ultimately show "n \<le> round8 n" "round8 n \<le> n + 8" "8 \<le> round8 n" "round8 n mod 8 = 0"
    by (auto simp: round8_def)
qed

lemma enforce_size:
  assumes "unat sz + 8 < 2 ^ 64"
  shows "unat (enforce_size_constraints sz) = round8 (unat sz)"
proof (cases "unat sz < 8")
  case True
  then show ?thesis
    by (simp add: enforce_size_constraints_def CARM_ALLOC_SIZE_MULTIPLE_def word_less_unat round8_def)
next
  case False
  have m: "unat (sz mod 8) = unat sz mod 8" by (simp add: unat_mod)
  have le: "sz mod 8 \<le> sz" by (simp add: word_le_unat m)
  have d: "unat (sz - sz mod 8) = unat sz - unat sz mod 8" by (simp only: unat_sub_le [OF le] m)
  have "unat sz - unat sz mod 8 + 8 < 2 ^ 64" using assms by linarith
  then have "unat (sz - sz mod 8 + 8) = unat sz - unat sz mod 8 + 8"
    using d by (subst unat_add_no_wrap) simp_all
  moreover have "sz mod 8 = 0 \<longleftrightarrow> unat sz mod 8 = 0" using m by (metis unat_eq_0)
  ultimately have "unat (enforce_size_constraints sz) =
      (if unat sz mod 8 = 0 then unat sz else unat sz - unat sz mod 8 + 8)"
    using False
    by (simp add: enforce_size_constraints_def CARM_ALLOC_SIZE_MULTIPLE_def word_less_unat Let_def)
  also have "\<dots> = round8 (unat sz)"
    using False by (simp add: round8_def minus_mod_eq_div_mult)
  finally show ?thesis .
qed

section \<open>The invariant of the address space\<close>

definition blocks_below :: "'e rt \<Rightarrow> bool" where
  "blocks_below s \<longleftrightarrow> (\<forall>a n. allocation_map s a = Some n \<and> check_carm_object a \<and> n \<noteq> 0 \<longrightarrow>
     unat a + unat n \<le> unat (aspace_start s))"

definition blocks_apart :: "'e rt \<Rightarrow> bool" where
  "blocks_apart s \<longleftrightarrow> (\<forall>a n b m. allocation_map s a = Some n \<and> allocation_map s b = Some m \<and>
     check_carm_object a \<and> check_carm_object b \<and> n \<noteq> 0 \<and> m \<noteq> 0 \<and> a \<noteq> b \<longrightarrow>
     unat a + unat n \<le> unat b \<or> unat b + unat m \<le> unat a)"

definition heap_ok :: "'e rt \<Rightarrow> bool" where
  "heap_ok s \<longleftrightarrow> check_carm_object (aspace_start s) \<and> unat (aspace_start s) mod 8 = 0 \<and>
     blocks_below s \<and> blocks_apart s"

text \<open>The request fits below the end of the remote half of the address space.\<close>

definition fits :: "'e rt \<Rightarrow> u64 \<Rightarrow> bool" where
  "fits s sz \<longleftrightarrow> unat (aspace_start s) + unat sz + 8 < 2 ^ 61"

lemma heap_ok_cong:
  "aspace_start s' = aspace_start s \<Longrightarrow> allocation_map s' = allocation_map s \<Longrightarrow>
     heap_ok s' = heap_ok s"
  by (simp add: heap_ok_def blocks_below_def blocks_apart_def)

lemma same_book_heap: "same_book s s' \<Longrightarrow> heap_ok s' = heap_ok s"
  by (rule heap_ok_cong) (simp_all add: same_book_def)

lemma check_ge: "check_carm_object a \<Longrightarrow> 2 ^ 60 \<le> unat a"
proof -
  assume "check_carm_object a"
  then have "bit a 60" by (simp add: check_bit)
  then show ?thesis using not_bit_60 [of a] by fastforce
qed

lemma check_between: "2 ^ 60 \<le> unat a \<Longrightarrow> unat a < 2 ^ 61 \<Longrightarrow> check_carm_object a"
proof -
  assume a: "2 ^ 60 \<le> unat a" "unat a < 2 ^ 61"
  let ?b = "a - CARM_PTR"
  have "CARM_PTR \<le> a" using a(1) by (simp add: word_le_unat CARM_PTR_def)
  then have "unat ?b = unat a - 2 ^ 60" by (simp add: unat_sub_le) (simp add: CARM_PTR_def)
  then have "unat ?b < 2 ^ 60" using a(2) by simp
  from check_CARM_add [OF this] show ?thesis by simp
qed

text \<open>The bump of the allocator keeps the invariant.\<close>

definition bump :: "u64 \<Rightarrow> 'e rt \<Rightarrow> 'e rt" where
  "bump asize s = (record_size (aspace_start s) asize s)\<lparr>aspace_start := aspace_start s + asize\<rparr>"

lemma bump_ok:
  assumes ok: "heap_ok s" and fit: "fits s sz"
  shows "heap_ok (bump (enforce_size_constraints sz) s)"
    and "unat (aspace_start (bump (enforce_size_constraints sz) s)) =
           unat (aspace_start s) + round8 (unat sz)"
proof -
  let ?a = "enforce_size_constraints sz"
  let ?t = "bump ?a s"
  have "unat sz + 8 < 2 ^ 64" using fit by (simp add: fits_def)
  note a = enforce_size [OF this]
  have lt: "unat (aspace_start s) + round8 (unat sz) < 2 ^ 61"
    using fit round8_bounds(2) [of "unat sz"] by (simp add: fits_def)
  show u: "unat (aspace_start ?t) = unat (aspace_start s) + round8 (unat sz)"
    using lt a by (simp add: bump_def record_size_def unat_add_no_wrap)
  have am: "allocation_map ?t = (allocation_map s)(aspace_start s \<mapsto> ?a)"
    by (simp add: bump_def record_size_def)
  have "blocks_below ?t"
    using ok a u by (auto simp: heap_ok_def blocks_below_def am intro!: trans_le_add1 split: if_splits)
  moreover have "blocks_apart ?t"
    using ok unfolding heap_ok_def blocks_apart_def blocks_below_def am
    by (simp split: if_splits)
  moreover have "check_carm_object (aspace_start ?t)"
    using ok lt u check_ge [of "aspace_start s"] by (intro check_between) (simp_all add: heap_ok_def)
  moreover have "unat (aspace_start ?t) mod 8 = 0"
    using ok u round8_bounds(4) [of "unat sz"] by (simp add: heap_ok_def mod_add_eq [symmetric])
  ultimately show "heap_ok ?t" by (simp add: heap_ok_def)
qed

section \<open>The contract of an allocator\<close>

locale fresh_allocator =
  fixes alloc :: "'q \<Rightarrow> 'e rt \<Rightarrow> (ptr \<times> 'e rt) run" and need :: "'q \<Rightarrow> u64"
  assumes alloc_spec: "carm_rt s \<Longrightarrow> alloc q s = Done (p, s') \<Longrightarrow>
    p = aspace_start s \<and> \<not> carm_mtx s' \<and> carm_rt s' \<and>
    aspace_start s' = aspace_start (bump (enforce_size_constraints (need q)) s) \<and>
    allocation_map s' = allocation_map (bump (enforce_size_constraints (need q)) s)"
begin

lemma alloc_ok:
  assumes "carm_rt s" "heap_ok s" "fits s (need q)" "alloc q s = Done (p, s')"
  shows "heap_ok s'" "unat (aspace_start s') = unat p + round8 (unat (need q))"
    "unat p mod 8 = 0" "carm_rt s'"
  using alloc_spec [OF assms(1,4)] bump_ok [OF assms(2,3)] assms(2)
    heap_ok_cong [of s' "bump (enforce_size_constraints (need q)) s"]
  by (simp_all add: heap_ok_def)

end

text \<open>A sequence of requests.\<close>

fun alloc_all ::
    "('q \<Rightarrow> 'e rt \<Rightarrow> (ptr \<times> 'e rt) run) \<Rightarrow> 'q list \<Rightarrow> 'e rt \<Rightarrow> (ptr list \<times> 'e rt) run" where
  "alloc_all al [] s = Done ([], s)"
| "alloc_all al (q # qs) s =
     bindR (al q s) (\<lambda>(p, s). bindR (alloc_all al qs s) (\<lambda>(ps, s). Done (p # ps, s)))"

definition need_all :: "('q \<Rightarrow> u64) \<Rightarrow> 'q list \<Rightarrow> nat" where
  "need_all need qs = (\<Sum>q\<leftarrow>qs. unat (need q) + 8)"

context fresh_allocator begin

text \<open>Every block starts where the one before ends.\<close>

lemma alloc_all_chain:
  assumes "alloc_all alloc qs s = Done (ps, s')" "carm_rt s" "heap_ok s"
    and "unat (aspace_start s) + need_all need qs < 2 ^ 61"
  shows "heap_ok s' \<and> carm_rt s' \<and> length ps = length qs \<and> (\<forall>p\<in>set ps. unat p mod 8 = 0) \<and>
    (\<forall>i<length ps. unat (aspace_start s) \<le> unat (ps ! i)) \<and>
    (\<forall>i j. i < j \<and> j < length ps \<longrightarrow> unat (ps ! i) + round8 (unat (need (qs ! i))) \<le> unat (ps ! j))"
  using assms
proof (induction qs arbitrary: s ps)
  case (Cons q qs)
  from Cons.prems(1) obtain p t ps' where run: "alloc q s = Done (p, t)"
      "alloc_all alloc qs t = Done (ps', s')" "ps = p # ps'"
    by (auto simp: bindR_Done_iff)
  have fit: "fits s (need q)" using Cons.prems(4) by (simp add: need_all_def fits_def)
  note ok = alloc_ok [OF Cons.prems(2,3) fit run(1)]
  have p: "p = aspace_start s" using alloc_spec [OF Cons.prems(2) run(1)] by simp
  have "unat (aspace_start t) + need_all need qs < 2 ^ 61"
    using Cons.prems(4) ok(2) p round8_bounds(2) [of "unat (need q)"] by (simp add: need_all_def)
  note IH = Cons.IH [OF run(2) ok(4,1) this]
  show ?case
  proof (intro conjI allI impI)
    fix i assume "i < length ps"
    then show "unat (aspace_start s) \<le> unat (ps ! i)"
      using IH run(3) ok(2) p by (cases i) (auto intro: le_trans [of _ "unat (aspace_start t)"])
  next
    fix i j assume "i < j \<and> j < length ps"
    then show "unat (ps ! i) + round8 (unat (need ((q # qs) ! i))) \<le> unat (ps ! j)"
      using IH run(3) ok(2) by (cases i; cases j) auto
  qed (use IH run(3) ok(3) in auto)
qed simp

text \<open>And they stay below the space they need.\<close>

lemma alloc_all_bound:
  assumes "alloc_all alloc qs s = Done (ps, s')" "carm_rt s" "heap_ok s"
    and "unat (aspace_start s) + need_all need qs < 2 ^ 61" "i < length qs"
  shows "unat (ps ! i) + unat (need (qs ! i)) < 2 ^ 61"
  using assms
proof (induction qs arbitrary: s ps i)
  case (Cons q qs)
  from Cons.prems(1) obtain p t ps' where run: "alloc q s = Done (p, t)"
      "alloc_all alloc qs t = Done (ps', s')" "ps = p # ps'"
    by (auto simp: bindR_Done_iff)
  have fit: "fits s (need q)" using Cons.prems(4) by (simp add: need_all_def fits_def)
  note ok = alloc_ok [OF Cons.prems(2,3) fit run(1)]
  have p: "p = aspace_start s" using alloc_spec [OF Cons.prems(2) run(1)] by simp
  have "unat (aspace_start t) + need_all need qs < 2 ^ 61"
    using Cons.prems(4) ok(2) p round8_bounds(2) [of "unat (need q)"] by (simp add: need_all_def)
  note IH = Cons.IH [OF run(2) ok(4,1) this]
  show ?case
    using IH [of "i - 1"] Cons.prems(4,5) p run(3) by (cases i) (simp_all add: need_all_def)
qed simp

end

lemma remote_malloc_bump:
  assumes "carm_rt s" "\<not> carm_mtx s"
  shows "carm_remote_malloc E sz s =
    Done (aspace_start s, unlock_mtx (bump (enforce_size_constraints sz) (s\<lparr>carm_mtx := True\<rparr>)))"
  using assms by (simp add: carm_remote_malloc_def lock_mtx_def Let_def bump_def record_size_def)

interpretation ma: fresh_allocator "carm_remote_malloc E" "\<lambda>sz. sz" for E
  by unfold_locales
    (auto simp: carm_remote_malloc_def lock_mtx_def unlock_mtx_def Let_def bump_def record_size_def
      split: if_splits)

lemma memset_loop_book: "memset_loop f E c sz cp bt s = Done s' \<Longrightarrow> same_book s s'"
proof (induction f arbitrary: cp bt s)
  case (Suc f)
  have mem: "same_book t u \<Longrightarrow> same_book (t\<lparr>mem := m\<rparr>) v \<Longrightarrow> same_book t v" for t u v and m
    by (simp add: same_book_def)
  show ?case
    using Suc.prems by (auto simp: bindR_Done_iff Let_def split: if_splits prod.splits
        dest!: ptrDeref_book Suc.IH) (auto simp: same_book_def)
qed simp

lemma memset_book: "carm_memset f E p c sz s = Done (q, s') \<Longrightarrow> same_book s s'"
  by (auto simp: carm_memset_def Let_def bindR_Done_iff same_book_def split: if_splits
      dest!: memset_loop_book)

interpretation ca: fresh_allocator "\<lambda>(n, sz). carm_calloc f E n sz" "\<lambda>(n, sz). n * sz" for f E
proof (unfold_locales, clarify)
  fix s :: "'a rt" and n sz p s'
  assume "carm_rt s" "carm_calloc f E n sz s = Done (p, s')"
  then obtain q t where "carm_memset f E (aspace_start s) 0 (enforce_size_constraints (n * sz))
      (bump (enforce_size_constraints (n * sz)) (s\<lparr>carm_mtx := True\<rparr>)) = Done (q, t)"
    and "p = aspace_start s" "s' = unlock_mtx t"
    by (auto simp: carm_calloc_def lock_mtx_def Let_def bump_def record_size_def bindR_Done_iff
        split: if_splits)
  then show "p = aspace_start s \<and> \<not> carm_mtx s' \<and> carm_rt s' \<and>
      aspace_start s' = aspace_start (bump (enforce_size_constraints (n * sz)) s) \<and>
      allocation_map s' = allocation_map (bump (enforce_size_constraints (n * sz)) s)"
    using \<open>carm_rt s\<close> memset_book
    by (fastforce simp: unlock_mtx_def same_book_def bump_def record_size_def)
qed

section \<open>What allocation guarantees\<close>

lemma mallocs_return:
  "carm_rt s \<Longrightarrow> \<not> carm_mtx s \<Longrightarrow> \<exists>ps s'. alloc_all (carm_remote_malloc E) qs s = Done (ps, s')"
proof (induction qs arbitrary: s)
  case (Cons q qs)
  let ?t = "unlock_mtx (bump (enforce_size_constraints q) (s\<lparr>carm_mtx := True\<rparr>))"
  have "carm_rt ?t" "\<not> carm_mtx ?t"
    using Cons.prems by (simp_all add: unlock_mtx_def bump_def record_size_def)
  from Cons.IH [OF this] Cons.prems show ?case by (auto simp: remote_malloc_bump)
qed simp

text \<open>
  C11: any sequence of \<open>malloc\<close> calls returns 8-byte aligned remote blocks that do not
  overlap: every block ends before every later one begins.
\<close>

theorem mallocs_disjoint:
  assumes "carm_rt s" "\<not> carm_mtx s" "heap_ok s"
    and "unat (aspace_start s) + need_all (\<lambda>n. n) sizes < 2 ^ 61"
  shows "\<exists>ps s'. alloc_all (carm_remote_malloc E) sizes s = Done (ps, s') \<and> heap_ok s' \<and>
    length ps = length sizes \<and> (\<forall>p\<in>set ps. unat p mod 8 = 0) \<and>
    (\<forall>i j. i < j \<and> j < length ps \<longrightarrow> unat (ps ! i) + unat (sizes ! i) \<le> unat (ps ! j))"
proof -
  obtain ps s' where run: "alloc_all (carm_remote_malloc E) sizes s = Done (ps, s')"
    using mallocs_return assms(1,2) by blast
  have "unat (sizes ! i) \<le> round8 (unat (sizes ! i))" for i by (rule round8_bounds)
  with ma.alloc_all_chain [OF run assms(1,3,4)] run show ?thesis
    by (meson add_left_mono le_trans)
qed

lemma sim_heap_ok: "heap_ok (sim_start m)"
  by (simp add: heap_ok_def sim_start_def blocks_below_def blocks_apart_def START_ADDR_def
      check_carm_object_def CARM_PTR_def)

theorem mallocs_disjoint_witness:
  "\<exists>ps s'. alloc_all (carm_remote_malloc sim_ops) [5, 4096, 17] (sim_start (\<lambda>_. 0)) = Done (ps, s') \<and>
    heap_ok s' \<and> length ps = length [5, 4096, 17 :: u64] \<and> (\<forall>p\<in>set ps. unat p mod 8 = 0) \<and>
    (\<forall>i j. i < j \<and> j < length ps \<longrightarrow> unat (ps ! i) + unat ([5, 4096, 17 :: u64] ! i) \<le> unat (ps ! j))"
  by (rule mallocs_disjoint)
    (simp_all add: sim_heap_ok, simp_all add: sim_start_def START_ADDR_def need_all_def)

text \<open>Setting a freshly allocated block.\<close>

lemma bump_evolves:
  assumes "rt_inv V s"
  shows "rt_inv V (bump n s)" "view V (bump n s) = view V s" "accessible V (bump n s) i = accessible V s i"
  using assms rt_inv_cong [of "bump n s" s V] view_cong [of "bump n s" s V]
    accessible_cong [of "bump n s" s V]
  by (simp_all add: bump_def record_size_def)

text \<open>
  C12: \<open>carm_calloc\<close> returns a fresh block that reads as zeros, also after evictions, changes no
  other byte of the program's memory, records the block and leaves the mutex free.
\<close>

theorem carm_calloc_zeroed:
  assumes "env_laws E V" "rt_inv V s" "carm_rt s" "\<not> carm_mtx s" "heap_ok s"
    and "fits s (n * sz)" "far_range V s (aspace_start s) (enforce_size_constraints (n * sz))"
    and "enforce_size_constraints (n * sz) \<le> MAX_WALK"
  shows "\<exists>s'. carm_calloc (enough_fuel (enforce_size_constraints (n * sz))) E n sz s =
      Done (aspace_start s, s') \<and>
    (\<forall>k < n * sz. view V s' (aspace_start s + k) = Some 0) \<and>
    (\<forall>p b. \<not> within (aspace_start s) (enforce_size_constraints (n * sz)) p \<and> view V s p = Some b \<longrightarrow>
       view V s' p = Some b) \<and>
    rt_inv V s' \<and> heap_ok s' \<and> \<not> carm_mtx s' \<and>
    allocation_map s' (aspace_start s) = Some (enforce_size_constraints (n * sz))"
proof -
  let ?a = "enforce_size_constraints (n * sz)" and ?p = "aspace_start s"
  let ?t = "bump ?a (s\<lparr>carm_mtx := True\<rparr>)"
  have c: "check_carm_object ?p" using assms(5) by (simp add: heap_ok_def)
  have inv: "rt_inv V (s\<lparr>carm_mtx := True\<rparr>)"
    using assms(2) rt_inv_cong [of "s\<lparr>carm_mtx := True\<rparr>" s V] by simp
  have acc: "accessible V ?t i = accessible V s i" for i
    by (rule accessible_cong) (simp_all add: bump_def record_size_def)
  have vw: "view V ?t = view V s" by (rule view_cong) (simp_all add: bump_def record_size_def)
  have "set_pre E V ?p ?a ?t"
    using assms(1,7) bump_evolves(1) [OF inv] acc by (simp add: set_pre_def far_range_def)
  from ms.loop_all [where c = 0, OF this assms(8) at_get [OF c, of 1] get_mut(1) [OF c]] obtain u where
    u: "memset_loop (enough_fuel ?a) E 0 ?a (get_carm_ptr ?p 1) 0 ?t = Done u"
    and w: "writes V ?t u ?p ?a (\<lambda>k. ucast (0 :: u32))" by blast
  have run: "carm_calloc (enough_fuel ?a) E n sz s = Done (?p, unlock_mtx u)"
    using assms(3,4) c u
    by (simp add: carm_calloc_def lock_mtx_def Let_def carm_memset_def bump_def record_size_def)
  have le: "n * sz \<le> ?a"
    using assms(6) enforce_size [of "n * sz"] round8_bounds(1) [of "unat (n * sz)"]
    by (simp add: fits_def word_le_unat)
  have same: "view V (unlock_mtx u) = view V u" "rt_inv V (unlock_mtx u) = rt_inv V u"
    by (rule view_cong rt_inv_cong; simp add: unlock_mtx_def)+
  have heap: "heap_ok (unlock_mtx u)"
    using ca.alloc_ok(1) [of s "(n, sz)" "enough_fuel ?a" E] run assms(3,5,6) by simp
  have "allocation_map (unlock_mtx u) ?p = Some ?a"
    using w by (simp add: unlock_mtx_def writes_def same_book_def bump_def record_size_def)
  moreover have "view V u (?p + k) = Some 0" if "k < n * sz" for k
    using w that le by (simp add: writes_def)
  ultimately show ?thesis
    using run w vw same heap by (auto simp: writes_def unlock_mtx_def)
qed

theorem carm_calloc_zeroed_witness:
  "\<exists>s'. carm_calloc (enough_fuel (enforce_size_constraints (100 * 50))) sim_ops 100 50
        (sim_start (\<lambda>_. 7)) = Done (aspace_start (sim_start (\<lambda>_. 7)), s') \<and>
    (\<forall>k < 100 * 50. view sim_view s' (aspace_start (sim_start (\<lambda>_. 7)) + k) = Some 0) \<and>
    (\<forall>p b. \<not> within (aspace_start (sim_start (\<lambda>_. 7))) (enforce_size_constraints (100 * 50)) p \<and>
       view sim_view (sim_start (\<lambda>_. 7)) p = Some b \<longrightarrow> view sim_view s' p = Some b) \<and>
    rt_inv sim_view s' \<and> heap_ok s' \<and> \<not> carm_mtx s' \<and>
    allocation_map s' (aspace_start (sim_start (\<lambda>_. 7))) = Some (enforce_size_constraints (100 * 50))"
proof (rule carm_calloc_zeroed [OF sim_env_laws sim_start_inv])
  show "far_range sim_view (sim_start (\<lambda>_. 7)) (aspace_start (sim_start (\<lambda>_. 7)))
      (enforce_size_constraints (100 * 50))"
    using sim_start_far [of 0 "enforce_size_constraints (100 * 50)" "\<lambda>_. 7"]
    by (simp add: sim_start_def enforce_size_constraints_def config_defs)
qed (simp_all add: sim_heap_ok, simp_all add: sim_start_def fits_def START_ADDR_def
    enforce_size_constraints_def config_defs MAX_WALK_def)

text \<open>An aligned field of an aligned block.\<close>

lemma field_one_object:
  assumes "2 ^ 60 \<le> unat p" "w \<in> {1, 2, 4, 8}" "unat k mod w = 0"
    and "unat p mod 8 = 0" "unat p + unat k + w < 2 ^ 61"
  shows "unat (off_of (p + k)) + w \<le> 4096 \<and> (\<forall>j<w. obj_of (p + k + of_nat j) = obj_of (p + k))"
proof -
  have num: "unat ((p + d) XOR CARM_PTR) = unat p - 2 ^ 60 + unat d" if "unat p + unat d < 2 ^ 61" for d
  proof -
    have u: "unat (p + d) = unat p + unat d" using that by (intro unat_add_no_wrap) simp
    then have c: "check_carm_object (p + d)" using assms(1) that by (intro check_between) simp_all
    have "CARM_PTR \<le> p + d" using assms(1) u by (simp add: word_le_unat CARM_PTR_def)
    then show ?thesis using xor_CARM_sub [OF c] u assms(1) by (simp add: unat_sub_le) (simp add: CARM_PTR_def)
  qed
  let ?x = "unat p - 2 ^ 60 + unat k"
  have w8: "w dvd 8" "0 < w" using assms(2) by auto
  have "8 dvd unat p - 2 ^ 60" using assms(4) by (intro dvd_diff_nat) (simp_all add: mod_0_imp_dvd)
  then have "w dvd unat p - 2 ^ 60" using w8(1) by (rule dvd_trans [rotated])
  then have x: "w dvd ?x" using mod_0_imp_dvd [OF assms(3)] by (rule dvd_add)
  have w4: "w dvd 4096" using w8(1) by (rule dvd_trans) simp
  have "w dvd ?x mod 4096" using x w4 by (simp add: dvd_mod)
  then obtain q r where q: "?x mod 4096 = w * q" "4096 = w * r" using w4 by (metis dvdE)
  have "w * q < w * r" unfolding q [symmetric] by simp
  then have "w * (q + 1) \<le> w * r" using w8(2) by (intro mult_le_mono2) simp
  then have b: "?x mod 4096 + w \<le> 4096" using q by simp
  moreover have "obj_of (p + k + of_nat j) = obj_of (p + k)" if j: "j < w" for j
  proof -
    have jn: "unat (of_nat j :: u64) = j" using j assms(2) by (auto simp: unat_of_nat)
    have k: "unat (k + of_nat j) = unat k + j"
      using assms(5) j by (subst unat_add_no_wrap) (simp_all add: jn)
    have "?x mod 4096 + j < 4096" using b j by simp
    then have "(?x + j) div 4096 = ?x div 4096" using div_add1_eq [of ?x j 4096] by simp
    then show ?thesis
      using num [of k] num [of "k + of_nat j"] assms(5) j
      by (intro word_unat_eq_iff [THEN iffD2]) (simp add: unat_obj_of k add.assoc [symmetric])
  qed
  ultimately show ?thesis using num [of k] assms(5) by (simp add: unat_off_of)
qed

text \<open>
  C16: from start-up on, every malloc rounds its request so that an aligned scalar field of 1, 2,
  4 or 8 bytes, in any block of any sequence of requests, lies in one object: all its bytes have
  the object of the first, so one guard covers the access.
\<close>

theorem aligned_field_in_object:
  assumes "carm_rt s" "\<not> carm_mtx s" "aspace_start s = START_ADDR" "allocation_map s = Map.empty"
    and "need_all (\<lambda>n. n) sizes < 2 ^ 60"
  shows "\<exists>ps s'. alloc_all (carm_remote_malloc E) sizes s = Done (ps, s') \<and> length ps = length sizes \<and>
    (\<forall>i w k. i < length sizes \<and> w \<in> {1, 2, 4, 8} \<and> unat k mod w = 0 \<and>
       unat k + w \<le> unat (sizes ! i) \<longrightarrow>
       unat (off_of (ps ! i + k)) + w \<le> 4096 \<and>
       (\<forall>j<w. obj_of (ps ! i + k + of_nat j) = obj_of (ps ! i + k)))"
proof -
  have ok: "heap_ok s"
    using assms(3,4)
    by (simp add: heap_ok_def blocks_below_def blocks_apart_def START_ADDR_def check_carm_object_def CARM_PTR_def)
  have start: "unat (aspace_start s) = 2 ^ 60" by (simp add: assms(3) START_ADDR_def)
  obtain ps s' where run: "alloc_all (carm_remote_malloc E) sizes s = Done (ps, s')"
    using mallocs_return assms(1,2) by blast
  have "unat (aspace_start s) + need_all (\<lambda>n. n) sizes < 2 ^ 61" using start assms(5) by simp
  note chain = ma.alloc_all_chain [OF run assms(1) ok this]
  have field: "unat (off_of (ps ! i + k)) + w \<le> 4096 \<and> (\<forall>j<w. obj_of (ps ! i + k + of_nat j) = obj_of (ps ! i + k))"
    if i: "i < length sizes" and w: "w \<in> {1, 2, 4, 8}" "unat k mod w = 0" "unat k + w \<le> unat (sizes ! i)" for i w k
  proof (rule field_one_object [OF _ w(1,2)])
    have "unat (ps ! i) + unat (sizes ! i) < 2 ^ 61"
      using ma.alloc_all_bound [OF run assms(1) ok _ i] start assms(5) by simp
    with w(3) show "unat (ps ! i) + unat k + w < 2 ^ 61" by simp
    show "2 ^ 60 \<le> unat (ps ! i)" "unat (ps ! i) mod 8 = 0" using chain start i by auto
  qed
  have "length ps = length sizes" using chain by simp
  moreover have "\<forall>i w k. i < length sizes \<and> w \<in> {1, 2, 4, 8} \<and> unat k mod w = 0 \<and>
       unat k + w \<le> unat (sizes ! i) \<longrightarrow>
       unat (off_of (ps ! i + k)) + w \<le> 4096 \<and> (\<forall>j<w. obj_of (ps ! i + k + of_nat j) = obj_of (ps ! i + k))"
    by (intro allI impI, elim conjE) (rule field)
  ultimately show ?thesis using run by (intro exI conjI)
qed

theorem aligned_field_in_object_witness:
  "\<exists>ps s'. alloc_all (carm_remote_malloc sim_ops) [5, 4100, 16] (sim_start (\<lambda>_. 0)) = Done (ps, s') \<and>
    length ps = length [5, 4100, 16 :: u64] \<and>
    (\<forall>i w k. i < length [5, 4100, 16 :: u64] \<and> w \<in> {1, 2, 4, 8} \<and> unat k mod w = 0 \<and>
       unat k + w \<le> unat ([5, 4100, 16 :: u64] ! i) \<longrightarrow>
       unat (off_of (ps ! i + k)) + w \<le> 4096 \<and>
       (\<forall>j<w. obj_of (ps ! i + k + of_nat j) = obj_of (ps ! i + k)))"
  by (rule aligned_field_in_object) (simp_all add: sim_start_def need_all_def)

end
