(* ===== verification/Free_Props.thy ===== *)
theory Free_Props
  imports Alloc_Props
begin

text \<open>
  \<open>carm_free\<close>: it always ends, aborts on a double free of a whole object, and otherwise
  credits every object of the block with exactly its bytes, recycling those that are free
  altogether.
\<close>

section \<open>Bytes of a block in an object\<close>

definition overlap :: "nat \<Rightarrow> nat \<Rightarrow> nat \<Rightarrow> nat" where
  "overlap a n i = min (a + n) (4096 * i + 4096) - max a (4096 * i)"

lemma object_cases:
  fixes a j :: nat
  obtains q m where "a = 4096 * q + m" "m < 4096" "a div 4096 = q" "a mod 4096 = m"
    "j < q \<longrightarrow> 4096 * j + 4096 \<le> 4096 * q" "q < j \<longrightarrow> 4096 * q + 4096 \<le> 4096 * j"
  by (rule that [of "a div 4096" "a mod 4096"]) simp_all

lemma overlap_last:
  assumes "a mod 4096 + n \<le> 4096"
  shows "overlap a n j = (if j = a div 4096 then n else 0)"
proof -
  obtain q m where a: "a = 4096 * q + m" "m < 4096" "a div 4096 = q" "a mod 4096 = m"
    "j < q \<longrightarrow> 4096 * j + 4096 \<le> 4096 * q" "q < j \<longrightarrow> 4096 * q + 4096 \<le> 4096 * j"
    by (rule object_cases [of a j])
  show ?thesis
    using assms a unfolding a(3,4)
    by (cases rule: linorder_cases [of j q]) (simp_all add: overlap_def min_def max_def)
qed

lemma overlap_step:
  assumes "a mod 4096 + c = 4096" "c < n"
  shows "overlap a n j = (if j = a div 4096 then c else overlap (a + c) (n - c) j)"
proof -
  obtain q m where a: "a = 4096 * q + m" "m < 4096" "a div 4096 = q" "a mod 4096 = m"
    "j < q \<longrightarrow> 4096 * j + 4096 \<le> 4096 * q" "q < j \<longrightarrow> 4096 * q + 4096 \<le> 4096 * j"
    by (rule object_cases [of a j])
  show ?thesis
    using assms a unfolding a(3,4)
    by (cases rule: linorder_cases [of j q]) (auto simp: overlap_def min_def max_def add.assoc)
qed

section \<open>The loop\<close>

lemma free_counter:
  assumes "freed < sz" "unat sz + 4096 < 2 ^ 64" "unat (ch :: u32) \<le> 4096"
  shows "unat (freed + ucast ch :: u64) = unat freed + unat ch"
  using assms by (subst unat_add_no_wrap) (simp_all add: word_less_unat)

lemma unat_OBJ: "unat (ucast OBJ_SIZE :: u32) = 4096"
  by (simp add: OBJ_SIZE_def)

text \<open>The loop ends, and never by \<open>exit\<close>.\<close>

lemma free_loop_ends:
  assumes "unat sz + 4096 < 2 ^ 64" "0 < unat ch" "unat ch \<le> 4096"
    and "unat sz - unat freed + (4096 - unat ch) < f * 4096"
  shows "free_loop (Suc f) E sz freed ch i s \<noteq> OutOfFuel \<and>
    free_loop (Suc f) E sz freed ch i s \<noteq> Exited"
  using assms
proof (induction f arbitrary: freed ch i s)
  case (Suc f)
  show ?case
  proof (cases "freed < sz")
    case True
    note c = free_counter [OF True Suc.prems(1,3)]
    have "free_loop (Suc f) E sz (freed + ucast ch) (ucast OBJ_SIZE) j t \<noteq> OutOfFuel \<and>
        free_loop (Suc f) E sz (freed + ucast ch) (ucast OBJ_SIZE) j t \<noteq> Exited" for j t
    proof (cases "freed + ucast ch < sz")
      case more: True
      have "unat sz - unat (freed + ucast ch) + (4096 - unat (ucast OBJ_SIZE :: u32)) < f * 4096"
        using Suc.prems(3,4) more unfolding c unat_OBJ word_less_unat mult_Suc by linarith
      then show ?thesis using Suc.prems(1) unat_OBJ by (intro Suc.IH) simp_all
    qed simp
    moreover have "valid_size ch" using Suc.prems(2) by (auto simp: valid_size_def)
    ultimately show ?thesis
      using True unfolding free_loop.simps(2) [of "Suc f"]
      by (simp add: Let_def update_object_list_def del: free_loop.simps split: slot.split)
  qed simp
qed simp

text \<open>What a step of the source's list update does.\<close>

lemma update_object_list_Done:
  assumes "ptrs s i = Obj h" "total_obj_cnt s < TOTAL_OBJECTS"
  shows "update_object_list E i s = Done (s\<lparr>ptrs := (ptrs s)(total_obj_cnt s := Obj h),
           env := e_set_index E h (total_obj_cnt s) (env s), total_obj_cnt := total_obj_cnt s + 1\<rparr>)"
  using assms by (simp add: update_object_list_def Let_def)

text \<open>What a completed free leaves alone, and the credit of every object.\<close>

definition credited :: "nat \<Rightarrow> nat \<Rightarrow> 'e rt \<Rightarrow> 'e rt \<Rightarrow> bool" where
  "credited a n s s' \<longleftrightarrow>
     (\<forall>j. unat (free_list_map s' j) = unat (free_list_map s j) + overlap a n (unat j)) \<and>
     mem s' = mem s \<and> carm_mtx s' = carm_mtx s \<and> allocation_map s' = allocation_map s \<and>
     aspace_start s' = aspace_start s \<and>
     (\<forall>j < total_obj_cnt s. ptrs s' j = ptrs s j)"

definition creditable :: "nat \<Rightarrow> nat \<Rightarrow> 'e rt \<Rightarrow> bool" where
  "creditable a n s \<longleftrightarrow>
     (\<forall>j. unat (free_list_map s j) + overlap a n (unat j) \<le> 4096 \<and>
       (unat (free_list_map s j) + overlap a n (unat j) = 4096 \<and> 0 < overlap a n (unat j) \<longrightarrow>
          (\<exists>h. ptrs s j = Obj h))) \<and>
     a + n \<le> 4096 * unat (total_obj_cnt s) \<and>
     unat (total_obj_cnt s) + (n + a mod 4096) div 4096 + 1 \<le> unat TOTAL_OBJECTS"

text \<open>One object of the block.\<close>

lemma overlap_fits: "overlap a n j \<le> 4096" by (simp add: overlap_def)

lemma credit_one:
  assumes "creditable a n s" "unat i = a div 4096" "unat m = overlap a n (a div 4096)"
  shows "unat (free_list_map (account i m s) i) = unat (free_list_map s i) + unat m"
    "unat (free_list_map (account i m s) i) \<le> 4096"
proof -
  have "unat (free_list_map s i) + unat m \<le> 4096"
    using assms unfolding creditable_def by metis
  moreover from this have "unat (free_list_map s i + m) = unat (free_list_map s i) + unat m"
    by (intro unat_add_no_wrap) simp
  ultimately show "unat (free_list_map (account i m s) i) = unat (free_list_map s i) + unat m"
    "unat (free_list_map (account i m s) i) \<le> 4096"
    by (simp_all add: account_def)
qed

lemma overlap_behind: "a mod 4096 + c = 4096 \<Longrightarrow> overlap (a + c) n (a div 4096) = 0"
proof -
  assume c: "a mod 4096 + c = 4096"
  have "a + c = 4096 * (a div 4096) + 4096"
    using c mult_div_mod_eq [of 4096 a] by linarith
  then show ?thesis by (simp add: overlap_def)
qed

lemma overlap_touch: "0 < overlap a n j \<Longrightarrow> a + n \<le> 4096 * t \<Longrightarrow> j < t"
  by (simp add: overlap_def)

text \<open>The state after one object: its credit, and its recycling when it is full.\<close>

definition recycle :: "'e env_ops \<Rightarrow> u64 \<Rightarrow> 'e rt \<Rightarrow> 'e rt" where
  "recycle E i s =
     (if free_list_map s i = OBJ_SIZE
      then case ptrs s i of
             Obj h \<Rightarrow> s\<lparr>ptrs := (ptrs s)(total_obj_cnt s := Obj h),
               env := e_set_index E h (total_obj_cnt s) (env s), total_obj_cnt := total_obj_cnt s + 1\<rparr>
           | _ \<Rightarrow> s
      else s)"

lemma recycle_fields [simp]:
  "free_list_map (recycle E i s) = free_list_map s" "mem (recycle E i s) = mem s"
  "carm_mtx (recycle E i s) = carm_mtx s" "allocation_map (recycle E i s) = allocation_map s"
  "aspace_start (recycle E i s) = aspace_start s"
  by (simp_all add: recycle_def split: slot.split)

lemma recycle_tables:
  "j < total_obj_cnt s \<Longrightarrow> ptrs (recycle E i s) j = ptrs s j"
  "total_obj_cnt s < TOTAL_OBJECTS \<Longrightarrow> unat (total_obj_cnt s) \<le> unat (total_obj_cnt (recycle E i s)) \<and>
     unat (total_obj_cnt (recycle E i s)) \<le> unat (total_obj_cnt s) + 1"
proof -
  show "j < total_obj_cnt s \<Longrightarrow> ptrs (recycle E i s) j = ptrs s j"
    by (auto simp: recycle_def split: slot.split)
  assume "total_obj_cnt s < TOTAL_OBJECTS"
  then have "unat (total_obj_cnt s + 1) = unat (total_obj_cnt s) + 1"
    by (subst unat_add_no_wrap) (simp_all add: word_less_unat TOTAL_OBJECTS_def)
  then show "unat (total_obj_cnt s) \<le> unat (total_obj_cnt (recycle E i s)) \<and>
     unat (total_obj_cnt (recycle E i s)) \<le> unat (total_obj_cnt s) + 1"
    by (simp add: recycle_def split: slot.split)
qed

lemma account_fields [simp]:
  "mem (account i m s) = mem s" "carm_mtx (account i m s) = carm_mtx s"
  "allocation_map (account i m s) = allocation_map s" "ptrs (account i m s) = ptrs s"
  "aspace_start (account i m s) = aspace_start s" "env (account i m s) = env s"
  "total_obj_cnt (account i m s) = total_obj_cnt s"
  "j \<noteq> i \<Longrightarrow> free_list_map (account i m s) j = free_list_map s j"
  by (simp_all add: account_def)

lemma creditable_room:
  assumes "creditable a n s" "0 < n" "unat i = a div 4096"
  shows "i < total_obj_cnt s" "total_obj_cnt s < TOTAL_OBJECTS" "i < TOTAL_OBJECTS"
proof -
  have "a < 4096 * unat (total_obj_cnt s)" using assms(1,2) by (simp add: creditable_def)
  then have "a div 4096 < unat (total_obj_cnt s)"
    by (simp add: less_mult_imp_div_less mult.commute)
  then show i: "i < total_obj_cnt s" using assms(3) by (simp add: word_less_unat)
  show t: "total_obj_cnt s < TOTAL_OBJECTS"
    using assms(1) by (simp add: creditable_def word_less_unat)
  show "i < TOTAL_OBJECTS" using i t by (rule less_trans)
qed

lemma overlap_head:
  assumes "a mod 4096 + c = 4096"
  shows "overlap a n (a div 4096) = min c n"
proof (cases "c < n")
  case True
  with overlap_step [OF assms True] show ?thesis by simp
next
  case False
  with assms have "a mod 4096 + n \<le> 4096" by linarith
  from overlap_last [OF this] False show ?thesis by simp
qed

lemma creditable_rest:
  assumes cr: "creditable a n s" and c: "a mod 4096 + c = 4096" and cn: "c < n"
    and fm: "\<And>j. unat (free_list_map t j) = unat (free_list_map s j) + overlap a c (unat j)"
    and old: "\<And>j. j < total_obj_cnt s \<Longrightarrow> ptrs t j = ptrs s j"
    and cnt: "unat (total_obj_cnt s) \<le> unat (total_obj_cnt t)"
      "unat (total_obj_cnt t) \<le> unat (total_obj_cnt s) + 1"
  shows "creditable (a + c) (n - c) t"
  unfolding creditable_def
proof (intro conjI allI)
  have ov: "overlap (a + c) (n - c) j = (if j = a div 4096 then 0 else overlap a n j)" for j
    using overlap_step [OF c cn, of j] overlap_behind [OF c] by simp
  have om: "overlap a c j = (if j = a div 4096 then c else 0)" for j
    by (rule overlap_last) (simp add: c)
  fix j
  have eq: "unat (free_list_map t j) + overlap (a + c) (n - c) (unat j) =
      unat (free_list_map s j) + overlap a n (unat j)"
    using fm [of j] om ov cn overlap_head [OF c, of n] by simp
  with cr show "unat (free_list_map t j) + overlap (a + c) (n - c) (unat j) \<le> 4096"
    by (simp add: creditable_def)
  show "unat (free_list_map t j) + overlap (a + c) (n - c) (unat j) = 4096 \<and>
      0 < overlap (a + c) (n - c) (unat j) \<longrightarrow> (\<exists>h. ptrs t j = Obj h)"
  proof (intro impI, elim conjE)
    assume f: "unat (free_list_map t j) + overlap (a + c) (n - c) (unat j) = 4096"
      and t: "0 < overlap (a + c) (n - c) (unat j)"
    from t ov have "0 < overlap a n (unat j)" by (simp split: if_splits)
    moreover from this have "j < total_obj_cnt s"
      using cr overlap_touch by (simp add: creditable_def word_less_unat)
    ultimately show "\<exists>h. ptrs t j = Obj h" using cr f eq old [of j] by (simp add: creditable_def)
  qed
  show "a + c + (n - c) \<le> 4096 * unat (total_obj_cnt t)"
    using cr cnt cn by (simp add: creditable_def)
  have "(n + a mod 4096) div 4096 = (n - c) div 4096 + 1"
    using c cn by (subst div_add_self2 [symmetric]) (auto intro: arg_cong [where f = "\<lambda>x. x div 4096"])
  moreover have "(a + c) mod 4096 = 0" using c by (simp add: mod_add_left_eq [of a 4096 c, symmetric])
  ultimately show "unat (total_obj_cnt t) + (n - c + (a + c) mod 4096) div 4096 + 1 \<le> unat TOTAL_OBJECTS"
    using cr cnt by (simp add: creditable_def)
qed

lemma credit_step:
  assumes cr: "creditable a n s" and n: "0 < n" and i: "unat i = a div 4096"
    and c: "a mod 4096 + c = 4096" and m: "unat m = min c n"
  shows "i < TOTAL_OBJECTS" "\<not> OBJ_SIZE < free_list_map (account i m s) i"
    "free_list_map (account i m s) i = OBJ_SIZE \<Longrightarrow> \<exists>h. ptrs s i = Obj h"
    "total_obj_cnt s < TOTAL_OBJECTS"
    "credited a (min c n) s (recycle E i (account i m s))"
    "c < n \<Longrightarrow> creditable (a + c) (n - c) (recycle E i (account i m s))"
proof -
  let ?t = "recycle E i (account i m s)"
  note room = creditable_room [OF cr n i]
  show "i < TOTAL_OBJECTS" "total_obj_cnt s < TOTAL_OBJECTS" by (rule room)+
  have c0: "0 < c" using c mod_less_divisor [of 4096 a] by linarith
  have om: "overlap a (min c n) j = (if j = a div 4096 then min c n else 0)" for j
    by (rule overlap_last) (use c in simp)
  note on = overlap_head [OF c, of n]
  note one = credit_one [OF cr i, of m, unfolded on, OF m]
  show "\<not> OBJ_SIZE < free_list_map (account i m s) i"
    using one(2) by (simp add: word_less_unat OBJ_SIZE_def)
  show "\<exists>h. ptrs s i = Obj h" if "free_list_map (account i m s) i = OBJ_SIZE"
  proof -
    have "unat (free_list_map s i) + overlap a n (unat i) = 4096"
      using one(1) that m on i by (simp add: OBJ_SIZE_def)
    moreover have "0 < overlap a n (unat i)" using on i c0 n by simp
    ultimately show ?thesis using cr unfolding creditable_def by blast
  qed
  have fm: "unat (free_list_map ?t j) = unat (free_list_map s j) + overlap a (min c n) (unat j)" for j
  proof (cases "j = i")
    case False
    then have "unat j \<noteq> a div 4096" using i by (metis word_unat_eq_iff)
    with False om show ?thesis by simp
  qed (use one(1) m om i in simp)
  note tab = recycle_tables(1) [of _ "account i m s" E i] recycle_tables(2) [of "account i m s" E i]
  show "credited a (min c n) s ?t" using fm tab(1) by (simp add: credited_def)
  show "creditable (a + c) (n - c) ?t" if cn: "c < n"
    using fm cn tab room(2) by (intro creditable_rest [OF cr c cn]) (auto simp: min_def)
qed

lemma credited_trans:
  assumes "credited a m s t" "credited (a + m) (n - m) t s'" "m \<le> n"
    and "unat (total_obj_cnt s) \<le> unat (total_obj_cnt t)"
    and "\<And>j. overlap a n j = overlap a m j + overlap (a + m) (n - m) j"
  shows "credited a n s s'"
  using assms by (auto simp: credited_def word_less_unat)

lemma overlap_split:
  "a mod 4096 + c = 4096 \<Longrightarrow> c < n \<Longrightarrow> overlap a n j = overlap a c j + overlap (a + c) (n - c) j"
  using overlap_step [of a c n j] overlap_last [of a c j] overlap_behind [of a c "n - c"] by simp

text \<open>One round of the loop, when nothing stops it.\<close>

lemma free_round:
  fixes sz :: u64
  assumes "freed < sz" "valid_size ch" "i < TOTAL_OBJECTS" "total_obj_cnt s < TOTAL_OBJECTS"
  defines "m \<equiv> if freed + ucast ch < sz then ucast ch else sz - freed"
  assumes "\<not> OBJ_SIZE < free_list_map (account i m s) i"
    and "free_list_map (account i m s) i = OBJ_SIZE \<Longrightarrow> \<exists>h. ptrs s i = Obj h"
  shows "free_loop (Suc f) E sz freed ch i s =
    free_loop f E sz (freed + ucast ch) (ucast OBJ_SIZE) (i + 1) (recycle E i (account i m s))"
proof (cases "free_list_map (account i m s) i = OBJ_SIZE")
  case full: True
  from assms(7) [OF full] obtain h where "ptrs s i = Obj h" by blast
  with assms(1-4,6) full show ?thesis
    unfolding free_loop.simps(2) m_def
    by (simp add: Let_def update_object_list_Done recycle_def del: free_loop.simps)
next
  case False
  with assms(1-4,6) show ?thesis
    unfolding free_loop.simps(2) m_def
    by (simp add: Let_def recycle_def del: free_loop.simps)
qed

text \<open>The numbers of a round: \<open>c\<close> bytes are left in the object, \<open>n\<close> in the block.\<close>

lemma round_numbers:
  fixes sz :: u64
  assumes "unat sz + 4096 < 2 ^ 64" "freed < sz" "unat ch = 4096 - a mod 4096" "n = unat sz - unat freed"
  shows "a mod 4096 + unat ch = 4096" "0 < unat ch" "valid_size ch"
    "unat (freed + ucast ch) = unat freed + unat ch" "freed + ucast ch < sz \<longleftrightarrow> unat ch < n"
    "unat (if freed + ucast ch < sz then ucast ch else sz - freed) = min (unat ch) n" "0 < n"
proof -
  show c: "a mod 4096 + unat ch = 4096" "0 < unat ch"
    using assms(3) mod_less_divisor [of 4096 a] by simp_all
  then show "valid_size ch" by (auto simp: valid_size_def)
  show fc: "unat (freed + ucast ch) = unat freed + unat ch"
    using free_counter [OF assms(2,1)] c(1) by simp
  show more: "freed + ucast ch < sz \<longleftrightarrow> unat ch < n"
    using fc assms(2,4) by (auto simp: word_less_unat)
  show "unat (if freed + ucast ch < sz then ucast ch else sz - freed) = min (unat ch) n"
    using more assms(2,4)
    by (auto simp: unat_sub_le [OF less_imp_le [OF assms(2)]] word_less_unat min_def)
  show "0 < n" using assms(2,4) by (simp add: word_less_unat)
qed

lemma next_index:
  assumes "i < TOTAL_OBJECTS" "unat i = a div 4096" "a mod 4096 + c = 4096"
  shows "unat (i + 1) = (a + c) div 4096" "(a + c) mod 4096 = 0"
proof -
  have "unat (i + 1) = unat i + 1"
    using assms(1) by (subst unat_add_no_wrap) (simp_all add: word_less_unat TOTAL_OBJECTS_def)
  then show "unat (i + 1) = (a + c) div 4096" using div_mod_next(1) [OF assms(3)] assms(2) by simp
  show "(a + c) mod 4096 = 0" by (rule div_mod_next(2) [OF assms(3)])
qed

lemma free_loop_credits:
  assumes "unat sz + 4096 < 2 ^ 64" "freed \<le> sz"
    and "unat i = a div 4096" "unat ch = 4096 - a mod 4096" "n = unat sz - unat freed"
    and "0 < n \<Longrightarrow> creditable a n s" "n + a mod 4096 < f * 4096"
  shows "\<exists>s'. free_loop (Suc f) E sz freed ch i s = Done s' \<and> credited a n s s'"
  using assms
proof (induction f arbitrary: freed ch i s a n)
  case (Suc f)
  have am: "a mod 4096 < 4096" by simp
  show ?case
  proof (cases "freed < sz")
    case False
    with Suc.prems(5) have "n = 0" by (simp add: word_less_unat)
    then have "overlap a n j = 0" for j using overlap_last [of a 0 j] am by simp
    with False show ?thesis by (simp add: credited_def)
  next
    case True
    define c where "c = unat ch"
    note num = round_numbers [OF Suc.prems(1) True Suc.prems(4,5), folded c_def]
    let ?m = "if freed + ucast ch < sz then ucast ch else sz - freed"
    let ?t = "recycle E i (account i ?m s)"
    note step = credit_step [OF Suc.prems(6) [OF num(7)] num(7) Suc.prems(3) num(1,6)]
    note run = free_round [OF True num(3) step(1,4,2,3), of "Suc f" E]
    note nxt = next_index [OF step(1) Suc.prems(3) num(1)]
    have IH: "\<exists>s'. free_loop (Suc f) E sz (freed + ucast ch) (ucast OBJ_SIZE) (i + 1) ?t = Done s' \<and>
        credited (a + c) (n - c) ?t s'" if cn: "c < n"
      using nxt step(6) cn Suc.prems(1,5,7) num(1,4,5) unat_OBJ
      by (intro Suc.IH) simp_all
    show ?thesis
    proof (cases "c < n")
      case True
      from IH [OF True] obtain s' where
        s': "free_loop (Suc f) E sz (freed + ucast ch) (ucast OBJ_SIZE) (i + 1) ?t = Done s'"
          "credited (a + c) (n - c) ?t s'" by blast
      have "credited a c s ?t" using step(5) True by (simp add: min_def)
      from credited_trans [OF this s'(2)] True overlap_split [OF num(1) True]
        recycle_tables(2) [of "account i ?m s" E i] step(4)
      have "credited a n s s'" by simp
      with run s'(1) show ?thesis by simp
    next
      case False
      then have mn: "min c n = n" by simp
      have "credited a n s ?t" using step(5) unfolding mn .
      moreover have "free_loop (Suc f) E sz (freed + ucast ch) (ucast OBJ_SIZE) (i + 1) ?t = Done ?t"
        using False num(5) by simp
      ultimately show ?thesis using run by simp
    qed
  qed
qed simp

text \<open>The first object of the block that would hold more free bytes than it has.\<close>

lemma overfull_first:
  fixes sz :: u64
  assumes "freed < sz" "valid_size ch" "i < TOTAL_OBJECTS"
  defines "m \<equiv> if freed + ucast ch < sz then ucast ch else sz - freed"
  assumes "unat (free_list_map s i) \<le> 4096" "4096 < unat (free_list_map s i) + unat m" "unat m \<le> 4096"
  shows "free_loop (Suc f) E sz freed ch i s = Aborted"
proof -
  have "unat (free_list_map s i + m) = unat (free_list_map s i) + unat m"
    using assms(5,7) by (intro unat_add_no_wrap) simp
  then have "OBJ_SIZE < free_list_map (account i m s) i"
    using assms(6) by (simp add: account_def word_less_unat OBJ_SIZE_def)
  then show ?thesis
    using assms(1-3) unfolding free_loop.simps(2) m_def
    by (auto simp: Let_def simp del: free_loop.simps)
qed

lemma free_loop_aborts:
  assumes "unat sz + 4096 < 2 ^ 64" "freed \<le> sz"
    and "unat i = a div 4096" "unat ch = 4096 - a mod 4096" "n = unat sz - unat freed"
    and "j < TOTAL_OBJECTS" "unat (free_list_map s j) \<le> 4096"
    and "4096 < unat (free_list_map s j) + overlap a n (unat j)"
    and "a < 4096 * unat j \<Longrightarrow> creditable a (4096 * unat j - a) s" "n + a mod 4096 < f * 4096"
  shows "free_loop (Suc f) E sz freed ch i s = Aborted"
  using assms
proof (induction f arbitrary: freed ch i s a n)
  case (Suc f)
  define c where "c = unat ch"
  have "0 < overlap a n (unat j)" using Suc.prems(7,8) by linarith
  then have on: "0 < n" "a < 4096 * unat j + 4096" "4096 * unat j < a + n" by (simp_all add: overlap_def)
  have True: "freed < sz" using on(1) Suc.prems(5) by (simp add: word_less_unat)
  note num = round_numbers [OF Suc.prems(1) True Suc.prems(4,5), folded c_def]
  let ?m = "if freed + ucast ch < sz then ucast ch else sz - freed"
  have ac: "a + c = 4096 * (a div 4096) + 4096" using num(1) mult_div_mod_eq [of 4096 a] by linarith
  show ?case
  proof (cases "a div 4096 = unat j")
    case True
    then have ij: "i = j" using Suc.prems(3) by (simp add: word_unat_eq_iff)
    have "overlap a n (unat j) = min c n" using overlap_head [OF num(1), of n] True by simp
    with \<open>freed < sz\<close> num(1,3,6) Suc.prems(6-8) show ?thesis unfolding ij by (intro overfull_first) simp_all
  next
    case False
    have "a div 4096 < unat j + 1" using on(2) by (simp add: less_mult_imp_div_less)
    with False have lt: "a div 4096 < unat j" by simp
    then have le: "a + c \<le> 4096 * unat j" unfolding ac by linarith
    with num(2) have aj: "a < 4096 * unat j" by linarith
    have cn: "c < n" using le on(3) by linarith
    let ?n = "4096 * unat j - a"
    have m': "unat ?m = min c ?n" using num(6) cn le by simp
    have "0 < ?n" using aj by simp
    note step = credit_step [OF Suc.prems(9) [OF aj] this Suc.prems(3) num(1) m']
    note run = free_round [OF \<open>freed < sz\<close> num(3) step(1,4,2,3), of "Suc f" E]
    let ?t = "recycle E i (account i ?m s)"
    have "i \<noteq> j" using False Suc.prems(3) by auto
    then have fl: "free_list_map ?t j = free_list_map s j" by simp
    have ovj: "overlap (a + c) (n - c) (unat j) = overlap a n (unat j)"
      using overlap_step [OF num(1) cn, of "unat j"] False by simp
    note nxt = next_index [OF step(1) Suc.prems(3) num(1)]
    have fuel: "n - c + (a + c) mod 4096 < f * 4096" using Suc.prems(10) num(1) cn nxt(2) by simp
    have "free_loop (Suc f) E sz (freed + ucast ch) (ucast OBJ_SIZE) (i + 1) ?t = Aborted"
    proof (rule Suc.IH [of _ _ "a + c" _ "n - c"])
      show "creditable (a + c) (4096 * unat j - (a + c)) ?t" if "a + c < 4096 * unat j"
        using step(6) that by (simp add: diff_diff_left)
      show "n - c + (a + c) mod 4096 < f * 4096" by (rule fuel)
    qed (use Suc.prems(1,5-8) nxt fl ovj unat_OBJ num(1,4,5) cn in \<open>simp_all add: word_le_unat word_less_unat\<close>)
    with run show ?thesis by simp
  qed
qed simp

section \<open>What \<open>carm_free\<close> does\<close>

lemma free_fuel:
  "enough_fuel n = Suc (unat n div 4096 + 2)"
  "unat n + r < (unat n div 4096 + 2) * 4096" if "r < 4096"
  using that by (simp_all add: enough_fuel_def)

lemma carm_free_run:
  assumes "check_carm_object p" "carm_rt s" "\<not> carm_mtx s" "allocation_map s p = Some n"
  shows "carm_free f E p s = bindR (free_loop f E n 0 (ucast (room p)) (obj_of p) (s\<lparr>carm_mtx := True\<rparr>))
    (\<lambda>s. Done (unlock_mtx s))"
  using assms chunk_at [OF at_get [OF assms(1), of 0]] at_get [OF assms(1), of 0]
  by (simp add: carm_free_def lookup_size_def lock_mtx_def Let_def at_ptr_def)

text \<open>
  C14: \<open>carm_free\<close> of an allocated block ends: it returns with the mutex released, or aborts,
  or faults on the tables; it does not loop and does not exit.
\<close>

theorem carm_free_ends:
  assumes "check_carm_object p" "carm_rt s" "\<not> carm_mtx s" "allocation_map s p = Some n"
    and "unat n + 4096 < 2 ^ 64"
  shows "(\<exists>s'. carm_free (enough_fuel n) E p s = Done s' \<and> \<not> carm_mtx s') \<or>
    carm_free (enough_fuel n) E p s = Aborted \<or> carm_free (enough_fuel n) E p s = Faulted"
proof -
  let ?l = "free_loop (enough_fuel n) E n 0 (ucast (room p)) (obj_of p) (s\<lparr>carm_mtx := True\<rparr>)"
  have u: "unat (ucast (room p) :: u32) = 4096 - unat (off_of p)"
    by (simp only: unat_ucast_room unat_room)
  have "?l \<noteq> OutOfFuel \<and> ?l \<noteq> Exited"
    unfolding free_fuel(1) [OF unat_off_of_lt [of p]]
    using assms(5) free_fuel(2) [OF unat_off_of_lt [of p], of n] unat_off_of_lt [of p]
    by (intro free_loop_ends) (simp_all add: u)
  then show ?thesis
    unfolding carm_free_run [OF assms(1-4)] by (cases ?l) (simp_all add: unlock_mtx_def)
qed

text \<open>
  C13: freeing a block credits every object with exactly the bytes of the block it holds,
  keeps the program's memory and the size table, and releases the mutex.
\<close>

theorem carm_free_credits:
  assumes "check_carm_object p" "carm_rt s" "\<not> carm_mtx s" "allocation_map s p = Some n"
    and "unat n + 4096 < 2 ^ 64" "creditable (unat (p XOR CARM_PTR)) (unat n) s"
  shows "\<exists>s'. carm_free (enough_fuel n) E p s = Done s' \<and>
    credited (unat (p XOR CARM_PTR)) (unat n) s s' \<and> \<not> carm_mtx s'"
proof -
  let ?a = "unat (p XOR CARM_PTR)"
  have u: "unat (ucast (room p) :: u32) = 4096 - ?a mod 4096"
    by (simp only: unat_ucast_room unat_room unat_off_of)
  have "creditable ?a (unat n) (s\<lparr>carm_mtx := True\<rparr>)" using assms(6) by (simp add: creditable_def)
  then obtain t where t: "free_loop (enough_fuel n) E n 0 (ucast (room p)) (obj_of p)
      (s\<lparr>carm_mtx := True\<rparr>) = Done t" "credited ?a (unat n) (s\<lparr>carm_mtx := True\<rparr>) t"
    using free_loop_credits [of n 0 "obj_of p" ?a "ucast (room p)" "unat n" "s\<lparr>carm_mtx := True\<rparr>"
        "unat n div 4096 + 2" E] assms(5) u free_fuel(2) [of "?a mod 4096" n]
    unfolding free_fuel(1) [OF unat_off_of_lt [of p]] by (auto simp: unat_obj_of)
  then show ?thesis
    using assms(3) by (simp add: carm_free_run [OF assms(1-4)] credited_def unlock_mtx_def)
qed

text \<open>
  C15: a free that would credit some object of the block with more than its size is detected,
  wherever in the block that object is: once the objects before it have been credited, the free
  aborts.
\<close>

theorem carm_free_too_much:
  assumes "check_carm_object p" "carm_rt s" "\<not> carm_mtx s" "allocation_map s p = Some n"
    and "unat n + 4096 < 2 ^ 64" "j < TOTAL_OBJECTS" "unat (free_list_map s j) \<le> 4096"
    and "4096 < unat (free_list_map s j) + overlap (unat (p XOR CARM_PTR)) (unat n) (unat j)"
    and "unat (p XOR CARM_PTR) < 4096 * unat j \<Longrightarrow>
      creditable (unat (p XOR CARM_PTR)) (4096 * unat j - unat (p XOR CARM_PTR)) s"
  shows "carm_free (enough_fuel n) E p s = Aborted"
proof -
  let ?a = "unat (p XOR CARM_PTR)"
  have u: "unat (ucast (room p) :: u32) = 4096 - ?a mod 4096"
    by (simp only: unat_ucast_room unat_room unat_off_of)
  have "free_loop (enough_fuel n) E n 0 (ucast (room p)) (obj_of p) (s\<lparr>carm_mtx := True\<rparr>) = Aborted"
    unfolding free_fuel(1) [OF unat_off_of_lt [of p]]
  proof (rule free_loop_aborts [where a = ?a and n = "unat n" and j = j])
    show "?a < 4096 * unat j \<Longrightarrow> creditable ?a (4096 * unat j - ?a) (s\<lparr>carm_mtx := True\<rparr>)"
      using assms(9) by (simp add: creditable_def)
  qed (use assms(5-8) u free_fuel(2) [of "?a mod 4096" n] in \<open>simp_all add: unat_obj_of\<close>)
  then show ?thesis by (simp add: carm_free_run [OF assms(1-4)])
qed

text \<open>A process with one block of 5000 bytes.\<close>

definition sim_block :: "sim rt" where
  "sim_block = (sim_far (\<lambda>_. 0) (\<lambda>_ _. 0))\<lparr>allocation_map := [CARM_PTR \<mapsto> 5000]\<rparr>"

theorem carm_free_ends_witness:
  "(\<exists>s'. carm_free (enough_fuel 5000) sim_ops CARM_PTR sim_block = Done s' \<and> \<not> carm_mtx s') \<or>
    carm_free (enough_fuel 5000) sim_ops CARM_PTR sim_block = Aborted \<or>
    carm_free (enough_fuel 5000) sim_ops CARM_PTR sim_block = Faulted"
  by (rule carm_free_ends)
    (simp_all add: check_bit bit_CARM_PTR, simp_all add: sim_block_def sim_far_def sim_start_def)

theorem carm_free_credits_witness:
  "\<exists>s'. carm_free (enough_fuel 5000) sim_ops CARM_PTR sim_block = Done s' \<and>
    credited (unat (CARM_PTR XOR CARM_PTR)) (unat (5000 :: u64)) sim_block s' \<and> \<not> carm_mtx s'"
proof (rule carm_free_credits)
  have "\<exists>h. ptrs sim_block j = Obj h" if "0 < overlap 0 5000 (unat j)" for j
  proof -
    have "unat j < 2" using overlap_touch [OF that, of 2] by simp
    then show ?thesis by (simp add: sim_block_def sim_far_def word_less_unat)
  qed
  then show "creditable (unat (CARM_PTR XOR CARM_PTR)) (unat (5000 :: u64)) sim_block"
    using overlap_fits [of 0 5000]
    by (auto simp: creditable_def TOTAL_OBJECTS_def) (simp_all add: sim_block_def sim_far_def sim_start_def)
qed (simp_all add: check_bit bit_CARM_PTR, simp_all add: sim_block_def sim_far_def sim_start_def)

text \<open>A block over three objects of which the second has 4090 free bytes already.\<close>

theorem carm_free_too_much_witness:
  "carm_free (enough_fuel 10000) sim_ops CARM_PTR
    (sim_block\<lparr>allocation_map := [CARM_PTR \<mapsto> 10000], free_list_map := (\<lambda>i. if i = 1 then 4090 else 0)\<rparr>) = Aborted"
proof (rule carm_free_too_much [where n = 10000 and j = 1])
  let ?s = "sim_block\<lparr>allocation_map := [CARM_PTR \<mapsto> 10000], free_list_map := (\<lambda>i. if i = 1 then 4090 else 0)\<rparr>"
  have o: "overlap 0 4096 k = (if k = 0 then 4096 else 0)" for k by (simp add: overlap_last)
  have "\<exists>h. ptrs ?s 0 = Obj h" by (simp add: sim_block_def sim_far_def)
  then show "creditable (unat (CARM_PTR XOR CARM_PTR)) (4096 * unat (1 :: u64) - unat (CARM_PTR XOR CARM_PTR)) ?s"
    by (simp add: creditable_def o unat_eq_0 TOTAL_OBJECTS_def) (simp add: sim_block_def sim_far_def sim_start_def)
qed (simp_all add: check_bit bit_CARM_PTR overlap_def, simp_all add: sim_block_def sim_far_def sim_start_def TOTAL_OBJECTS_def)

end
