(* ===== verification/Loops.thy ===== *)
theory Loops
  imports Fast_Path
begin

text \<open>
  \<open>src/carm_loops.cpp\<close>: the state of the loops the compiler has rewritten. A loop is opened
  by \<open>carm_loop_init\<close>, which packs the loop number and the bytes left in the first object
  into one word; every object crossing calls \<open>carm_deref_loop_read\<close> or \<open>_write\<close>; the loop
  is closed by \<open>invalidate_loop_index\<close>. The tables have \<open>MAX_LOOPS\<close> entries; an index
  beyond them is \<open>Faulted\<close>, as is a use of \<open>carm_rt\<close> when it is null.
\<close>

section \<open>Operations\<close>

definition init_loops :: "'e rt \<Rightarrow> 'e rt" where
  "init_loops s = s\<lparr>loopstate := (\<lambda>i. if i < MAX_LOOPS then no_loop else loopstate s i)\<rparr>"

definition set_loop :: "u64 \<Rightarrow> carm_loop \<Rightarrow> 'e rt \<Rightarrow> 'e rt" where
  "set_loop i l s = s\<lparr>loopstate := (loopstate s)(i := l)\<rparr>"

text \<open>\<open>manager->invalidate_marked_region\<close>\<close>

definition unmark :: "'e env_ops \<Rightarrow> u64 \<Rightarrow> 'e rt \<Rightarrow> 'e rt" where
  "unmark E a s = s\<lparr>env := e_invalidate_region E a (env s)\<rparr>"

text \<open>Steps a remote loop: the common part of the two dereference functions.\<close>

definition loop_object ::
    "'e env_ops \<Rightarrow> (u64 \<Rightarrow> u64 \<Rightarrow> 'e rt \<Rightarrow> (u64 \<times> 'e rt) run) \<Rightarrow> u64 \<Rightarrow> 'e rt \<Rightarrow> (u64 \<times> 'e rt) run"
  where
  "loop_object E deref_sp loop_id s =
     (let l = loopstate s loop_id
      in if \<not> carm_rt s then Faulted
         else bindR (deref_sp (cl_obj_index l) (loop_id + 1) (unmark E (cl_region_addr l) s))
           (\<lambda>(loop_ptr, s).
              let marked = e_mark_region E loop_ptr (env s);
                  s = set_loop loop_id (l\<lparr>cl_region_addr := fst marked,
                        cl_obj_index := cl_obj_index l + cl_stride l\<rparr>) (s\<lparr>env := snd marked\<rparr>)
              in if cl_start_obj_index l = cl_obj_index l
                 then Done (loop_ptr + cl_start_obj_offset l, s)
                 else Done (loop_ptr, s)))"

definition loop_stack :: "u64 \<Rightarrow> 'e rt \<Rightarrow> (u64 \<times> 'e rt) run" where
  "loop_stack loop_id s =
     (let l = loopstate s loop_id
      in Done (cl_stack_addr l + cl_obj_index l * OBJ_SIZE,
               set_loop loop_id (l\<lparr>cl_obj_index := cl_obj_index l + 1\<rparr>) s))"

definition carm_deref_loop_write :: "'e env_ops \<Rightarrow> u64 \<Rightarrow> 'e rt \<Rightarrow> (u64 \<times> 'e rt) run" where
  "carm_deref_loop_write E loop_id s =
     (if loop_id < MAX_LOOPS
      then if cl_carm_ptr (loopstate s loop_id) then loop_object E (carm_deref_write_sp E) loop_id s
           else loop_stack loop_id s
      else Faulted)"

definition carm_deref_loop_read :: "'e env_ops \<Rightarrow> u64 \<Rightarrow> 'e rt \<Rightarrow> (u64 \<times> 'e rt) run" where
  "carm_deref_loop_read E loop_id s =
     (if loop_id < MAX_LOOPS
      then if cl_carm_ptr (loopstate s loop_id) then loop_object E (carm_deref_read_sp E) loop_id s
           else loop_stack loop_id s
      else Faulted)"

definition loop_stride :: "u64 \<Rightarrow> u64" where
  "loop_stride step_value_const =
     (if step_value_const = 0 then 0
      else if step_value_const < OBJ_SIZE then 1 else step_value_const div OBJ_SIZE)"

definition open_remote :: "ptr \<Rightarrow> u64 \<Rightarrow> carm_loop \<Rightarrow> carm_loop" where
  "open_remote src_addr step_value_const l =
     (let cp = get_carm_ptr src_addr 1
      in l\<lparr>cl_step_value_constant := (step_value_const = 0), cl_carm_start_addr := src_addr,
           cl_active := True, cl_carm_ptr := True, cl_obj_index := cp_obj_index cp,
           cl_region_addr := 0, cl_start_obj_index := cp_obj_index cp,
           cl_start_obj_offset := cp_offset cp, cl_stride := loop_stride step_value_const\<rparr>)"

definition open_stack :: "ptr \<Rightarrow> u64 \<Rightarrow> carm_loop \<Rightarrow> carm_loop" where
  "open_stack src_addr step_value_const l =
     l\<lparr>cl_step_value_constant := (step_value_const = 0), cl_stack_addr := src_addr,
       cl_active := True, cl_carm_ptr := False, cl_obj_index := 0, cl_region_addr := 0\<rparr>"

definition STACK_OBJ :: u64 where
  "STACK_OBJ = OBJ_SIZE + push_bit 40 512"

definition pack_loop :: "u64 \<Rightarrow> u64 \<Rightarrow> u64" where
  "pack_loop obj_s loop_id = obj_s OR push_bit LOOP_ID_POS loop_id"

definition carm_loop_init :: "'e env_ops \<Rightarrow> ptr \<Rightarrow> u64 \<Rightarrow> 'e rt \<Rightarrow> (u64 \<times> 'e rt) run" where
  "carm_loop_init E src_addr step_value_const s =
     (let i = loop_id_cnt s
      in if \<not> i < MAX_LOOPS then Faulted
         else if cl_active (loopstate s i) then Aborted
         else let cp = get_carm_ptr src_addr 1
              in bindR
                (if cp_is_carmptr cp
                 then let s = set_loop i (open_remote src_addr step_value_const (loopstate s i)) s
                      in if step_value_const = 0
                         then if carm_rt s
                              then bindR (carm_static_prefetch E (cp_obj_index cp) 1 8 (i + 1) s)
                                     (\<lambda>s. Done (OBJ_SIZE - cp_offset cp, s))
                              else Faulted
                         else Done (OBJ_SIZE - cp_offset cp, s)
                 else Done (STACK_OBJ, set_loop i (open_stack src_addr step_value_const (loopstate s i)) s))
                (\<lambda>(obj_s, s). Done (pack_loop obj_s i, s\<lparr>loop_id_cnt := loop_id_cnt s + 1\<rparr>)))"

definition close_loop :: "carm_loop \<Rightarrow> carm_loop" where
  "close_loop l =
     l\<lparr>cl_active := False, cl_static_prefetch := 0, cl_carm_ptr := False, cl_stack_addr := 0,
       cl_carm_start_addr := 0, cl_obj_index := 0, cl_start_obj_index := 0,
       cl_start_obj_offset := 0, cl_step_value_constant := False, cl_region_addr := 0\<rparr>"

definition invalidate_loop_index :: "'e env_ops \<Rightarrow> u64 \<Rightarrow> 'e rt \<Rightarrow> 'e rt run" where
  "invalidate_loop_index E loop_id s =
     (if \<not> loop_id < MAX_LOOPS then Faulted
      else let l = loopstate s loop_id
           in if cl_active l
              then if cl_carm_ptr l \<and> \<not> carm_rt s then Faulted
                   else let s = (if cl_carm_ptr l then unmark E (cl_region_addr l) s else s);
                            s = set_loop loop_id (close_loop l) s
                        in Done (if 0 < loop_id_cnt s then s\<lparr>loop_id_cnt := loop_id_cnt s - 1\<rparr> else s)
              else Done s)"

section \<open>The packed word\<close>

text \<open>The two fields the compiled loop extracts.\<close>

definition loop_id_of :: "u64 \<Rightarrow> u64" where "loop_id_of w = drop_bit LOOP_ID_POS w"
definition obj_left_of :: "u64 \<Rightarrow> u64" where "obj_left_of w = w AND LOOP_OBJ_MASK"

lemma mask_50: "LOOP_OBJ_MASK = mask 50"
  by (simp add: LOOP_OBJ_MASK_def mask_eq_exp_minus_1)

lemma high_bits:
  assumes "unat (x :: u64) < 2 ^ k" "k \<le> j"
  shows "\<not> bit x j"
proof
  assume b: "bit x j"
  then have "j < 64" using bit_imp_le_length [OF b] by simp
  have "unat x div 2 ^ j = 0"
    using assms by (intro div_less) (meson less_le_trans one_le_numeral power_increasing)
  then have "unat (drop_bit j x) = 0" by (simp only: unat_drop_bit_eq) (simp only: drop_bit_eq_div)
  then have "drop_bit j x = 0" by (simp only: unat_eq_0)
  with b show False by (simp add: bit_iff_odd_drop_bit)
qed

lemma pack_fields:
  assumes n: "unat n < 2 ^ 50" and i: "unat i < 2 ^ 14"
  shows "loop_id_of (pack_loop n i) = i" "obj_left_of (pack_loop n i) = n"
proof -
  have hi: "bit i k \<Longrightarrow> k < 14" and hn: "bit n k \<Longrightarrow> k < 50" for k
    using high_bits [OF i, of k] high_bits [OF n, of k] leI by blast+
  show "loop_id_of (pack_loop n i) = i"
    unfolding loop_id_of_def pack_loop_def LOOP_ID_POS_def
    by (rule bit_eqI) (use hi hn in \<open>fastforce simp: bit_simps\<close>)
  show "obj_left_of (pack_loop n i) = n"
    unfolding obj_left_of_def pack_loop_def mask_50 LOOP_ID_POS_def
    by (rule bit_eqI) (use hn in \<open>auto simp: bit_simps\<close>)
qed

section \<open>Opening a loop\<close>

definition obj_left :: "ptr \<Rightarrow> u64" where
  "obj_left p = (if check_carm_object p then room p else STACK_OBJ)"

lemma unat_obj_left: "unat (obj_left p) < 2 ^ 50"
  using unat_room_bounds(2) [of p] by (simp add: obj_left_def STACK_OBJ_def OBJ_SIZE_def)

text \<open>The loop table after a loop is opened.\<close>

definition opened :: "ptr \<Rightarrow> u64 \<Rightarrow> 'e rt \<Rightarrow> carm_loop" where
  "opened p step s =
     (if check_carm_object p then open_remote p step else open_stack p step)
       (loopstate s (loop_id_cnt s))"

lemma loop_init_Done:
  assumes "carm_loop_init E p step s = Done (w, s')"
  shows "loop_id_cnt s < MAX_LOOPS" "\<not> cl_active (loopstate s (loop_id_cnt s))"
    "w = pack_loop (obj_left p) (loop_id_cnt s)" "loop_id_cnt s' = loop_id_cnt s + 1"
    "loopstate s' = (loopstate s)(loop_id_cnt s := opened p step s)"
    "env s' = env s \<or> env s' = e_static_prefetch E (loop_id_cnt s + 1) (obj_of p) 1 8 (env s)"
    "ptrs s' = ptrs s" "mem s' = mem s" "obj_state s' = obj_state s" "carm_rt s' = carm_rt s"
  using assms at_get [of p 1]
  by (auto simp: carm_loop_init_def Let_def bindR_Done_iff carm_static_prefetch_def set_loop_def
      obj_left_def opened_def at_ptr_def room_def split: if_splits)

lemma loop_init_returns:
  assumes "loop_id_cnt s < MAX_LOOPS" "\<not> cl_active (loopstate s (loop_id_cnt s))" "carm_rt s"
  shows "\<exists>w s'. carm_loop_init E p step s = Done (w, s')"
proof -
  have "\<not> MAX_LOOPS < loop_id_cnt s + 1"
    using assms(1) by (simp add: MAX_LOOPS_def not_less) (meson inc_le)
  with assms show ?thesis
    by (auto simp: carm_loop_init_def Let_def carm_static_prefetch_def set_loop_def)
qed

text \<open>
  C25: opening a loop returns one word from which the compiled code recovers the loop number
  and the bytes up to the end of the first object; for a local pointer the byte count is too
  large to be reached.
\<close>

theorem carm_loop_init_word:
  assumes "loop_id_cnt s < MAX_LOOPS" "\<not> cl_active (loopstate s (loop_id_cnt s))" "carm_rt s"
  shows "\<exists>w s'. carm_loop_init E p step s = Done (w, s') \<and> loop_id_of w = loop_id_cnt s \<and>
    obj_left_of w = (if check_carm_object p then OBJ_SIZE - off_of p else OBJ_SIZE + 2 ^ 49) \<and>
    cl_active (loopstate s' (loop_id_of w)) \<and> loop_id_cnt s' = loop_id_cnt s + 1"
proof -
  obtain w s' where run: "carm_loop_init E p step s = Done (w, s')"
    using loop_init_returns [OF assms] by blast
  note d = loop_init_Done [OF run]
  have i: "unat (loop_id_cnt s) < 2 ^ 14" using assms(1) by (simp add: word_less_unat MAX_LOOPS_def)
  note f = pack_fields [OF unat_obj_left [of p] i, folded d(3)]
  have "obj_left p = (if check_carm_object p then OBJ_SIZE - off_of p else OBJ_SIZE + 2 ^ 49)"
    by (simp add: obj_left_def room_def STACK_OBJ_def)
  moreover have "cl_active (loopstate s' (loop_id_of w))"
    by (simp add: f d(5) opened_def open_remote_def open_stack_def Let_def)
  ultimately show ?thesis using run f d(4) by auto
qed

theorem carm_loop_init_word_witness:
  "\<exists>w s'. carm_loop_init sim_ops (CARM_PTR + 4000) 8 (sim_start (\<lambda>_. 0)) = Done (w, s') \<and>
    loop_id_of w = loop_id_cnt (sim_start (\<lambda>_. 0)) \<and>
    obj_left_of w = (if check_carm_object (CARM_PTR + 4000) then OBJ_SIZE - off_of (CARM_PTR + 4000)
                     else OBJ_SIZE + 2 ^ 49) \<and>
    cl_active (loopstate s' (loop_id_of w)) \<and> loop_id_cnt s' = loop_id_cnt (sim_start (\<lambda>_. 0)) + 1"
  by (rule carm_loop_init_word) (simp_all add: sim_start_def MAX_LOOPS_def no_loop_def)

section \<open>The loop numbers as a stack\<close>

text \<open>The active loops are the ones below the counter.\<close>

definition loops_nested :: "'e rt \<Rightarrow> bool" where
  "loops_nested s \<longleftrightarrow> loop_id_cnt s \<le> MAX_LOOPS \<and>
     (\<forall>i < MAX_LOOPS. cl_active (loopstate s i) \<longleftrightarrow> i < loop_id_cnt s)"

text \<open>What the compiled code does with the loop table, the last opened loop closed first.\<close>

inductive loop_step :: "'e env_ops \<Rightarrow> 'e rt \<Rightarrow> 'e rt \<Rightarrow> bool" for E where
  open_loop: "carm_loop_init E p step s = Done (w, s') \<Longrightarrow> loop_step E s s'"
| loop_read: "carm_deref_loop_read E i s = Done (a, s') \<Longrightarrow> loop_step E s s'"
| loop_write: "carm_deref_loop_write E i s = Done (a, s') \<Longrightarrow> loop_step E s s'"
| close_last: "0 < loop_id_cnt s \<Longrightarrow> invalidate_loop_index E (loop_id_cnt s - 1) s = Done s' \<Longrightarrow>
    loop_step E s s'"

inductive_cases loop_stepE: "loop_step E s s'"

lemma loop_object_keeps:
  assumes "loop_object E d i s = Done (a, s')"
    and "\<And>j t u v. d j (i + 1) t = Done (u, v) \<Longrightarrow> same_book t v"
  shows "loop_id_cnt s' = loop_id_cnt s \<and> cl_active (loopstate s' j) = cl_active (loopstate s j)"
proof -
  from assms(1) obtain lp t where d: "d (cl_obj_index (loopstate s i)) (i + 1)
        (unmark E (cl_region_addr (loopstate s i)) s) = Done (lp, t)"
    and s': "s' = set_loop i (loopstate s i\<lparr>cl_region_addr := fst (e_mark_region E lp (env t)),
        cl_obj_index := cl_obj_index (loopstate s i) + cl_stride (loopstate s i)\<rparr>)
        (t\<lparr>env := snd (e_mark_region E lp (env t))\<rparr>)"
    by (auto simp: loop_object_def Let_def bindR_Done_iff split: if_splits)
  from assms(2) [OF d] show ?thesis by (simp add: s' set_loop_def unmark_def same_book_def)
qed

lemma deref_loop_keeps:
  assumes "carm_deref_loop_read E i s = Done (a, s') \<or> carm_deref_loop_write E i s = Done (a, s')"
  shows "loop_id_cnt s' = loop_id_cnt s \<and> cl_active (loopstate s' j) = cl_active (loopstate s j)"
  using assms
  by (auto simp: carm_deref_loop_read_def carm_deref_loop_write_def loop_stack_def set_loop_def
      Let_def split: if_splits dest: loop_object_keeps [OF _ deref_sp_book(1)]
      loop_object_keeps [OF _ deref_sp_book(2)])

lemma invalidate_keeps:
  assumes "invalidate_loop_index E i s = Done s'" "cl_active (loopstate s i)" "0 < loop_id_cnt s"
  shows "loop_id_cnt s' = loop_id_cnt s - 1"
    "cl_active (loopstate s' j) = (j \<noteq> i \<and> cl_active (loopstate s j))"
  using assms
  by (auto simp: invalidate_loop_index_def Let_def set_loop_def unmark_def close_loop_def
      split: if_splits)

lemma less_Suc_word: "c < MAX_LOOPS \<Longrightarrow> (i :: u64) < c + 1 \<longleftrightarrow> i < c \<or> i = c"
proof -
  assume "c < MAX_LOOPS"
  then have "unat (c + 1) = unat c + 1"
    by (subst unat_add_no_wrap) (simp_all add: word_less_unat MAX_LOOPS_def)
  then show ?thesis by (auto simp: word_less_unat less_Suc_eq word_unat_eq_iff)
qed

lemma less_pred_word:
  assumes "0 < (c :: u64)"
  shows "i < c - 1 \<longleftrightarrow> i < c \<and> i \<noteq> c - 1" "c - 1 < c"
proof -
  have "unat (c - 1) = unat c - 1"
    using assms by (subst unat_sub_le) (simp_all add: word_less_unat word_le_unat)
  then show "i < c - 1 \<longleftrightarrow> i < c \<and> i \<noteq> c - 1" "c - 1 < c"
    using assms by (auto simp: word_less_unat word_unat_eq_iff)
qed

lemma loop_step_nested:
  assumes "loop_step E s s'" "loops_nested s"
  shows "loops_nested s'"
  using assms(1)
proof (cases rule: loop_step.cases)
  case (open_loop p step w)
  note d = loop_init_Done [OF open_loop]
  have "loop_id_cnt s + 1 \<le> MAX_LOOPS" using d(1) by (rule inc_le)
  moreover have "cl_active (opened p step s)"
    by (simp add: opened_def open_remote_def open_stack_def Let_def)
  ultimately show ?thesis
    using assms(2) d(1) by (auto simp: loops_nested_def d(4,5) less_Suc_word)
next
  case (loop_read i a)
  have "loop_id_cnt s' = loop_id_cnt s \<and> cl_active (loopstate s' j) = cl_active (loopstate s j)" for j
    using deref_loop_keeps loop_read by blast
  with assms(2) show ?thesis by (simp add: loops_nested_def)
next
  case (loop_write i a)
  have "loop_id_cnt s' = loop_id_cnt s \<and> cl_active (loopstate s' j) = cl_active (loopstate s j)" for j
    using deref_loop_keeps loop_write by blast
  with assms(2) show ?thesis by (simp add: loops_nested_def)
next
  case close_last
  let ?c = "loop_id_cnt s"
  have c: "?c - 1 < MAX_LOOPS"
    using close_last(2) by (auto simp: invalidate_loop_index_def split: if_splits)
  have "?c - 1 < ?c" by (rule less_pred_word(2) [OF close_last(1)])
  then have "cl_active (loopstate s (?c - 1))" using c assms(2) by (simp add: loops_nested_def)
  note k = invalidate_keeps [OF close_last(2) this close_last(1)]
  have "?c - 1 \<le> MAX_LOOPS" using c by simp
  then show ?thesis
    using assms(2) less_pred_word(1) [OF close_last(1)] by (auto simp: loops_nested_def k)
qed

lemma loop_steps_nested: "(loop_step E)\<^sup>*\<^sup>* s s' \<Longrightarrow> loops_nested s \<Longrightarrow> loops_nested s'"
  by (induction rule: rtranclp_induct) (auto intro: loop_step_nested)

lemma init_loops_nested: "loop_id_cnt s = 0 \<Longrightarrow> loops_nested (init_loops s)"
  by (simp add: loops_nested_def init_loops_def no_loop_def)

text \<open>
  C26: from the state \<open>init_loops\<close> sets up, as long as the last opened loop is closed first,
  the active loops are exactly those below the counter, whatever dereferences happen in
  between, and opening a loop never aborts.
\<close>

theorem loops_never_abort:
  assumes "(loop_step E)\<^sup>*\<^sup>* (init_loops s) s'" "loop_id_cnt s = 0"
  shows "loops_nested s' \<and> carm_loop_init E p step s' \<noteq> Aborted"
proof -
  have n: "loops_nested s'" by (rule loop_steps_nested [OF assms(1) init_loops_nested [OF assms(2)]])
  then have "loop_id_cnt s' < MAX_LOOPS \<Longrightarrow> \<not> cl_active (loopstate s' (loop_id_cnt s'))"
    by (simp add: loops_nested_def)
  then have "carm_loop_init E p step s' \<noteq> Aborted"
    by (auto simp: carm_loop_init_def Let_def carm_static_prefetch_def)
  with n show ?thesis by blast
qed

theorem loops_never_abort_witness:
  "\<exists>s'. (loop_step sim_ops)\<^sup>*\<^sup>* (init_loops (sim_start (\<lambda>_. 0))) s' \<and> loop_id_cnt s' = 1 \<and>
     loops_nested s' \<and> carm_loop_init sim_ops CARM_PTR 8 s' \<noteq> Aborted"
proof -
  let ?s = "init_loops (sim_start (\<lambda>_. 0))"
  have z: "loop_id_cnt ?s = 0" "loop_id_cnt (sim_start (\<lambda>_. 0)) = 0" "carm_rt ?s"
    by (simp_all add: init_loops_def sim_start_def)
  moreover have "\<not> cl_active (loopstate ?s 0)" by (simp add: init_loops_def sim_start_def no_loop_def)
  ultimately obtain w s' where run: "carm_loop_init sim_ops CARM_PTR 8 ?s = Done (w, s')"
    using loop_init_returns [of ?s sim_ops CARM_PTR 8] by (auto simp: MAX_LOOPS_def)
  then have "(loop_step sim_ops)\<^sup>*\<^sup>* ?s s'" by (intro r_into_rtranclp) (rule open_loop)
  moreover have "loop_id_cnt s' = 1" using loop_init_Done(4) [OF run] z by simp
  ultimately show ?thesis using loops_never_abort [OF _ z(2), of sim_ops s'] by blast
qed

text \<open>
  C27: closing a loop that is not the last opened one leaves the counter on an active entry,
  and the next loop to be opened aborts the program.
\<close>

theorem close_out_of_order_aborts:
  assumes "loops_nested s" "i < loop_id_cnt s - 1" "0 < loop_id_cnt s"
    and "invalidate_loop_index E i s = Done s'"
  shows "carm_loop_init E p step s' = Aborted"
proof -
  let ?c = "loop_id_cnt s"
  have i: "i < ?c" "i \<noteq> ?c - 1" using assms(2) less_pred_word(1) [OF assms(3), of i] by simp_all
  have c: "?c - 1 < ?c" by (rule less_pred_word(2) [OF assms(3)])
  have "?c \<le> MAX_LOOPS" using assms(1) by (simp add: loops_nested_def)
  with i(1) c have m: "i < MAX_LOOPS" "?c - 1 < MAX_LOOPS" by simp_all
  then have "cl_active (loopstate s i)" "cl_active (loopstate s (?c - 1))"
    using assms(1) i(1) c by (simp_all add: loops_nested_def)
  with invalidate_keeps [OF assms(4) this(1) assms(3)] i(2) m show ?thesis
    by (simp add: carm_loop_init_def Let_def)
qed

text \<open>Two loops over local pointers are open.\<close>

definition sim_two_loops :: "sim rt" where
  "sim_two_loops = (sim_start (\<lambda>_. 0))\<lparr>loop_id_cnt := 2,
     loopstate := (\<lambda>i. if i < 2 then no_loop\<lparr>cl_active := True\<rparr> else no_loop)\<rparr>"

theorem close_out_of_order_aborts_witness:
  "\<exists>s'. invalidate_loop_index sim_ops 0 sim_two_loops = Done s' \<and>
     carm_loop_init sim_ops CARM_PTR 8 s' = Aborted"
proof -
  obtain s' where run: "invalidate_loop_index sim_ops 0 sim_two_loops = Done s'"
    by (simp add: invalidate_loop_index_def sim_two_loops_def no_loop_def MAX_LOOPS_def Let_def)
  have "loops_nested sim_two_loops"
    by (simp add: loops_nested_def sim_two_loops_def no_loop_def MAX_LOOPS_def)
  from close_out_of_order_aborts [OF this _ _ run] run show ?thesis
    by (simp add: sim_two_loops_def)
qed

section \<open>Walking the objects\<close>

text \<open>A change of the loop table changes nothing of the object layer.\<close>

lemma set_loop_view:
  "rt_inv V (set_loop i l s) = rt_inv V s" "view V (set_loop i l s) = view V s"
  "resident V (set_loop i l s) j A = resident V s j A"
  by (simp_all add: set_loop_def rt_inv_cong [of "set_loop i l s" s V, unfolded set_loop_def]
      view_cong [of "set_loop i l s" s V, unfolded set_loop_def]
      resident_cong [of "set_loop i l s" s V, unfolded set_loop_def])

text \<open>
  From \<open>s\<close> to \<open>s'\<close> loop \<open>i\<close> got the address \<open>a\<close> of its current object, marked modified if it is
  for writing (\<open>mt\<close>), and moved on.
\<close>

definition crossed :: "'e env_view \<Rightarrow> bool \<Rightarrow> u64 \<Rightarrow> 'e rt \<Rightarrow> u64 \<Rightarrow> 'e rt \<Rightarrow> bool" where
  "crossed V mt i s a s' \<longleftrightarrow> (let l = loopstate s i in
     rt_inv V s' \<and> view V s \<subseteq>\<^sub>m view V s' \<and>
     (\<exists>A. resident V s' (cl_obj_index l) A \<and>
        a = (if cl_start_obj_index l = cl_obj_index l then A + cl_start_obj_offset l else A)) \<and>
     (mt \<longrightarrow> marked V s' (cl_obj_index l)) \<and>
     cl_obj_index (loopstate s' i) = cl_obj_index l + cl_stride l)"

lemma loop_object_spec:
  assumes laws: "env_laws E V" and inv: "rt_inv V s" and rt: "carm_rt s"
    and acc: "accessible V s (cl_obj_index (loopstate s i))"
    and d: "\<And>t. rt_inv V t \<Longrightarrow> accessible V t (cl_obj_index (loopstate s i)) \<Longrightarrow>
      \<exists>A u. d (cl_obj_index (loopstate s i)) (i + 1) t = Done (A, u) \<and> evolves V t u \<and>
        resident V u (cl_obj_index (loopstate s i)) A \<and> (mt \<longrightarrow> marked V u (cl_obj_index (loopstate s i)))"
  shows "\<exists>a s'. loop_object E d i s = Done (a, s') \<and> crossed V mt i s a s'"
proof -
  let ?l = "loopstate s i" and ?t = "unmark E (cl_region_addr (loopstate s i)) s"
  have t: "evolves V s ?t"
    using same_objects_evolves [OF inv quiet_lawD(4) [OF laws rt_inv_ok [OF inv]]]
    by (simp add: unmark_def)
  from d [OF evolves_inv [OF t] evolves_accessible [OF t acc]] obtain A u where
    u: "d (cl_obj_index ?l) (i + 1) ?t = Done (A, u)" "evolves V ?t u"
      "resident V u (cl_obj_index ?l) A" "mt \<longrightarrow> marked V u (cl_obj_index ?l)" by blast
  let ?m = "e_mark_region E A (env u)"
  let ?v = "u\<lparr>env := snd ?m\<rparr>"
  note q = quiet_lawD(3) [OF laws rt_inv_ok [OF evolves_inv [OF u(2)]], of A]
  have v: "evolves V u ?v" by (rule same_objects_evolves [OF evolves_inv [OF u(2)] q])
  have res: "resident V ?v (cl_obj_index ?l) A"
    by (rule resident_same_objects [OF _ _ u(3)]) (use q in simp_all)
  let ?w = "set_loop i (?l\<lparr>cl_region_addr := fst ?m, cl_obj_index := cl_obj_index ?l + cl_stride ?l\<rparr>) ?v"
  have run: "loop_object E d i s = Done (if cl_start_obj_index ?l = cl_obj_index ?l
      then A + cl_start_obj_offset ?l else A, ?w)"
    using rt u(1) by (simp add: loop_object_def Let_def)
  have "evolves V s ?v" using t u(2) v by (blast intro: evolves_trans)
  then have "rt_inv V ?w" "view V s \<subseteq>\<^sub>m view V ?w" "resident V ?w (cl_obj_index ?l) A"
    "mt \<longrightarrow> marked V ?w (cl_obj_index ?l)"
    using res u(4) q by (simp_all add: set_loop_view evolves_def) (simp add: marked_def set_loop_def same_objects_def)
  moreover have "cl_obj_index (loopstate ?w i) = cl_obj_index ?l + cl_stride ?l"
    by (simp add: set_loop_def)
  ultimately have "crossed V mt i s (if cl_start_obj_index ?l = cl_obj_index ?l
      then A + cl_start_obj_offset ?l else A) ?w"
    unfolding crossed_def Let_def by blast
  with run show ?thesis by blast
qed

text \<open>
  Every crossing of a loop over remote memory makes the loop's current object local, for writing marked modified,
  returns its address (plus the start offset on the first object), keeps the program's
  memory, and moves the loop to its next object.
\<close>

lemma carm_deref_loop_object:
  assumes "env_laws E V" "rt_inv V s" "carm_rt s" "i < MAX_LOOPS" "cl_carm_ptr (loopstate s i)"
    and "accessible V s (cl_obj_index (loopstate s i))"
  shows "(\<exists>a s'. carm_deref_loop_read E i s = Done (a, s') \<and> crossed V False i s a s') \<and>
    (\<exists>a s'. carm_deref_loop_write E i s = Done (a, s') \<and> crossed V True i s a s')"
proof -
  have b: "slot_bound (i + 1) = i + 1" using assms(4) by (simp add: slot_bound_def inc_le)
  have "\<exists>a s'. carm_deref_loop_read E i s = Done (a, s') \<and> crossed V False i s a s'"
    using loop_object_spec [where d = "carm_deref_read_sp E", OF assms(1-3,6) sc_read_sp.op_spec [OF assms(1), of _ _ "i + 1", unfolded b]]
      assms(4,5) by (simp add: carm_deref_loop_read_def)
  moreover have "\<exists>a s'. carm_deref_loop_write E i s = Done (a, s') \<and> crossed V True i s a s'"
    using loop_object_spec [where d = "carm_deref_write_sp E", OF assms(1-3,6) sc_write_sp.op_spec [OF assms(1), of _ _ "i + 1", unfolded b]]
      assms(4,5) by (simp add: carm_deref_loop_write_def)
  ultimately show ?thesis by blast
qed

text \<open>A loop over remote memory that starts at offset 16 of object 3.\<close>

definition sim_open_loop :: "sim rt" where
  "sim_open_loop = (sim_start (\<lambda>_. 0))\<lparr>loop_id_cnt := 1,
     loopstate := (\<lambda>i. open_remote (CARM_PTR + 0x3010) 8 no_loop)\<rparr>"

theorem carm_deref_loop_object_witness:
  "\<exists>a s'. carm_deref_loop_read sim_ops 0 sim_open_loop = Done (a, s') \<and>
     crossed sim_view False 0 sim_open_loop a s'"
proof (rule carm_deref_loop_object [OF sim_env_laws, THEN conjunct1])
  have "unat (cl_obj_index (loopstate sim_open_loop 0)) = 3"
    by (simp add: sim_open_loop_def open_remote_def get_carm_ptr_def check_carm_object_def
        CARM_PTR_def OBJ_SIZE_def Let_def)
  then show "accessible sim_view sim_open_loop (cl_obj_index (loopstate sim_open_loop 0))"
    using sim_start_accessible [of "cl_obj_index (loopstate sim_open_loop 0)" "\<lambda>_. 0"]
      accessible_cong [of sim_open_loop "sim_start (\<lambda>_. 0)" sim_view]
    by (simp add: sim_open_loop_def)
  show "rt_inv sim_view sim_open_loop"
    using sim_start_inv [of "\<lambda>_. 0"] rt_inv_cong [of sim_open_loop "sim_start (\<lambda>_. 0)" sim_view]
    by (simp add: sim_open_loop_def)
qed (simp_all add: sim_open_loop_def sim_start_def open_remote_def Let_def MAX_LOOPS_def)

end
