(* ===== verification/Stale_Copy.thy ===== *)
theory Stale_Copy
  imports Libc_Copy
begin

text \<open>
  The copy between two remote ranges when AIFM uses its right to evict: \<open>carm_memcpy\<close> takes the
  local address of the destination in one dereference scope and writes through it after the
  dereference of the source has closed that scope.
\<close>

section \<open>An eager AIFM\<close>



text \<open>
  It is no more than that: a dereference of an object with another frame keeps what is local, so a
  copy that held one scope over both dereferences would arrive there.
\<close>

lemma sim_scope_holds:
  assumes "sim_in e h" "g mod 8 \<noteq> h mod 8" "sim_deref mt g (e, m) = (md, ev, e', m')"
  shows "sim_in e' h"
proof -
  have mark: "sim_frames (sim_mark mt g e) = sim_frames e" for e by (simp add: sim_mark_def)
  have "sim_frames e' = sim_frames e \<or> sim_frames e' = (sim_frames e)(g mod 8 := Some g)"
    using assms(3) by (auto simp: sim_deref_def mark sim_load_def sim_evict_def split: if_splits option.splits)
  with assms(1,2) show ?thesis by (auto simp: sim_in_def)
qed


section \<open>What a dereference does to another object\<close>

text \<open>An absent object stays absent in the table until it is dereferenced.\<close>

definition absent :: "'e rt \<Rightarrow> u64 \<Rightarrow> bool" where
  "absent s j \<longleftrightarrow> obj_state s j AND kPresentClear \<noteq> 0"


lemma absent_fields [simp]:
  "absent (s\<lparr>env := e\<rparr>) j = absent s j" "absent (s\<lparr>mem := m\<rparr>) j = absent s j"
  "absent (s\<lparr>in_scope := b\<rparr>) j = absent s j" "absent (s\<lparr>prev_obj_index := f\<rparr>) j = absent s j"
  by (simp_all add: absent_def)





section \<open>The lost copy\<close>





end
