(* ===== verification/Libc_Str.thy ===== *)
theory Libc_Str
  imports Libc_Alloc
begin

text \<open>
  The string, comparison and conversion functions of \<open>src/libc_support.cpp\<close>. A length that
  the source keeps in an \<open>int\<close> passes through \<open>int_size\<close>. Comparisons return the sign.
\<close>

section \<open>Length\<close>

text \<open>\<open>int n = x;\<close> and back to a 64-bit size.\<close>

definition int_size :: "u64 \<Rightarrow> u64" where
  "int_size x = scast (ucast x :: u32)"

text \<open>
  The inner loop of \<open>carm_strlen\<close>: \<open>Inl\<close> where it returns, \<open>Inr\<close> where the chunk has no
  zero.
\<close>

fun scan_zero :: "memory \<Rightarrow> ptr \<Rightarrow> nat \<Rightarrow> u64 \<Rightarrow> u64 + u64" where
  "scan_zero m dest 0 len = Inr len"
| "scan_zero m dest (Suc j) len =
     (if m dest = 0 then Inl len else scan_zero m (dest + 1) j (len + 1))"

fun strlen_loop :: "nat \<Rightarrow> 'e env_ops \<Rightarrow> carm_ptr \<Rightarrow> u64 \<Rightarrow> 'e rt \<Rightarrow> (u64 \<times> 'e rt) run" where
  "strlen_loop 0 E cp len s = OutOfFuel"
| "strlen_loop (Suc f) E cp len s =
     bindR (ptrDeref E cp s) (\<lambda>(dest, s).
       let chunk_size = chunk cp
       in case scan_zero (mem s) dest (unat chunk_size) len of
            Inl len \<Rightarrow> Done (len, s)
          | Inr len \<Rightarrow> if \<not> valid_size chunk_size then Exited
                       else strlen_loop f E (next_obj cp) len s)"

definition carm_strlen :: "nat \<Rightarrow> 'e env_ops \<Rightarrow> ptr \<Rightarrow> 'e rt \<Rightarrow> (u64 \<times> 'e rt) run" where
  "carm_strlen f E s1 s =
     (if \<not> check_carm_object s1 then bindR (c_strlen f (mem s) s1) (\<lambda>n. Done (n, s))
      else strlen_loop f E (get_carm_ptr s1 0) 0 s)"

section \<open>Copying strings\<close>

definition carm_strcpy_dst :: "nat \<Rightarrow> 'e env_ops \<Rightarrow> ptr \<Rightarrow> ptr \<Rightarrow> 'e rt \<Rightarrow> (ptr \<times> 'e rt) run" where
  "carm_strcpy_dst f E dst src s =
     bindR (c_strlen f (mem s) src) (\<lambda>l. carm_memcpy f E dst src (int_size (l + 1)) s)"

definition carm_strcpy_src :: "nat \<Rightarrow> 'e env_ops \<Rightarrow> ptr \<Rightarrow> ptr \<Rightarrow> 'e rt \<Rightarrow> (ptr \<times> 'e rt) run" where
  "carm_strcpy_src f E dst src s =
     bindR (carm_strlen f E src s) (\<lambda>(l, s). carm_memcpy f E dst src (int_size (l + 1)) s)"

definition carm_strcpy :: "nat \<Rightarrow> 'e env_ops \<Rightarrow> ptr \<Rightarrow> ptr \<Rightarrow> 'e rt \<Rightarrow> (ptr \<times> 'e rt) run" where
  "carm_strcpy f E d q s =
     (if \<not> check_carm_object d \<and> \<not> check_carm_object q
      then bindR (c_strcpy f (mem s) d q) (\<lambda>m. Done (d, s\<lparr>mem := m\<rparr>))
      else if check_carm_object d \<and> \<not> check_carm_object q then carm_strcpy_dst f E d q s
      else if \<not> check_carm_object d \<and> check_carm_object q then carm_strcpy_src f E d q s
      else bindR (carm_strlen f E q s) (\<lambda>(l, s). carm_memcpy f E d q (int_size (l + 1)) s))"

definition carm_strncpy ::
    "nat \<Rightarrow> 'e env_ops \<Rightarrow> ptr \<Rightarrow> ptr \<Rightarrow> u64 \<Rightarrow> 'e rt \<Rightarrow> (ptr \<times> 'e rt) run" where
  "carm_strncpy f E s1 s2 n s =
     (if \<not> check_carm_object s1 \<and> \<not> check_carm_object s2
      then Done (s1, s\<lparr>mem := c_strncpy (mem s) s1 s2 n\<rparr>)
      else carm_memcpy f E s1 s2 n s)"

text \<open>The local \<open>strdup\<close> allocates with the C library's own \<open>malloc\<close>.\<close>

definition carm_strdup :: "nat \<Rightarrow> 'e env_ops \<Rightarrow> ptr \<Rightarrow> 'e rt \<Rightarrow> (ptr \<times> 'e rt) run" where
  "carm_strdup f E v s =
     (if \<not> check_carm_object v
      then bindR (c_strlen f (mem s) v) (\<lambda>l.
             case e_malloc E (l + 1) (env s) of (q, e) \<Rightarrow>
               if q = 0 then Done (0, s\<lparr>env := e\<rparr>)
               else Done (q, s\<lparr>env := e, mem := c_memmove (mem s) q v (l + 1)\<rparr>))
      else bindR (carm_strlen f E v s) (\<lambda>(l, s).
             let sz = int_size (l + 1)
             in bindR (carm_remote_malloc E sz s) (\<lambda>(rptr, s).
                  bindR (carm_memcpy f E rptr v sz s) (\<lambda>(_, s). Done (rptr, s)))))"

section \<open>Comparison\<close>

text \<open>\<open>_carm_memcmp_src_carm_ptr\<close>\<close>

fun memcmp_src_loop ::
    "nat \<Rightarrow> 'e env_ops \<Rightarrow> ptr \<Rightarrow> u64 \<Rightarrow> carm_ptr \<Rightarrow> u32 \<Rightarrow> 'e rt \<Rightarrow> (int \<times> 'e rt) run" where
  "memcmp_src_loop 0 E dst n cp bytes_read s = OutOfFuel"
| "memcmp_src_loop (Suc f) E dst n cp bytes_read s =
     (if ucast bytes_read < n
      then let d = dst + ucast bytes_read
           in bindR (ptrDeref E cp s) (\<lambda>(q, s).
             let chunk_size = chunk cp
             in if ucast (bytes_read + chunk_size) < n
                then let ret = c_memcmp (mem s) d q (scast chunk_size)
                     in if ret \<noteq> 0 then Done (ret, s)
                        else memcmp_src_loop f E dst n (next_obj cp) (bytes_read + chunk_size) s
                else Done (c_memcmp (mem s) d q (n - ucast bytes_read), s))
      else Done (0, s))"

text \<open>\<open>_carm_memcmp_dst_carm_ptr\<close>\<close>

fun memcmp_dst_loop ::
    "nat \<Rightarrow> 'e env_ops \<Rightarrow> ptr \<Rightarrow> u64 \<Rightarrow> carm_ptr \<Rightarrow> u32 \<Rightarrow> 'e rt \<Rightarrow> (int \<times> 'e rt) run" where
  "memcmp_dst_loop 0 E src n cp bytes_read s = OutOfFuel"
| "memcmp_dst_loop (Suc f) E src n cp bytes_read s =
     (if ucast bytes_read < n
      then bindR (ptrDeref E cp s) (\<lambda>(d, s).
             let q = src + ucast bytes_read; chunk_size = chunk cp
             in if ucast (bytes_read + chunk_size) < n
                then let ret = c_memcmp (mem s) d q (scast chunk_size)
                     in if ret \<noteq> 0 then Done (ret, s)
                        else memcmp_dst_loop f E src n (next_obj cp) (bytes_read + chunk_size) s
                else Done (c_memcmp (mem s) d q (n - ucast bytes_read), s))
      else Done (0, s))"

definition max_int :: "u32 \<Rightarrow> u32 \<Rightarrow> u32" where
  "max_int a b = (if word_sless a b then b else a)"

fun memcmp_both_loop ::
    "nat \<Rightarrow> 'e env_ops \<Rightarrow> ptr \<Rightarrow> ptr \<Rightarrow> u64 \<Rightarrow> u32 \<Rightarrow> 'e rt \<Rightarrow> (int \<times> 'e rt) run" where
  "memcmp_both_loop 0 E dst src n bytes_read s = OutOfFuel"
| "memcmp_both_loop (Suc f) E dst src n bytes_read s =
     (if ucast bytes_read < n
      then let cd = get_carm_ptr (dst + ucast bytes_read) 0; cs = get_carm_ptr (src + ucast bytes_read) 0
           in bindR (ptrDeref E cd s) (\<lambda>(d, s). bindR (ptrDeref E cs s) (\<lambda>(q, s).
             let small = min_int (chunk cd) (chunk cs);
                 chunk_size = (if \<not> valid_size small then max_int (chunk cd) (chunk cs) else small)
             in if \<not> valid_size chunk_size then Exited
                else let ret = c_memcmp (mem s) d q
                           (if ucast (bytes_read + chunk_size) < n then scast chunk_size
                            else n - ucast bytes_read)
                     in if ret \<noteq> 0 then Done (ret, s)
                        else memcmp_both_loop f E dst src n (bytes_read + chunk_size) s))
      else Done (0, s))"

definition carm_memcmp ::
    "nat \<Rightarrow> 'e env_ops \<Rightarrow> ptr \<Rightarrow> ptr \<Rightarrow> u64 \<Rightarrow> 'e rt \<Rightarrow> (int \<times> 'e rt) run" where
  "carm_memcmp f E dst src n s =
     (if \<not> check_carm_object dst \<and> \<not> check_carm_object src
      then Done (c_memcmp (mem s) dst src n, s)
      else if check_carm_object dst \<and> \<not> check_carm_object src
      then memcmp_dst_loop f E src n (get_carm_ptr dst 0) 0 s
      else if \<not> check_carm_object dst \<and> check_carm_object src
      then memcmp_src_loop f E dst n (get_carm_ptr src 0) 0 s
      else memcmp_both_loop f E dst src n 0 s)"

definition carm_wmemcmp ::
    "nat \<Rightarrow> 'e env_ops \<Rightarrow> ptr \<Rightarrow> ptr \<Rightarrow> u64 \<Rightarrow> 'e rt \<Rightarrow> (int \<times> 'e rt) run" where
  "carm_wmemcmp f E s1 s2 n s =
     (if \<not> check_carm_object s1 \<and> \<not> check_carm_object s2
      then Done (c_wmemcmp (mem s) s1 s2 (unat n), s) else Exited)"

definition carm_strcmp_dst :: "nat \<Rightarrow> 'e env_ops \<Rightarrow> ptr \<Rightarrow> ptr \<Rightarrow> 'e rt \<Rightarrow> (int \<times> 'e rt) run" where
  "carm_strcmp_dst f E dst src s =
     bindR (c_strlen f (mem s) src) (\<lambda>l. carm_memcmp f E dst src (int_size (l + 1)) s)"

definition carm_strcmp_src :: "nat \<Rightarrow> 'e env_ops \<Rightarrow> ptr \<Rightarrow> ptr \<Rightarrow> 'e rt \<Rightarrow> (int \<times> 'e rt) run" where
  "carm_strcmp_src f E dst src s =
     bindR (carm_strlen f E src s) (\<lambda>(l, s). carm_memcmp f E dst src (int_size (l + 1)) s)"

definition carm_strcmp :: "nat \<Rightarrow> 'e env_ops \<Rightarrow> ptr \<Rightarrow> ptr \<Rightarrow> 'e rt \<Rightarrow> (int \<times> 'e rt) run" where
  "carm_strcmp f E d q s =
     (if \<not> check_carm_object d \<and> \<not> check_carm_object q
      then bindR (c_strcmp f (mem s) d q) (\<lambda>r. Done (r, s))
      else if check_carm_object d \<and> \<not> check_carm_object q then carm_strcmp_dst f E d q s
      else if \<not> check_carm_object d \<and> check_carm_object q then carm_strcmp_src f E d q s
      else bindR (carm_strlen f E q s) (\<lambda>(l, s). carm_memcmp f E d q (int_size (l + 1)) s))"

section \<open>Searching\<close>

text \<open>
  The inner loop of \<open>carm_memchr\<close> goes to the end of the chunk; it compares the byte,
  widened to \<open>int\<close>, with the argument as it is.
\<close>

fun scan_char :: "memory \<Rightarrow> ptr \<Rightarrow> u32 \<Rightarrow> nat \<Rightarrow> u64 \<Rightarrow> u64 + u64" where
  "scan_char m dest c 0 len = Inr len"
| "scan_char m dest c (Suc j) len =
     (if ucast (m dest) = c then Inl len else scan_char m (dest + 1) c j (len + 1))"

fun memchr_loop ::
    "nat \<Rightarrow> 'e env_ops \<Rightarrow> ptr \<Rightarrow> u32 \<Rightarrow> u64 \<Rightarrow> carm_ptr \<Rightarrow> u64 \<Rightarrow> 'e rt \<Rightarrow> (ptr \<times> 'e rt) run" where
  "memchr_loop 0 E str c n cp len s = OutOfFuel"
| "memchr_loop (Suc f) E str c n cp len s =
     (if len < n
      then bindR (ptrDeref E cp s) (\<lambda>(dest, s).
        case scan_char (mem s) dest c (unat (chunk cp)) len of
          Inl len \<Rightarrow> Done (str + len, s)
        | Inr len \<Rightarrow> memchr_loop f E str c n (next_obj cp) len s)
      else Done (0, s))"

definition carm_memchr ::
    "nat \<Rightarrow> 'e env_ops \<Rightarrow> ptr \<Rightarrow> u32 \<Rightarrow> u64 \<Rightarrow> 'e rt \<Rightarrow> (ptr \<times> 'e rt) run" where
  "carm_memchr f E str c n s =
     (if \<not> check_carm_object str then Done (c_memchr (mem s) str (sint c) n, s)
      else memchr_loop f E str c n (get_carm_ptr str 0) 0 s)"

definition carm_wmemchr ::
    "nat \<Rightarrow> 'e env_ops \<Rightarrow> ptr \<Rightarrow> u32 \<Rightarrow> u64 \<Rightarrow> 'e rt \<Rightarrow> (ptr \<times> 'e rt) run" where
  "carm_wmemchr f E s1 c n s =
     (if \<not> check_carm_object s1 then Done (c_memchr (mem s) s1 (sint c) n, s) else Exited)"

section \<open>Conversion\<close>

definition store64 :: "memory \<Rightarrow> ptr \<Rightarrow> u64 \<Rightarrow> memory" where
  "store64 m a x = (\<lambda>p. if within a 8 p then ucast (drop_bit (8 * unat (p - a)) x) else m p)"

text \<open>The conversion, then the store of the end pointer where the caller asks for it.\<close>

definition with_end :: "ptr \<Rightarrow> 'e rt \<Rightarrow> (u64 \<times> ptr) run \<Rightarrow> (u64 \<times> 'e rt) run" where
  "with_end endptr s r = bindR r (\<lambda>(v, q).
     Done (v, if endptr \<noteq> 0 then s\<lparr>mem := store64 (mem s) endptr q\<rparr> else s))"

definition carm_strtoul ::
    "nat \<Rightarrow> 'e env_ops \<Rightarrow> ptr \<Rightarrow> ptr \<Rightarrow> u32 \<Rightarrow> 'e rt \<Rightarrow> (u64 \<times> 'e rt) run" where
  "carm_strtoul f E nptr endptr base s =
     (if \<not> check_carm_object nptr
      then with_end endptr s (c_strtoul f (mem s) nptr (sint base))
      else if endptr \<noteq> 0 then Exited
      else bindR (ptrDeref E (get_carm_ptr nptr 0) s) (\<lambda>(dest, s).
             with_end endptr s (c_strtoul f (mem s) dest (sint base))))"

definition carm_strtol ::
    "nat \<Rightarrow> 'e env_ops \<Rightarrow> ptr \<Rightarrow> ptr \<Rightarrow> u32 \<Rightarrow> 'e rt \<Rightarrow> (u64 \<times> 'e rt) run" where
  "carm_strtol f E nptr endptr base s =
     (if \<not> check_carm_object nptr
      then with_end endptr s (c_strtol f (mem s) nptr (sint base))
      else if endptr \<noteq> 0 then Exited
      else bindR (ptrDeref E (get_carm_ptr nptr 0) s) (\<lambda>(dest, s).
             with_end endptr s (c_strtol f (mem s) dest (sint base))))"

section \<open>Fuel\<close>

lemma strlen_more [fuel_mono]: "strlen_loop f E cp len s \<le> strlen_loop (Suc f) E cp len s"
  by (induction f arbitrary: cp len s) (simp, subst (1 2) strlen_loop.simps, intro fuel_mono order_refl)

lemma memcmp_src_more [fuel_mono]: "memcmp_src_loop f E dst n cp len s \<le> memcmp_src_loop (Suc f) E dst n cp len s"
  by (induction f arbitrary: cp len s) (simp, subst (1 2) memcmp_src_loop.simps, intro fuel_mono order_refl)

lemma memcmp_dst_more [fuel_mono]: "memcmp_dst_loop f E dst n cp len s \<le> memcmp_dst_loop (Suc f) E dst n cp len s"
  by (induction f arbitrary: cp len s) (simp, subst (1 2) memcmp_dst_loop.simps, intro fuel_mono order_refl)

lemma memcmp_both_more [fuel_mono]: "memcmp_both_loop f E dst src n len s \<le> memcmp_both_loop (Suc f) E dst src n len s"
  by (induction f arbitrary: len s) (simp, subst (1 2) memcmp_both_loop.simps, intro fuel_mono order_refl)

lemma memchr_more [fuel_mono]: "memchr_loop f E str c n cp len s \<le> memchr_loop (Suc f) E str c n cp len s"
  by (induction f arbitrary: cp len s) (simp, subst (1 2) memchr_loop.simps, intro fuel_mono order_refl)

lemma carm_strlen_more [fuel_mono]: "carm_strlen f E p s \<le> carm_strlen (Suc f) E p s"
  unfolding carm_strlen_def by (intro fuel_mono order_refl)

lemma carm_memcmp_more [fuel_mono]: "carm_memcmp f E d q n s \<le> carm_memcmp (Suc f) E d q n s"
  unfolding carm_memcmp_def by (intro fuel_mono order_refl)

lemma carm_strcpy_more [fuel_mono]: "carm_strcpy f E d q s \<le> carm_strcpy (Suc f) E d q s"
  unfolding carm_strcpy_def carm_strcpy_dst_def carm_strcpy_src_def c_strcpy_def by (intro fuel_mono order_refl)

lemma carm_strcmp_more [fuel_mono]: "carm_strcmp f E d q s \<le> carm_strcmp (Suc f) E d q s"
  unfolding carm_strcmp_def carm_strcmp_dst_def carm_strcmp_src_def by (intro fuel_mono order_refl)

lemma carm_strdup_more [fuel_mono]: "carm_strdup f E p s \<le> carm_strdup (Suc f) E p s"
  unfolding carm_strdup_def by (intro fuel_mono order_refl)

lemma carm_memchr_more [fuel_mono]: "carm_memchr f E p c n s \<le> carm_memchr (Suc f) E p c n s"
  unfolding carm_memchr_def by (intro fuel_mono order_refl)

lemma carm_strto_more [fuel_mono]: "carm_strtoul f E p q b s \<le> carm_strtoul (Suc f) E p q b s"
  "carm_strtol f E p q b s \<le> carm_strtol (Suc f) E p q b s"
  unfolding carm_strtoul_def carm_strtol_def with_end_def by (intro fuel_mono order_refl)+

interpretation fuel_strlen: fuelled "\<lambda>f (p, s). carm_strlen f E p s" for E
  by unfold_locales (auto intro: carm_strlen_more)

interpretation fuel_memcmp: fuelled "\<lambda>f (d, q, n, s). carm_memcmp f E d q n s" for E
  by unfold_locales (auto intro: carm_memcmp_more)

interpretation fuel_strcpy: fuelled "\<lambda>f (d, q, s). carm_strcpy f E d q s" for E
  by unfold_locales (auto intro: carm_strcpy_more)

interpretation fuel_strcmp: fuelled "\<lambda>f (d, q, s). carm_strcmp f E d q s" for E
  by unfold_locales (auto intro: carm_strcmp_more)

interpretation fuel_memchr: fuelled "\<lambda>f (p, c, n, s). carm_memchr f E p c n s" for E
  by unfold_locales (auto intro: carm_memchr_more)

end
