(* ===== verification/Str_Props.thy ===== *)
theory Str_Props
  imports Libc_Str
begin

text \<open>
  The comparison functions compute the C library's answer on the program's memory, whatever
  side is remote and wherever object boundaries fall: the locale \<open>chunk_comparer\<close> is the
  contract of a loop that compares one chunk per object, interpreted on both loops of
  \<open>carm_memcmp\<close>. \<open>carm_strlen\<close> finds the first zero; \<open>carm_memchr\<close> may look too far.
\<close>

section \<open>Comparing bytes\<close>

fun bytes_cmp :: "(u64 \<Rightarrow> u8) \<Rightarrow> (u64 \<Rightarrow> u8) \<Rightarrow> u64 \<Rightarrow> nat \<Rightarrow> int" where
  "bytes_cmp f g k 0 = 0"
| "bytes_cmp f g k (Suc n) =
     (if f k = g k then bytes_cmp f g (k + 1) n else if f k < g k then -1 else 1)"

lemma bytes_cmp_append:
  "bytes_cmp f g k (c + n) =
     (if bytes_cmp f g k c \<noteq> 0 then bytes_cmp f g k c else bytes_cmp f g (k + of_nat c) n)"
  by (induction c arbitrary: k) (simp_all add: add.assoc)

lemma bytes_cmp_cong:
  assumes "\<And>j. j < n \<Longrightarrow> f (k + of_nat j) = f' (k + of_nat j) \<and> g (k + of_nat j) = g' (k + of_nat j)"
  shows "bytes_cmp f g k n = bytes_cmp f' g' k n"
  using assms
proof (induction n arbitrary: k)
  case (Suc n)
  have "f k = f' k \<and> g k = g' k" using Suc.prems [of 0] by simp
  moreover have "bytes_cmp f g (k + 1) n = bytes_cmp f' g' (k + 1) n"
    using Suc.prems [of "Suc j" for j] by (intro Suc.IH) (simp add: add.assoc)
  ultimately show ?case by simp
qed simp

lemma memcmp_bytes:
  assumes "\<And>j. j < n \<Longrightarrow> m (a + of_nat j) = f (k + of_nat j) \<and> m (b + of_nat j) = g (k + of_nat j)"
  shows "memcmp_n m a b n = bytes_cmp f g k n"
  using assms
proof (induction n arbitrary: a b k)
  case (Suc n)
  have "m a = f k \<and> m b = g k" using Suc.prems [of 0] by simp
  moreover have "memcmp_n m (a + 1) (b + 1) n = bytes_cmp f g (k + 1) n"
    using Suc.prems [of "Suc j" for j] by (intro Suc.IH) (simp add: add.assoc)
  ultimately show ?case by simp
qed simp

text \<open>The difference of the first unequal pair decides.\<close>

lemma bytes_cmp_zero: "bytes_cmp f g k n = 0 \<longleftrightarrow> (\<forall>j<n. f (k + of_nat j) = g (k + of_nat j))"
proof (induction n arbitrary: k)
  case (Suc n)
  have "(\<forall>j<Suc n. f (k + of_nat j) = g (k + of_nat j)) \<longleftrightarrow>
      f k = g k \<and> (\<forall>j<n. f (k + 1 + of_nat j) = g (k + 1 + of_nat j))"
    by (auto simp: less_Suc_eq_0_disj add.assoc)
  with Suc.IH show ?case by simp
qed simp

section \<open>Loops that compare\<close>

locale chunk_comparer =
  fixes E :: "'e env_ops" and V :: "'e env_view"
    and loop :: "nat \<Rightarrow> carm_ptr \<Rightarrow> u32 \<Rightarrow> 'e rt \<Rightarrow> (int \<times> 'e rt) run"
    and look :: "u64 \<Rightarrow> u64 \<Rightarrow> u64 \<Rightarrow> 'e rt \<Rightarrow> int"
    and walk sz :: u64
    and pre :: "'e rt \<Rightarrow> bool" and left right :: "'e rt \<Rightarrow> u64 \<Rightarrow> u8"
  assumes stop: "\<not> ucast bt < sz \<Longrightarrow> loop (Suc f) cp bt s = Done (0, s)"
    and more: "ucast bt < sz \<Longrightarrow> at_ptr cp p \<Longrightarrow> ptrDeref E cp s = Done (a, t) \<Longrightarrow>
      ucast (bt + chunk cp) < sz \<Longrightarrow>
      loop (Suc f) cp bt s =
        (if look a (ucast bt) (room p) t \<noteq> 0 then Done (look a (ucast bt) (room p) t, t)
         else loop f (next_obj cp) (bt + chunk cp) t)"
    and last_one: "ucast bt < sz \<Longrightarrow> at_ptr cp p \<Longrightarrow> ptrDeref E cp s = Done (a, t) \<Longrightarrow>
      \<not> ucast (bt + chunk cp) < sz \<Longrightarrow>
      loop (Suc f) cp bt s = Done (look a (ucast bt) (sz - ucast bt) t, t)"
    and pre_world: "pre s \<Longrightarrow> env_laws E V \<and> rt_inv V s \<and> far_range V s walk sz"
    and pre_evolves: "pre s \<Longrightarrow> evolves V s t \<Longrightarrow>
      pre t \<and> (\<forall>k < sz. left t k = left s k \<and> right t k = right s k)"
    and look_spec: "pre s \<Longrightarrow> resident V s (obj_of (walk + j)) A \<Longrightarrow> j < sz \<Longrightarrow> n \<le> sz - j \<Longrightarrow>
      n \<le> room (walk + j) \<Longrightarrow>
      look (A + off_of (walk + j)) j n s = bytes_cmp (left s) (right s) j (unat n)"
begin

lemma same_cmp:
  assumes "pre s" "evolves V s t" "j \<le> sz" "n \<le> unat (sz - j)"
  shows "bytes_cmp (left t) (right t) j n = bytes_cmp (left s) (right s) j n"
proof (rule bytes_cmp_cong)
  fix i assume "i < n"
  then have i: "i < unat (sz - j)" using assms(4) by simp
  have "i < 2 ^ 64" using less_trans [OF i unsigned_less [of "sz - j", where 'a = nat]] by simp
  then have "unat (of_nat i :: u64) = i" by (simp add: unat_of_nat)
  then have "(of_nat i :: u64) < sz - j" using i by (simp add: word_less_unat)
  from word_less_diff(1) [OF assms(3) this]
  show "left t (j + of_nat i) = left s (j + of_nat i) \<and> right t (j + of_nat i) = right s (j + of_nat i)"
    using pre_evolves [OF assms(1,2)] by blast
qed

theorem loop_compares:
  assumes "pre s" "ucast bt \<le> sz" "sz \<le> MAX_WALK"
    and "ucast bt < sz \<Longrightarrow> at_ptr cp (walk + ucast bt)"
    and "unat (sz - ucast bt) + unat (off_of (walk + ucast bt)) < f * 4096"
  shows "\<exists>s'. loop f cp bt s = Done (bytes_cmp (left s) (right s) (ucast bt) (unat (sz - ucast bt)), s') \<and>
    evolves V s s'"
  using assms
proof (induction f arbitrary: s cp bt)
  case (Suc f)
  let ?j = "ucast bt :: u64" and ?p = "walk + ucast bt"
  show ?case
  proof (cases "?j < sz")
    case False
    then have "?j = sz" using Suc.prems(2) by simp
    with stop [OF False] pre_world [OF Suc.prems(1)] show ?thesis by (auto intro: evolves_refl)
  next
    case j: True
    note at = Suc.prems(4) [OF j]
    have w: "env_laws E V" "rt_inv V s" "far_range V s walk sz" using pre_world [OF Suc.prems(1)] by simp_all
    obtain A t where d: "ptrDeref E cp s = Done (A + off_of ?p, t)" "evolves V s t"
        "resident V t (obj_of ?p) A"
      using ptrDeref_rule [OF w(1,2), of cp] at far_range_check(2) [OF w(3) j] by (auto simp: at_ptr_def)
    have pt: "pre t" using pre_evolves [OF Suc.prems(1) d(2)] by simp
    note cs = counter_step [OF at j Suc.prems(3)]
    note same = same_cmp [OF Suc.prems(1) d(2) less_imp_le [OF j]]
    show ?thesis
    proof (cases "ucast (bt + chunk cp) < sz")
      case False
      then have "sz - ?j \<le> room ?p" using cs(2) by simp
      from look_spec [OF pt d(3) j order_refl this] last_one [OF j at d(1) False] d(2) same
      show ?thesis by auto
    next
      case True
      let ?c = "room ?p" and ?k = "?j + room ?p"
      have c: "?c < sz - ?j" using True cs(2) by simp
      have look: "look (A + off_of ?p) ?j ?c t = bytes_cmp (left s) (right s) ?j (unat ?c)"
        using look_spec [OF pt d(3) j less_imp_le [OF c] order_refl] same [of "unat ?c"] c
        by (simp add: word_less_unat)
      have split: "bytes_cmp (left s) (right s) ?j (unat (sz - ?j)) =
          (if bytes_cmp (left s) (right s) ?j (unat ?c) \<noteq> 0 then bytes_cmp (left s) (right s) ?j (unat ?c)
           else bytes_cmp (left s) (right s) ?k (unat (sz - ?k)))"
        using bytes_cmp_append [of "left s" "right s" ?j "unat ?c" "unat (sz - ?k)"] cs(3) [OF c] c
        by (simp add: word_less_unat)
      have fr: "check_carm_object ?p" "unat (?p XOR CARM_PTR) + unat ?c < 2 ^ 60"
        using far_range_tail [OF w(3) j] c by (auto simp: far_range_def word_less_unat)
      have at': "at_ptr (next_obj cp) (walk + ?k)" using at_next [OF at fr] by (simp add: add.assoc)
      have "off_of (walk + ?k) = 0"
        using next_object(2) [OF fr] unat_off_of_lt [of ?p] by (simp add: unat_room add.assoc)
      with fuel_step [OF Suc.prems(5) c cs(3) [OF c]]
      have fuel: "unat (sz - ?k) + unat (off_of (walk + ?k)) < f * 4096" by blast
      have kn: "?k < sz" using True cs(1) by simp
      from Suc.IH [OF pt, of "bt + chunk cp" "next_obj cp", unfolded cs(1),
          OF less_imp_le [OF kn] Suc.prems(3) at' fuel]
      obtain s' where r: "loop f (next_obj cp) (bt + chunk cp) t =
          Done (bytes_cmp (left t) (right t) ?k (unat (sz - ?k)), s')" "evolves V t s'" by auto
      have "bytes_cmp (left t) (right t) ?k (unat (sz - ?k)) =
          bytes_cmp (left s) (right s) ?k (unat (sz - ?k))"
        by (rule same_cmp [OF Suc.prems(1) d(2) less_imp_le [OF kn] order_refl])
      with r more [OF j at d(1) True] look split d(2) show ?thesis
        by (auto intro: evolves_trans)
    qed
  qed
qed simp

corollary loop_all:
  assumes "pre s" "sz \<le> MAX_WALK" "at_ptr cp walk"
  shows "\<exists>s'. loop (enough_fuel sz) cp 0 s = Done (bytes_cmp (left s) (right s) 0 (unat sz), s') \<and>
    evolves V s s'"
proof -
  have "unat sz + unat (off_of walk) < enough_fuel sz * 4096"
    using enough_fuel_bound [of sz walk] by (simp add: enough_fuel_def)
  then show ?thesis using loop_compares [of s 0 cp "enough_fuel sz"] assms by simp
qed

end

section \<open>\<open>memcmp\<close>\<close>

text \<open>A chunk read in place.\<close>

lemma resident_bytes:
  assumes "src_pre E V loc far sz s" "resident V s (obj_of (far + j)) A" "j < sz" "n \<le> sz - j"
    and "n \<le> room (far + j)" "i < unat n"
  shows "mem s (A + off_of (far + j) + of_nat i) = the (view V s (far + (j + of_nat i)))"
proof -
  have "i < 2 ^ 64" using less_trans [OF assms(6) unsigned_less [of n, where 'a = nat]] by simp
  then have u: "unat (of_nat i :: u64) = i" by (simp add: unat_of_nat)
  then have i: "(of_nat i :: u64) < n" using assms(6) by (simp add: word_less_unat)
  have fr: "far_range V s far sz" using assms(1) by (simp add: src_pre_def)
  have "view V s (far + j + of_nat i) = Some (mem s (A + off_of (far + j) + of_nat i))"
    using far_piece [OF fr assms(3,4)] i assms(5)
    by (intro resident_read [OF assms(2)]) (auto simp: word_less_unat word_le_unat)
  then show ?thesis by (simp add: add.assoc)
qed

lemma src_pre_evolves:
  assumes "src_pre E V loc far sz s" "evolves V s t"
  shows "src_pre E V loc far sz t \<and>
    (\<forall>k < sz. view V t (far + k) = view V s (far + k) \<and> mem t (loc + k) = mem s (loc + k))"
proof -
  have "view V t (far + k) = view V s (far + k)" if "k < sz" for k
    using assms that evolves_view [of V s t "far + k"] by (auto simp: src_pre_def)
  moreover have "mem t (loc + k) = mem s (loc + k)" if "k < sz" for k
    using assms that by (intro local_evolves) (auto simp: src_pre_def)
  ultimately show ?thesis
    using assms by (auto simp: src_pre_def evolves_inv intro: far_range_evolves)
qed

interpretation cmp_dst: chunk_comparer E V "\<lambda>f cp bt s. memcmp_dst_loop f E loc sz cp bt s"
  "\<lambda>a j n s. c_memcmp (mem s) a (loc + j) n" far sz "src_pre E V loc far sz"
  "\<lambda>s k. the (view V s (far + k))" "\<lambda>s k. mem s (loc + k)" for E V far loc sz
proof (unfold_locales, goal_cases)
  case (5 s t)
  with src_pre_evolves show ?case by fastforce
next
  case (6 s j A n)
  then show ?case
    using resident_bytes [of E V loc far sz s j A n] unfolding c_memcmp_def
    by (intro memcmp_bytes) (simp add: add.assoc)
qed (simp_all add: chunk_room src_pre_def Let_def)

interpretation cmp_src: chunk_comparer E V "\<lambda>f cp bt s. memcmp_src_loop f E loc sz cp bt s"
  "\<lambda>a j n s. c_memcmp (mem s) (loc + j) a n" far sz "src_pre E V loc far sz"
  "\<lambda>s k. mem s (loc + k)" "\<lambda>s k. the (view V s (far + k))" for E V far loc sz
proof (unfold_locales, goal_cases)
  case (5 s t)
  with src_pre_evolves show ?case by fastforce
next
  case (6 s j A n)
  then show ?case
    using resident_bytes [of E V loc far sz s j A n] unfolding c_memcmp_def
    by (intro memcmp_bytes) (simp add: add.assoc)
qed (simp_all add: chunk_room src_pre_def Let_def)

text \<open>
  C17: comparing a remote buffer with a local one, in either order, returns and gives the sign
  of the first difference of the program's bytes, 0 if there is none.
\<close>

theorem carm_memcmp_remote:
  assumes "env_laws E V" "rt_inv V s" "far_range V s p n" "local_range V q n"
    and "\<not> check_carm_object q" "n \<le> MAX_WALK" "\<forall>k<n. view V s (p + k) \<noteq> None"
  shows "(\<exists>s'. carm_memcmp (enough_fuel n) E p q n s =
      Done (bytes_cmp (\<lambda>k. the (view V s (p + k))) (\<lambda>k. mem s (q + k)) 0 (unat n), s') \<and> evolves V s s') \<and>
    (\<exists>s'. carm_memcmp (enough_fuel n) E q p n s =
      Done (bytes_cmp (\<lambda>k. mem s (q + k)) (\<lambda>k. the (view V s (p + k))) 0 (unat n), s') \<and> evolves V s s')"
proof -
  have c: "check_carm_object p" using assms(3) by (simp add: far_range_def)
  have pre: "src_pre E V q p n s" using assms by (simp add: src_pre_def)
  from cmp_dst.loop_all [OF pre assms(6) at_get [OF c, of 0]]
    cmp_src.loop_all [OF pre assms(6) at_get [OF c, of 0]] c assms(5)
  show ?thesis by (simp add: carm_memcmp_def)
qed

theorem carm_memcmp_remote_witness:
  "(\<exists>s'. carm_memcmp (enough_fuel 300) sim_ops (CARM_PTR + 4000) 0x1000 300 (sim_far (\<lambda>_. 0) (\<lambda>i k. ucast i)) =
      Done (bytes_cmp (\<lambda>k. the (view sim_view (sim_far (\<lambda>_. 0) (\<lambda>i k. ucast i)) (CARM_PTR + 4000 + k)))
        (\<lambda>k. mem (sim_far (\<lambda>_. 0) (\<lambda>i k. ucast i)) (0x1000 + k)) 0 (unat (300 :: u64)), s') \<and>
      evolves sim_view (sim_far (\<lambda>_. 0) (\<lambda>i k. ucast i)) s') \<and>
   (\<exists>s'. carm_memcmp (enough_fuel 300) sim_ops 0x1000 (CARM_PTR + 4000) 300 (sim_far (\<lambda>_. 0) (\<lambda>i k. ucast i)) =
      Done (bytes_cmp (\<lambda>k. mem (sim_far (\<lambda>_. 0) (\<lambda>i k. ucast i)) (0x1000 + k))
        (\<lambda>k. the (view sim_view (sim_far (\<lambda>_. 0) (\<lambda>i k. ucast i)) (CARM_PTR + 4000 + k))) 0 (unat (300 :: u64)), s') \<and>
      evolves sim_view (sim_far (\<lambda>_. 0) (\<lambda>i k. ucast i)) s')"
proof (rule carm_memcmp_remote [OF sim_env_laws sim_far_inv])
  show "\<forall>k<300. view sim_view (sim_far (\<lambda>_. 0) (\<lambda>i k. ucast i)) (CARM_PTR + 4000 + k) \<noteq> None"
    by (simp add: sim_far_view [where n = 300])
qed (simp_all add: sim_far_range sim_local check_bit not_bit_60 MAX_WALK_def)

section \<open>\<open>strlen\<close>\<close>

text \<open>A string of \<open>n\<close> bytes at a remote address, as the program sees it.\<close>

definition far_string :: "'e env_view \<Rightarrow> 'e rt \<Rightarrow> ptr \<Rightarrow> u64 \<Rightarrow> bool" where
  "far_string V s p n \<longleftrightarrow> check_carm_object p \<and> unat (p XOR CARM_PTR) + unat n < 2 ^ 60 \<and>
     view V s (p + n) = Some 0 \<and> (\<forall>k<n. view V s (p + k) \<noteq> None \<and> view V s (p + k) \<noteq> Some 0)"

lemma scan_zero_hit:
  "(\<forall>i<k. m (d + of_nat i) \<noteq> 0) \<Longrightarrow> m (d + of_nat k) = 0 \<Longrightarrow> k < n \<Longrightarrow>
     scan_zero m d n len = Inl (len + of_nat k)"
proof (induction n arbitrary: d k len)
  case (Suc n)
  show ?case
  proof (cases k)
    case (Suc j)
    have "m d \<noteq> 0" using Suc.prems(1) [rule_format, of 0] Suc by simp
    moreover have "scan_zero m (d + 1) n (len + 1) = Inl (len + 1 + of_nat j)"
      using Suc.prems(2,3) Suc.prems(1) [rule_format, of "Suc i" for i] Suc
      by (intro Suc.IH) (simp_all add: add.assoc)
    ultimately show ?thesis by (simp add: Suc add.assoc)
  qed (use Suc.prems in simp)
qed simp

lemma scan_zero_miss:
  "(\<forall>i<n. m (d + of_nat i) \<noteq> 0) \<Longrightarrow> scan_zero m d n len = Inr (len + of_nat n)"
proof (induction n arbitrary: d len)
  case (Suc n)
  have "m d \<noteq> 0" using Suc.prems [rule_format, of 0] by simp
  moreover have "scan_zero m (d + 1) n (len + 1) = Inr (len + 1 + of_nat n)"
    using Suc.prems [rule_format, of "Suc i" for i] by (intro Suc.IH) (simp add: add.assoc)
  ultimately show ?case by (simp add: add.assoc)
qed simp

lemma far_string_evolves:
  assumes "far_string V s p n" "evolves V s t"
  shows "far_string V t p n"
proof -
  have "view V t q = view V s q" if "view V s q \<noteq> None" for q
    using that evolves_view [OF assms(2)] by auto
  with assms(1) show ?thesis by (simp add: far_string_def)
qed

lemma unat_small: "i \<le> unat (x :: u64) \<Longrightarrow> unat (of_nat i :: u64) = i"
  using le_less_trans [of i "unat x" "2 ^ LENGTH(64)"] unsigned_less [of x, where 'a = nat]
  by (subst unat_of_nat) simp

text \<open>The bytes of the string in one object.\<close>

lemma string_bytes:
  assumes str: "far_string V t p n" and j: "j \<le> n" and res: "resident V t (obj_of (p + j)) A"
    and i: "i \<le> unat (n - j)" "i < unat (room (p + j))"
  shows "mem t (A + off_of (p + j) + of_nat i) = 0 \<longleftrightarrow> i = unat (n - j)"
proof -
  have u: "unat (of_nat i :: u64) = i" using i(1) by (rule unat_small)
  have d: "unat (n - j) = unat n - unat j" using j by (rule unat_sub_le)
  have nb: "unat (p XOR CARM_PTR) + unat n < 2 ^ 60" "check_carm_object p"
    using str by (simp_all add: far_string_def)
  have jn: "unat j \<le> unat n" using j by (simp add: word_le_unat)
  have pj: "check_carm_object (p + j)" "unat ((p + j) XOR CARM_PTR) = unat (p XOR CARM_PTR) + unat j"
    using remote_add(1,3) [OF nb(2), of j] nb(1) jn by simp_all
  have read: "view V t (p + j + of_nat i) = Some (mem t (A + off_of (p + j) + of_nat i))"
    using i nb(1) jn d u by (intro resident_read [OF res pj(1)]) (simp_all add: pj(2) word_less_unat)
  have k: "unat (j + of_nat i) = unat j + i"
    using i(1) d jn u nb(1) by (subst unat_add_no_wrap) simp_all
  show ?thesis
  proof (cases "i = unat (n - j)")
    case True
    then have "j + of_nat i = n" using j by simp
    with str read True show ?thesis by (simp add: far_string_def add.assoc)
  next
    case False
    then have "j + of_nat i < n" using i(1) d jn by (simp add: word_less_unat k)
    with str have "view V t (p + (j + of_nat i)) \<noteq> Some 0" by (simp add: far_string_def)
    with read False show ?thesis by (simp add: add.assoc)
  qed
qed

lemma strlen_loop_spec:
  assumes "env_laws E V" "rt_inv V s" "far_string V s p n" "j \<le> n" "at_ptr cp (p + j)"
    and "unat (n - j) + unat (off_of (p + j)) < f * 4096"
  shows "\<exists>s'. strlen_loop f E cp j s = Done (n, s') \<and> evolves V s s'"
  using assms(2-)
proof (induction f arbitrary: s cp j)
  case (Suc f)
  let ?p = "p + j"
  have nb: "unat (p XOR CARM_PTR) + unat n < 2 ^ 60" "check_carm_object p"
    using Suc.prems(2) by (simp_all add: far_string_def)
  have jn: "unat j \<le> unat n" using Suc.prems(3) by (simp add: word_le_unat)
  have pj: "check_carm_object ?p" "unat (?p XOR CARM_PTR) = unat (p XOR CARM_PTR) + unat j"
    using remote_add(1,3) [OF nb(2), of j] nb(1) jn by simp_all
  have "view V s ?p \<noteq> None" using Suc.prems(2,3) by (cases "j = n") (auto simp: far_string_def)
  from view_accessible [OF pj(1) this] Suc.prems(4) obtain A t where
    d: "ptrDeref E cp s = Done (A + off_of ?p, t)" "evolves V s t" "resident V t (obj_of ?p) A"
    using ptrDeref_rule [OF assms(1) Suc.prems(1), of cp] by (auto simp: at_ptr_def)
  note str = far_string_evolves [OF Suc.prems(2) d(2)]
  note bytes = string_bytes [OF str Suc.prems(3) d(3)]
  have uc: "unat (chunk cp) = unat (room ?p)" by (simp add: chunk_at [OF Suc.prems(4)] unat_ucast_room)
  have dn: "unat (n - j) = unat n - unat j" using Suc.prems(3) by (rule unat_sub_le)
  show ?case
  proof (cases "unat (n - j) < unat (room ?p)")
    case True
    have "scan_zero (mem t) (A + off_of ?p) (unat (room ?p)) j = Inl (j + of_nat (unat (n - j)))"
      by (intro scan_zero_hit) (use True bytes [of "unat (n - j)"] bytes in auto)
    with d show ?thesis by (auto simp: uc)
  next
    case False
    let ?k = "j + room ?p"
    have z: "scan_zero (mem t) (A + off_of ?p) (unat (room ?p)) j = Inr ?k"
      using False bytes scan_zero_miss [of "unat (room ?p)" "mem t" "A + off_of ?p" j] by simp
    have uk: "unat ?k = unat j + unat (room ?p)"
      using False dn jn nb(1) by (subst unat_add_no_wrap) simp_all
    have kn: "?k \<le> n" using False dn jn by (simp add: word_le_unat uk)
    have lt: "unat (?p XOR CARM_PTR) + unat (room ?p) < 2 ^ 60"
      using False dn jn nb(1) by (simp add: pj(2))
    have at': "at_ptr (next_obj cp) (p + ?k)"
      using at_next [OF Suc.prems(4) pj(1) lt] by (simp add: add.assoc)
    have "off_of (p + ?k) = 0"
      using next_object(2) [OF pj(1) lt] unat_off_of_lt [of ?p] by (simp add: unat_room add.assoc)
    moreover have "unat (n - ?k) = unat (n - j) - unat (room ?p)"
      using kn by (simp add: unat_sub_le dn uk)
    ultimately have fuel: "unat (n - ?k) + unat (off_of (p + ?k)) < f * 4096"
      using Suc.prems(5) False unat_off_of_lt [of ?p] by (simp add: unat_room)
    from Suc.IH [OF evolves_inv [OF d(2)] str kn at' fuel] obtain s' where
      "strlen_loop f E (next_obj cp) ?k t = Done (n, s')" "evolves V t s'" by blast
    moreover have "valid_size (chunk cp)"
      using chunk_room(3) [OF Suc.prems(4)] by (simp add: valid_size_def)
    ultimately show ?thesis using d z by (auto simp: uc intro: evolves_trans)
  qed
qed simp

text \<open>
  C18: \<open>carm_strlen\<close> returns on every terminated remote string and gives its length, over any
  number of objects.
\<close>

theorem carm_strlen_remote:
  assumes "env_laws E V" "rt_inv V s" "far_string V s p n"
  shows "\<exists>s'. carm_strlen (enough_fuel n) E p s = Done (n, s') \<and> evolves V s s'"
proof -
  have c: "check_carm_object p" using assms(3) by (simp add: far_string_def)
  have "unat (n - 0) + unat (off_of (p + 0)) < enough_fuel n * 4096"
    using enough_fuel_bound [of n p] by (simp add: enough_fuel_def)
  with strlen_loop_spec [OF assms, of 0 "get_carm_ptr p 0" "enough_fuel n"] at_get [OF c, of 0] c
  show ?thesis by (simp add: carm_strlen_def)
qed

text \<open>A string of 101 bytes from offset 4000 of object 0, ended in object 1.\<close>

definition sim_string :: "sim rt" where
  "sim_string = sim_far (\<lambda>_. 0) (\<lambda>i k. if i = 1 \<and> k = 5 then 0 else 65)"

lemma sim_string_ok: "far_string sim_view sim_string (CARM_PTR + 4000) 101"
proof -
  have "view sim_view sim_string (CARM_PTR + 4000 + k) = Some 65" if k: "k < 101" for k
  proof -
    have "\<not> ((4000 + k) div 4096 = 1 \<and> (4000 + k) mod 4096 = 5)"
    proof
      assume a: "(4000 + k) div 4096 = 1 \<and> (4000 + k) mod 4096 = 5"
      have "(4000 + k) div 4096 * 4096 + (4000 + k) mod 4096 = 4000 + k"
        by (rule div_mult_mod_eq)
      then have "4000 + k = 4101" using a by simp
      then have "k = 101" by (simp add: algebra_simps)
      with k show False by simp
    qed
    with sim_far_view [of 4000 200 k] k show ?thesis
      by (auto simp: sim_string_def word_less_unat)
  qed
  moreover have "view sim_view sim_string (CARM_PTR + 4000 + 101) = Some 0"
    using sim_far_view [of 4000 200 101] by (simp add: sim_string_def)
  ultimately show ?thesis
    using check_CARM_add [of 4000] xor_CARM_sub [OF check_CARM_add [of 4000]]
    by (simp add: far_string_def)
qed

theorem carm_strlen_remote_witness:
  "\<exists>s'. carm_strlen (enough_fuel 101) sim_ops (CARM_PTR + 4000) sim_string = Done (101, s') \<and>
    evolves sim_view sim_string s'"
  by (rule carm_strlen_remote [OF sim_env_laws _ sim_string_ok]) (simp add: sim_string_def sim_far_inv)

section \<open>String copy and comparison\<close>

lemma int_size_small: "unat x < 2 ^ 31 \<Longrightarrow> int_size x = x"
proof -
  assume x: "unat x < 2 ^ 31"
  then have u: "unat (ucast x :: u32) = unat x"
    by (simp add: unsigned_ucast_eq take_bit_eq_mod)
  then have "(scast (ucast x :: u32) :: u64) = ucast (ucast x :: u32)"
    using x by (intro scast_small) simp
  then show ?thesis using u by (simp add: int_size_def word_unat_eq_iff)
qed

text \<open>A terminated remote string, its bytes and terminator as a remote source.\<close>

lemma string_source:
  assumes "env_laws E V" "rt_inv V s" "far_string V s p n" "local_range V q (n + 1)"
    and "unat n + 1 < 2 ^ 31"
  shows "src_pre E V q p (n + 1) s" "n + 1 \<le> MAX_WALK" "int_size (n + 1) = n + 1"
    "unat (n + 1) = unat n + 1"
proof -
  show u: "unat (n + 1) = unat n + 1" using assms(5) by (subst unat_add_no_wrap) simp_all
  have le: "k < n + 1 \<longleftrightarrow> k < n \<or> k = n" for k
    by (auto simp: word_less_unat u less_Suc_eq word_unat_eq_iff)
  have v: "view V s (p + k) \<noteq> None" if "k < n + 1" for k
    using that assms(3) by (auto simp: le far_string_def)
  have c: "check_carm_object p" "unat (p XOR CARM_PTR) + unat n < 2 ^ 60"
    using assms(3) by (simp_all add: far_string_def)
  have "accessible V s (obj_of (p + k))" if "k < n + 1" for k
  proof -
    have "unat (p XOR CARM_PTR) + unat k < 2 ^ 60" using c(2) that by (simp add: word_less_unat u)
    from view_accessible [OF remote_add(1) [OF c(1) this] v [OF that]] show ?thesis .
  qed
  then have "far_range V s p (n + 1)" using c by (simp add: far_range_def u)
  then show "src_pre E V q p (n + 1) s" using assms v by (simp add: src_pre_def)
  show "n + 1 \<le> MAX_WALK" using assms(5) by (simp add: word_le_unat u MAX_WALK_def)
  show "int_size (n + 1) = n + 1" using assms(5) u by (intro int_size_small) simp
qed

lemma strlen_then:
  assumes "env_laws E V" "rt_inv V s" "far_string V s p n" "local_range V q (n + 1)"
    and "unat n + 1 < 2 ^ 31"
  obtains t where "strlen_loop (enough_fuel (n + 1)) E (get_carm_ptr p 0) 0 s = Done (n, t)"
    "evolves V s t" "src_pre E V q p (n + 1) t"
    "\<And>k. k < n + 1 \<Longrightarrow> view V t (p + k) = view V s (p + k) \<and> mem t (q + k) = mem s (q + k)"
proof -
  note src = string_source [OF assms]
  have c: "check_carm_object p" using assms(3) by (simp add: far_string_def)
  have "unat (n - 0) + unat (off_of (p + 0)) < enough_fuel (n + 1) * 4096"
    using enough_fuel_bound [of "n + 1" p] src(4) by (simp add: enough_fuel_def)
  with strlen_loop_spec [OF assms(1-3), of 0 "get_carm_ptr p 0" "enough_fuel (n + 1)"]
    at_get [OF c, of 0] obtain t where
    t: "strlen_loop (enough_fuel (n + 1)) E (get_carm_ptr p 0) 0 s = Done (n, t)" "evolves V s t"
    by auto
  from src_pre_evolves [OF src(1) t(2)] t that show thesis by blast
qed

text \<open>
  C19: copying a terminated remote string into a local buffer returns and writes the string with
  its terminator, and nothing else.
\<close>

theorem carm_strcpy_to_local:
  assumes "env_laws E V" "rt_inv V s" "far_string V s p n" "local_range V d (n + 1)"
    and "unat n + 1 < 2 ^ 31" "\<not> check_carm_object d"
  shows "\<exists>s'. carm_strcpy (enough_fuel (n + 1)) E d p s = Done (d, s') \<and>
    writes V s s' d (n + 1) (\<lambda>k. the (view V s (p + k)))"
proof -
  have c: "check_carm_object p" using assms(3) by (simp add: far_string_def)
  note src = string_source [OF assms(1-5)]
  obtain t where t: "strlen_loop (enough_fuel (n + 1)) E (get_carm_ptr p 0) 0 s = Done (n, t)"
    "evolves V s t" "src_pre E V d p (n + 1) t"
    "\<And>k. k < n + 1 \<Longrightarrow> view V t (p + k) = view V s (p + k) \<and> mem t (d + k) = mem s (d + k)"
    by (rule strlen_then [OF assms(1-5)]) blast
  from cp_src.loop_all [OF t(3) src(2) at_get [OF c, of 0] get_mut(1) [OF c]] obtain s' where
    u: "memcpy_src_loop (enough_fuel (n + 1)) E d (n + 1) (get_carm_ptr p 0) 0 t = Done s'"
      "writes V t s' d (n + 1) (\<lambda>k. the (view V t (p + k)))" by blast
  have "writes V s s' d (n + 1) (\<lambda>k. the (view V s (p + k)))"
    by (rule writes_cong [OF evolves_writes [OF t(2) u(2)]]) (simp add: t(4))
  moreover have "carm_strcpy (enough_fuel (n + 1)) E d p s = Done (d, s')"
    using c assms(6) t(1) u(1) src(3)
    by (simp add: carm_strcpy_def carm_strcpy_src_def carm_strlen_def carm_memcpy_def Let_def)
  ultimately show ?thesis by blast
qed

theorem carm_strcpy_to_local_witness:
  "\<exists>s'. carm_strcpy (enough_fuel (101 + 1)) sim_ops 0x1000 (CARM_PTR + 4000) sim_string = Done (0x1000, s') \<and>
    writes sim_view sim_string s' 0x1000 (101 + 1)
      (\<lambda>k. the (view sim_view sim_string (CARM_PTR + 4000 + k)))"
  by (rule carm_strcpy_to_local [OF sim_env_laws _ sim_string_ok])
    (simp_all add: sim_string_def sim_far_inv sim_local check_bit not_bit_60)

text \<open>
  Comparing a local string with a terminated remote one returns 0 exactly if the local
  buffer holds the remote string and its terminator, and otherwise the sign of the first
  difference.
\<close>

theorem carm_strcmp_remote:
  assumes "env_laws E V" "rt_inv V s" "far_string V s p n" "local_range V d (n + 1)"
    and "unat n + 1 < 2 ^ 31" "\<not> check_carm_object d"
  shows "\<exists>r s'. carm_strcmp (enough_fuel (n + 1)) E d p s = Done (r, s') \<and> evolves V s s' \<and>
    r = bytes_cmp (\<lambda>k. mem s (d + k)) (\<lambda>k. the (view V s (p + k))) 0 (unat n + 1) \<and>
    (r = 0 \<longleftrightarrow> (\<forall>k<n + 1. mem s (d + k) = the (view V s (p + k))))"
proof -
  have c: "check_carm_object p" using assms(3) by (simp add: far_string_def)
  note src = string_source [OF assms(1-5)]
  let ?L = "\<lambda>k. mem s (d + k)" and ?R = "\<lambda>k. the (view V s (p + k))"
  obtain t where t: "strlen_loop (enough_fuel (n + 1)) E (get_carm_ptr p 0) 0 s = Done (n, t)"
    "evolves V s t" "src_pre E V d p (n + 1) t"
    "\<And>k. k < n + 1 \<Longrightarrow> view V t (p + k) = view V s (p + k) \<and> mem t (d + k) = mem s (d + k)"
    by (rule strlen_then [OF assms(1-5)]) blast
  have idx: "(of_nat i :: u64) < n + 1" if "i < unat n + 1" for i
    using that unat_small [of i n] by (simp add: word_less_unat src(4))
  have same: "bytes_cmp (\<lambda>k. mem t (d + k)) (\<lambda>k. the (view V t (p + k))) 0 (unat n + 1) =
      bytes_cmp ?L ?R 0 (unat n + 1)"
    by (rule bytes_cmp_cong) (simp add: t(4) idx)
  from cmp_src.loop_all [OF t(3) src(2) at_get [OF c, of 0]] obtain s' where
    u: "memcmp_src_loop (enough_fuel (n + 1)) E d (n + 1) (get_carm_ptr p 0) 0 t =
        Done (bytes_cmp ?L ?R 0 (unat n + 1), s')" "evolves V t s'"
    unfolding src(4) same by blast
  have "carm_strcmp (enough_fuel (n + 1)) E d p s = Done (bytes_cmp ?L ?R 0 (unat n + 1), s')"
    using c assms(6) t(1) u(1) src(3)
    by (simp add: carm_strcmp_def carm_strcmp_src_def carm_strlen_def carm_memcmp_def)
  moreover have "evolves V s s'" using t(2) u(2) by (rule evolves_trans)
  moreover have "bytes_cmp ?L ?R 0 (unat n + 1) = 0 \<longleftrightarrow> (\<forall>k<n + 1. ?L k = ?R k)"
  proof -
    have "(\<forall>i<unat n + 1. ?L (of_nat i) = ?R (of_nat i)) \<longleftrightarrow> (\<forall>k<n + 1. ?L k = ?R k)"
    proof (intro iffI allI impI)
      fix k assume a: "\<forall>i<unat n + 1. ?L (of_nat i) = ?R (of_nat i)" and k: "k < n + 1"
      then have "unat k < unat n + 1" by (simp add: word_less_unat src(4))
      with a have "?L (of_nat (unat k)) = ?R (of_nat (unat k))" by blast
      then show "?L k = ?R k" by simp
    qed (use idx in blast)
    then show ?thesis using bytes_cmp_zero [of ?L ?R 0 "unat n + 1"] by simp
  qed
  ultimately show ?thesis by blast
qed

theorem carm_strcmp_remote_witness:
  "\<exists>r s'. carm_strcmp (enough_fuel (101 + 1)) sim_ops 0x1000 (CARM_PTR + 4000) sim_string = Done (r, s') \<and>
    evolves sim_view sim_string s' \<and>
    r = bytes_cmp (\<lambda>k. mem sim_string (0x1000 + k))
      (\<lambda>k. the (view sim_view sim_string (CARM_PTR + 4000 + k))) 0 (unat (101 :: u64) + 1) \<and>
    (r = 0 \<longleftrightarrow> (\<forall>k<101 + 1. mem sim_string (0x1000 + k) =
       the (view sim_view sim_string (CARM_PTR + 4000 + k))))"
  by (rule carm_strcmp_remote [OF sim_env_laws _ sim_string_ok])
    (simp_all add: sim_string_def sim_far_inv sim_local check_bit not_bit_60)

section \<open>\<open>memchr\<close>\<close>

lemma scan_char_hit:
  "(\<forall>i<k. (ucast (m (d + of_nat i)) :: u32) \<noteq> c) \<Longrightarrow> ucast (m (d + of_nat k)) = c \<Longrightarrow> k < n \<Longrightarrow>
     scan_char m d c n len = Inl (len + of_nat k)"
proof (induction n arbitrary: d k len)
  case (Suc n)
  show ?case
  proof (cases k)
    case (Suc j)
    have "ucast (m d) \<noteq> c" using Suc.prems(1) [rule_format, of 0] Suc by simp
    moreover have "scan_char m (d + 1) c n (len + 1) = Inl (len + 1 + of_nat j)"
      using Suc.prems(2,3) Suc.prems(1) [rule_format, of "Suc i" for i] Suc
      by (intro Suc.IH) (simp_all add: add.assoc)
    ultimately show ?thesis by (simp add: Suc add.assoc)
  qed (use Suc.prems in simp)
qed simp

lemma ucast_u8_inj: "(ucast (a :: u8) :: u32) = ucast b \<longleftrightarrow> a = b"
proof -
  have "unat (ucast x :: u32) = unat x" for x :: u8 by transfer simp
  then show ?thesis by (metis word_unat_eq_iff)
qed

text \<open>
  C21: \<open>carm_memchr\<close> with a positive size returns the first match in the whole first object,
  also when the match lies beyond the \<open>n\<close> bytes the caller asked for.
\<close>

theorem carm_memchr_whole_object:
  assumes "env_laws E V" "rt_inv V s" "check_carm_object p" "unat (p XOR CARM_PTR) + 4096 < 2 ^ 60"
    and "0 < n" "j < room p" "view V s (p + j) = Some c"
    and "\<forall>k<j. view V s (p + k) \<noteq> None \<and> view V s (p + k) \<noteq> Some c"
  shows "\<exists>s'. carm_memchr (Suc f) E p (ucast c) n s = Done (p + j, s')"
proof -
  have at: "at_ptr (get_carm_ptr p 0) p" by (rule at_get [OF assms(3)])
  have "view V s (p + 0) \<noteq> None" using assms(7,8) by (cases "j = 0") (auto simp: word_neq_0_conv)
  then have "accessible V s (obj_of p)" using view_accessible [OF assms(3)] by simp
  with at obtain A t where d: "ptrDeref E (get_carm_ptr p 0) s = Done (A + off_of p, t)" "evolves V s t"
      "resident V t (obj_of p) A"
    using ptrDeref_rule [OF assms(1,2), of "get_carm_ptr p 0"] by (auto simp: at_ptr_def)
  have read: "view V t (p + k) = Some (mem t (A + off_of p + k))" if "k \<le> j" for k
  proof -
    have "k < room p" using that assms(6) by simp
    then show ?thesis
      using unat_room_bounds(2) [of p] assms(4) by (intro resident_read [OF d(3) assms(3)]) (simp_all add: word_less_unat)
  qed
  have "mem t (A + off_of p + j) = c"
    using read [of j] evolves_view [OF d(2) assms(7)] by simp
  moreover have "mem t (A + off_of p + k) \<noteq> c" if k: "k < j" for k
  proof -
    obtain b where "view V s (p + k) = Some b" "b \<noteq> c"
      using assms(8) k by (cases "view V s (p + k)") auto
    with evolves_view [OF d(2) this(1)] read [of k] k show ?thesis by simp
  qed
  ultimately have "scan_char (mem t) (A + off_of p) (ucast c) (unat (room p)) 0 = Inl (0 + of_nat (unat j))"
    using assms(6) by (intro scan_char_hit) (auto simp: ucast_u8_inj word_less_unat unat_small [of _ j])
  moreover have "unat (chunk (get_carm_ptr p 0)) = unat (room p)"
    by (simp add: chunk_at [OF at] unat_ucast_room)
  ultimately show ?thesis using d(1) assms(3,5) by (simp add: carm_memchr_def)
qed

theorem carm_memchr_whole_object_witness:
  "\<exists>s'. carm_memchr (Suc 0) sim_ops CARM_PTR (ucast (66 :: u8)) 4
      (sim_far (\<lambda>_. 0) (\<lambda>i k. if k = 10 then 66 else 1)) = Done (CARM_PTR + 10, s')"
proof (rule carm_memchr_whole_object [OF sim_env_laws sim_far_inv])
  have v: "view sim_view (sim_far (\<lambda>_. 0) (\<lambda>i k. if k = 10 then 66 else 1)) (CARM_PTR + k) =
      Some (if k = 10 then 66 else 1)" if k: "k < 100" for k
  proof -
    have "unat (k mod 4096) = unat k" using k by (simp add: word_less_unat)
    then have "k mod 4096 = k" by (simp only: word_unat_eq_iff)
    then show ?thesis using sim_far_view [of 0 100 k] k by simp
  qed
  show "view sim_view (sim_far (\<lambda>_. 0) (\<lambda>i k. if k = 10 then 66 else 1)) (CARM_PTR + 10) = Some 66"
    by (simp add: v)
  show "\<forall>k<10. view sim_view (sim_far (\<lambda>_. 0) (\<lambda>i k. if k = 10 then 66 else 1)) (CARM_PTR + k) \<noteq> None \<and>
      view sim_view (sim_far (\<lambda>_. 0) (\<lambda>i k. if k = 10 then 66 else 1)) (CARM_PTR + k) \<noteq> Some 66"
    using less_trans [of _ "10 :: u64" 100] by (auto simp: v)
qed (simp_all add: check_bit bit_CARM_PTR room_def off_of_def OBJ_SIZE_def)

end
