(* ===== verification/Libc_Printf.thy ===== *)
theory Libc_Printf
  imports Libc_Str
begin

text \<open>
  The formatted output functions of \<open>src/libc_support.cpp\<close>. Variable arguments are a list of
  typed values; asking for the wrong type or for one too many is \<open>Faulted\<close>. What the C
  library prints (\<open>vsnprintf\<close>, and \<open>sprintf\<close> of a double) and scans is a parameter
  \<open>stdlib\<close>; decimal integers are printed here. The buffers the source has on its stack are at
  addresses passed as parameters, and a text too long for its buffer is \<open>Faulted\<close>.
\<close>

section \<open>Arguments\<close>

datatype varg = VInt u64 | VDbl u64

record stdlib =
  l_vsnprintf :: "memory \<Rightarrow> ptr \<Rightarrow> varg list \<Rightarrow> u8 list"
  l_show_f :: "u64 \<Rightarrow> u8 list"
  l_vsscanf :: "ptr \<Rightarrow> ptr \<Rightarrow> varg list \<Rightarrow> memory \<Rightarrow> u32 \<times> memory"

definition va_int :: "varg list \<Rightarrow> (u64 \<times> varg list) run" where
  "va_int vs = (case vs of VInt x # vs \<Rightarrow> Done (x, vs) | _ \<Rightarrow> Faulted)"

definition va_dbl :: "varg list \<Rightarrow> (u64 \<times> varg list) run" where
  "va_dbl vs = (case vs of VDbl x # vs \<Rightarrow> Done (x, vs) | _ \<Rightarrow> Faulted)"

section \<open>Conversion codes\<close>

datatype fcode = Cd | Cu | Co | Cx | CX | Cf | CF | Ce | CE | Cg | CG | Ca | CA | Cc | Cs | Cp | Cn | Cps | Cl

text \<open>\<open>fp = "duoxXfFeEgGaAcspn%l"\<close>, in the order of the enumeration.\<close>

definition fp :: "(u8 \<times> fcode) list" where
  "fp = [(100, Cd), (117, Cu), (111, Co), (120, Cx), (88, CX), (102, Cf), (70, CF), (101, Ce),
         (69, CE), (103, Cg), (71, CG), (97, Ca), (65, CA), (99, Cc), (115, Cs), (112, Cp),
         (110, Cn), (37, Cps), (108, Cl)]"

definition getType :: "u8 \<Rightarrow> fcode option" where
  "getType a = map_of fp a"

record numeric =
  nu_type :: fcode
  nu_i :: u32
  nu_f :: u64
  nu_ui :: u32
  nu_p :: u64
  nu_l :: u64

definition MAX_VA_ARGS :: nat where "MAX_VA_ARGS = 32"
definition MAX_VA_STR_SIZE :: u64 where "MAX_VA_STR_SIZE = 4096"

text \<open>\<open>get_va_args_value\<close>: the entry, the rest of the arguments, and whether it is remote.\<close>

definition get_va_args_value ::
    "fcode \<Rightarrow> numeric \<Rightarrow> varg list \<Rightarrow> bool \<Rightarrow> (numeric \<times> varg list \<times> bool) run" where
  "get_va_args_value c ns vs r =
     (case c of
        Cd \<Rightarrow> bindR (va_int vs) (\<lambda>(x, vs). Done (ns\<lparr>nu_i := ucast x, nu_type := Cd\<rparr>, vs, r))
      | Cu \<Rightarrow> bindR (va_int vs) (\<lambda>(x, vs). Done (ns\<lparr>nu_ui := ucast x, nu_type := Cu\<rparr>, vs, r))
      | Co \<Rightarrow> bindR (va_int vs) (\<lambda>(x, vs). Done (ns\<lparr>nu_ui := ucast x, nu_type := Cu\<rparr>, vs, r))
      | Cx \<Rightarrow> bindR (va_int vs) (\<lambda>(x, vs). Done (ns\<lparr>nu_ui := ucast x, nu_type := Cu\<rparr>, vs, r))
      | CX \<Rightarrow> bindR (va_int vs) (\<lambda>(x, vs). Done (ns\<lparr>nu_ui := ucast x, nu_type := Cu\<rparr>, vs, r))
      | Cf \<Rightarrow> bindR (va_dbl vs) (\<lambda>(x, vs). Done (ns\<lparr>nu_f := x, nu_type := Cf\<rparr>, vs, r))
      | CF \<Rightarrow> bindR (va_int vs) (\<lambda>(x, vs). Done (ns\<lparr>nu_i := ucast x, nu_type := Cd\<rparr>, vs, r))
      | Ce \<Rightarrow> bindR (va_int vs) (\<lambda>(x, vs). Done (ns\<lparr>nu_i := ucast x, nu_type := Cd\<rparr>, vs, r))
      | CE \<Rightarrow> bindR (va_int vs) (\<lambda>(x, vs). Done (ns\<lparr>nu_i := ucast x, nu_type := Cd\<rparr>, vs, r))
      | Cg \<Rightarrow> bindR (va_int vs) (\<lambda>(x, vs). Done (ns\<lparr>nu_i := ucast x, nu_type := Cd\<rparr>, vs, r))
      | CG \<Rightarrow> bindR (va_int vs) (\<lambda>(x, vs). Done (ns\<lparr>nu_i := ucast x, nu_type := Cd\<rparr>, vs, r))
      | Ca \<Rightarrow> bindR (va_dbl vs) (\<lambda>(x, vs). Done (ns\<lparr>nu_f := x, nu_type := Cf\<rparr>, vs, r))
      | CA \<Rightarrow> bindR (va_dbl vs) (\<lambda>(x, vs). Done (ns\<lparr>nu_f := x, nu_type := Cf\<rparr>, vs, r))
      | Cc \<Rightarrow> bindR (va_int vs) (\<lambda>(x, vs). Done (ns\<lparr>nu_i := ucast x, nu_type := Cd\<rparr>, vs, r))
      | Cs \<Rightarrow> bindR (va_int vs) (\<lambda>(x, vs).
                Done (ns\<lparr>nu_p := x, nu_type := Cp\<rparr>, vs, r \<or> check_carm_object x))
      | Cp \<Rightarrow> bindR (va_int vs) (\<lambda>(x, vs).
                Done (ns\<lparr>nu_p := x, nu_type := Cp\<rparr>, vs, r \<or> check_carm_object x))
      | Cl \<Rightarrow> bindR (va_int vs) (\<lambda>(x, vs). Done (ns\<lparr>nu_l := x, nu_type := Cl\<rparr>, vs, r))
      | Cn \<Rightarrow> Done (ns, vs, r)
      | Cps \<Rightarrow> Done (ns, vs, r))"

text \<open>
  \<open>parse_va_arg_types\<close> from index \<open>i\<close>: the codes after each percent sign. The 33rd does not
  fit the array.
\<close>

fun parse_from :: "memory \<Rightarrow> ptr \<Rightarrow> nat \<Rightarrow> nat \<Rightarrow> fcode list \<Rightarrow> fcode list run" where
  "parse_from m fmt i 0 ts = Done (rev ts)"
| "parse_from m fmt i (Suc n) ts =
     (if 0 < i \<and> m (fmt + of_nat (i - 1)) = 37
      then case getType (m (fmt + of_nat i)) of
             None \<Rightarrow> parse_from m fmt (Suc i) n ts
           | Some c \<Rightarrow> if c = Cps \<or> c = Cn then parse_from m fmt (Suc i) n ts
                       else if length ts < MAX_VA_ARGS then parse_from m fmt (Suc i) n (c # ts)
                       else Faulted
      else parse_from m fmt (Suc i) n ts)"

definition parse_va_arg_types :: "memory \<Rightarrow> u64 \<Rightarrow> ptr \<Rightarrow> fcode list run" where
  "parse_va_arg_types m sz fmt = parse_from m fmt 0 (nat (sint (ucast sz :: u32))) []"

text \<open>The loop of \<open>PARSE_VA_LIST\<close> over the global array of entries.\<close>

fun read_args :: "fcode list \<Rightarrow> nat \<Rightarrow> numeric list \<Rightarrow> varg list \<Rightarrow> bool \<Rightarrow> (numeric list \<times> bool) run" where
  "read_args [] i ns vs r = Done (ns, r)"
| "read_args (c # cs) i ns vs r =
     (if i < length ns
      then bindR (get_va_args_value c (ns ! i) vs r) (\<lambda>(x, vs, r). read_args cs (Suc i) (ns[i := x]) vs r)
      else Faulted)"

text \<open>\<open>PARSE_VA_LIST\<close>: entries, number of arguments, and whether one is remote.\<close>

definition PARSE_VA_LIST ::
    "nat \<Rightarrow> memory \<Rightarrow> ptr \<Rightarrow> varg list \<Rightarrow> numeric list \<Rightarrow> (numeric list \<times> nat \<times> bool) run" where
  "PARSE_VA_LIST f m fmt vs ns =
     bindR (c_strlen f m fmt) (\<lambda>l. bindR (parse_va_arg_types m l fmt) (\<lambda>ts.
       bindR (read_args ts 0 ns vs False) (\<lambda>(ns, r). Done (ns, length ts, r))))"

section \<open>Printing\<close>

text \<open>Decimal digits, the lowest first.\<close>

fun dec_digits :: "nat \<Rightarrow> nat \<Rightarrow> u8 list" where
  "dec_digits 0 n = []"
| "dec_digits (Suc k) n =
     (if n < 10 then [48 + of_nat n] else (48 + of_nat (n mod 10)) # dec_digits k (n div 10))"

definition show_u :: "u32 \<Rightarrow> u8 list" where
  "show_u x = rev (dec_digits 11 (unat x))"

definition show_d :: "u32 \<Rightarrow> u8 list" where
  "show_d x = (if sint x < 0 then 45 # rev (dec_digits 11 (nat (- sint x)))
               else rev (dec_digits 11 (nat (sint x))))"

fun poke :: "memory \<Rightarrow> ptr \<Rightarrow> u8 list \<Rightarrow> memory" where
  "poke m p [] = m"
| "poke m p (b # bs) = poke (m(p := b)) (p + 1) bs"

text \<open>\<open>sprintf(numchar, ...)\<close> into the 100 bytes of the buffer.\<close>

definition sprintf_num :: "ptr \<Rightarrow> u8 list \<Rightarrow> 'e rt \<Rightarrow> 'e rt run" where
  "sprintf_num numchar bs s =
     (if length bs < 100 then Done (s\<lparr>mem := poke (mem s) numchar (bs @ [0])\<rparr>) else Faulted)"

text \<open>Copies the printed number behind the output so far.\<close>

definition emit_num ::
    "nat \<Rightarrow> 'e env_ops \<Rightarrow> ptr \<Rightarrow> u8 list \<Rightarrow> ptr \<Rightarrow> u32 \<Rightarrow> 'e rt \<Rightarrow> (ptr \<times> u32 \<times> 'e rt) run" where
  "emit_num f E numchar bs temp sz s =
     bindR (sprintf_num numchar bs s) (\<lambda>s.
       bindR (carm_memcpy f E temp numchar (of_nat (length bs)) s) (\<lambda>(_, s).
         Done (temp + of_nat (length bs), sz + of_nat (length bs), s)))"

text \<open>One conversion of \<open>__vsn_printf\<close>; an entry beyond the parsed ones is not initialised.\<close>

definition emit_conv ::
    "nat \<Rightarrow> 'e env_ops \<Rightarrow> stdlib \<Rightarrow> ptr \<Rightarrow> u8 \<Rightarrow> numeric \<Rightarrow> ptr \<Rightarrow> u32 \<Rightarrow> 'e rt \<Rightarrow> (ptr \<times> u32 \<times> 'e rt) run" where
  "emit_conv f E lib numchar c v temp sz s =
     (if c = 115
      then bindR (carm_strlen f E (nu_p v) s) (\<lambda>(l, s).
             let size_varg = ucast (l + 1) :: u32
             in bindR (carm_memcpy f E temp (nu_p v) (scast size_varg) s) (\<lambda>(_, s).
                  Done (temp + scast size_varg, sz + size_varg, s)))
      else if c = 100 then emit_num f E numchar (show_d (nu_i v)) temp sz s
      else if c = 117 then emit_num f E numchar (show_u (nu_ui v)) temp sz s
      else if c = 103 \<or> c = 102 then emit_num f E numchar (l_show_f lib (nu_f v)) temp sz s
      else Exited)"

text \<open>
  The loop of \<open>__vsn_printf\<close>. The percent sign is counted as well as its conversion.
\<close>

fun vsn_loop ::
    "nat \<Rightarrow> 'e env_ops \<Rightarrow> stdlib \<Rightarrow> ptr \<Rightarrow> numeric list \<Rightarrow> nat \<Rightarrow> ptr \<Rightarrow> nat \<Rightarrow> ptr \<Rightarrow> u32 \<Rightarrow> 'e rt \<Rightarrow>
      (u32 \<times> 'e rt) run" where
  "vsn_loop 0 E lib numchar ns nargs format i temp sz s = OutOfFuel"
| "vsn_loop (Suc f) E lib numchar ns nargs format i temp sz s =
     (if mem s format = 0 then Done (sz, s)
      else if mem s format = 37
      then let c = mem s (format + 1)
           in if c \<in> {115, 100, 117, 103, 102} \<and> \<not> (i < nargs \<and> i < length ns) then Faulted
              else bindR (emit_conv f E lib numchar c (ns ! i) temp (sz + 1) s) (\<lambda>(temp, sz, s).
                     vsn_loop f E lib numchar ns nargs (format + 2) (Suc i) temp sz s)
      else vsn_loop f E lib numchar ns nargs (format + 1) i (temp + 1) (sz + 1)
             (s\<lparr>mem := (mem s)(temp := mem s format)\<rparr>))"

definition vsn_printf ::
    "nat \<Rightarrow> 'e env_ops \<Rightarrow> stdlib \<Rightarrow> ptr \<Rightarrow> ptr \<Rightarrow> ptr \<Rightarrow> numeric list \<Rightarrow> nat \<Rightarrow> 'e rt \<Rightarrow> (u32 \<times> 'e rt) run" where
  "vsn_printf f E lib numchar str format ns nargs s =
     (let n = of_nat MAX_VA_ARGS * MAX_VA_STR_SIZE
      in case e_malloc E n (env s) of (temp, e) \<Rightarrow>
        let s = s\<lparr>env := e, mem := c_memset (mem s) temp 0 n\<rparr>
        in bindR (vsn_loop f E lib numchar ns nargs format 0 temp 0 s) (\<lambda>(sz, s).
             bindR (carm_memcpy f E str temp (scast sz) s) (\<lambda>(_, s).
               Done (sz, s\<lparr>env := e_free E temp (env s)\<rparr>))))"

text \<open>\<open>vsnprintf(str, size, ...)\<close> of the C library: at most \<open>size\<close> bytes with the zero.\<close>

definition c_vsnprintf :: "stdlib \<Rightarrow> memory \<Rightarrow> ptr \<Rightarrow> u64 \<Rightarrow> ptr \<Rightarrow> varg list \<Rightarrow> u32 \<times> memory" where
  "c_vsnprintf lib m str sz fmt vs =
     (let bs = l_vsnprintf lib m fmt vs
      in (of_nat (length bs), if sz = 0 then m else poke m str (take (unat sz - 1) bs @ [0])))"

record stack_bufs =
  sb_numchar :: ptr
  sb_tmp :: ptr

text \<open>
  A remote destination is printed into the 4096 bytes of \<open>tmp\<close>, of which \<open>size\<close> are then copied:
  a larger \<open>size\<close> reads beyond the buffer.
\<close>

definition carm_vsnprintf ::
    "nat \<Rightarrow> 'e env_ops \<Rightarrow> stdlib \<Rightarrow> stack_bufs \<Rightarrow> ptr \<Rightarrow> u64 \<Rightarrow> ptr \<Rightarrow> varg list \<Rightarrow> numeric list \<times> 'e rt \<Rightarrow>
      (u32 \<times> numeric list \<times> 'e rt) run" where
  "carm_vsnprintf f E lib sb str sz fmt vs st =
     (case st of (ns, s) \<Rightarrow>
        bindR (PARSE_VA_LIST f (mem s) fmt vs ns) (\<lambda>(ns, nargs, vargs_is_cptr).
          if \<not> vargs_is_cptr
          then if \<not> check_carm_object str
               then case c_vsnprintf lib (mem s) str sz fmt vs of (ret, m) \<Rightarrow>
                      Done (ret, ns, s\<lparr>mem := m\<rparr>)
               else if MAX_VA_STR_SIZE < sz then Faulted
               else case c_vsnprintf lib (mem s) (sb_tmp sb) sz fmt vs of (ret, m) \<Rightarrow>
                      bindR (carm_memcpy f E str (sb_tmp sb) sz (s\<lparr>mem := m\<rparr>)) (\<lambda>(_, s).
                        Done (ret, ns, s))
          else bindR (vsn_printf f E lib (sb_numchar sb) str fmt ns nargs s) (\<lambda>(ret, s).
                 Done (ret, ns, s))))"

section \<open>Sizes\<close>

fun size_loop ::
    "nat \<Rightarrow> 'e env_ops \<Rightarrow> stdlib \<Rightarrow> ptr \<Rightarrow> numeric list \<Rightarrow> nat \<Rightarrow> ptr \<Rightarrow> nat \<Rightarrow> u32 \<Rightarrow> 'e rt \<Rightarrow>
      (u32 \<times> 'e rt) run" where
  "size_loop 0 E lib numchar ns nargs format i sz s = OutOfFuel"
| "size_loop (Suc f) E lib numchar ns nargs format i sz s =
     (if mem s format = 0 then Done (sz, s)
      else if mem s format = 37
      then let c = mem s (format + 1); v = ns ! i;
               num = (\<lambda>bs. bindR (sprintf_num numchar bs s) (\<lambda>s.
                 size_loop f E lib numchar ns nargs (format + 2) (Suc i) (sz + of_nat (length bs)) s))
           in if c \<in> {115, 100, 117, 103, 102} \<and> \<not> (i < nargs \<and> i < length ns) then Faulted
              else if c = 115
              then bindR (carm_strlen f E (nu_p v) s) (\<lambda>(l, s).
                     size_loop f E lib numchar ns nargs (format + 2) (Suc i) (sz + ucast (l + 1)) s)
              else if c = 100 then num (show_d (nu_i v))
              else if c = 117 then num (show_u (nu_ui v))
              else if c = 103 \<or> c = 102 then num (l_show_f lib (nu_f v))
              else Exited
      else size_loop f E lib numchar ns nargs (format + 1) i (sz + 1) s)"

definition get_size_of_valist ::
    "nat \<Rightarrow> 'e env_ops \<Rightarrow> stdlib \<Rightarrow> stack_bufs \<Rightarrow> varg list \<Rightarrow> ptr \<Rightarrow> numeric list \<times> 'e rt \<Rightarrow>
      (u32 \<times> numeric list \<times> 'e rt) run" where
  "get_size_of_valist f E lib sb vs fmt st =
     (case st of (ns, s) \<Rightarrow>
        bindR (PARSE_VA_LIST f (mem s) fmt vs ns) (\<lambda>(ns, nargs, r).
          bindR (size_loop f E lib (sb_numchar sb) ns nargs fmt 0 0 s) (\<lambda>(sz, s).
            Done (sz, ns, s))))"

definition get_size_va_list ::
    "nat \<Rightarrow> 'e env_ops \<Rightarrow> stdlib \<Rightarrow> stack_bufs \<Rightarrow> varg list \<Rightarrow> ptr \<Rightarrow> numeric list \<times> 'e rt \<Rightarrow>
      (u32 \<times> numeric list \<times> 'e rt) run" where
  "get_size_va_list f E lib sb vs fmt st = get_size_of_valist f E lib sb vs fmt st"

section \<open>The entry points\<close>

definition carm_vsprintf ::
    "nat \<Rightarrow> 'e env_ops \<Rightarrow> stdlib \<Rightarrow> stack_bufs \<Rightarrow> ptr \<Rightarrow> ptr \<Rightarrow> varg list \<Rightarrow> numeric list \<times> 'e rt \<Rightarrow>
      (u32 \<times> numeric list \<times> 'e rt) run" where
  "carm_vsprintf f E lib sb str fmt vs st =
     bindR (get_size_va_list f E lib sb vs fmt st) (\<lambda>(sz, ns, s).
       carm_vsnprintf f E lib sb str (scast sz) fmt vs (ns, s))"

definition carm_snprintf ::
    "nat \<Rightarrow> 'e env_ops \<Rightarrow> stdlib \<Rightarrow> stack_bufs \<Rightarrow> ptr \<Rightarrow> u64 \<Rightarrow> ptr \<Rightarrow> varg list \<Rightarrow> numeric list \<times> 'e rt \<Rightarrow>
      (u32 \<times> numeric list \<times> 'e rt) run" where
  "carm_snprintf f E lib sb str sz fmt vs st = carm_vsnprintf f E lib sb str sz fmt vs st"

definition carm_sprintf ::
    "nat \<Rightarrow> 'e env_ops \<Rightarrow> stdlib \<Rightarrow> stack_bufs \<Rightarrow> ptr \<Rightarrow> ptr \<Rightarrow> varg list \<Rightarrow> numeric list \<times> 'e rt \<Rightarrow>
      (u32 \<times> numeric list \<times> 'e rt) run" where
  "carm_sprintf f E lib sb str fmt vs st =
     bindR (get_size_va_list f E lib sb vs fmt st) (\<lambda>(sz, ns, s).
       carm_vsnprintf f E lib sb str (scast sz) fmt vs (ns, s))"

definition carm_sscanf ::
    "nat \<Rightarrow> 'e env_ops \<Rightarrow> stdlib \<Rightarrow> ptr \<Rightarrow> ptr \<Rightarrow> varg list \<Rightarrow> numeric list \<times> 'e rt \<Rightarrow>
      (u32 \<times> numeric list \<times> 'e rt) run" where
  "carm_sscanf f E lib str fmt vs st =
     (case st of (ns, s) \<Rightarrow>
        bindR (PARSE_VA_LIST f (mem s) fmt vs ns) (\<lambda>(ns, nargs, vargs_is_cptr).
          if vargs_is_cptr then Exited
          else if \<not> check_carm_object str
          then case l_vsscanf lib str fmt vs (mem s) of (n, m) \<Rightarrow> Done (n, ns, s\<lparr>mem := m\<rparr>)
          else Exited))"

section \<open>Fuel\<close>

lemma emit_more [fuel_mono]: "emit_num f E nc bs t sz s \<le> emit_num (Suc f) E nc bs t sz s"
  "emit_conv f E lib nc c v t sz s \<le> emit_conv (Suc f) E lib nc c v t sz s"
  unfolding emit_conv_def emit_num_def by (intro fuel_mono order_refl)+

lemma vsn_loop_more [fuel_mono]: "vsn_loop f E lib nc ns na fm i t sz s \<le> vsn_loop (Suc f) E lib nc ns na fm i t sz s"
  by (induction f arbitrary: fm i t sz s) (simp, subst (1 2) vsn_loop.simps, intro fuel_mono order_refl)

lemma size_loop_more [fuel_mono]: "size_loop f E lib nc ns na fm i sz s \<le> size_loop (Suc f) E lib nc ns na fm i sz s"
  by (induction f arbitrary: fm i sz s) (simp, subst (1 2) size_loop.simps, unfold Let_def, intro fuel_mono order_refl)

lemma va_more [fuel_mono]: "PARSE_VA_LIST f m fm vs ns \<le> PARSE_VA_LIST (Suc f) m fm vs ns"
  unfolding PARSE_VA_LIST_def by (intro fuel_mono order_refl)

lemma printf_more [fuel_mono]:
  "vsn_printf f E lib nc str fm ns na s \<le> vsn_printf (Suc f) E lib nc str fm ns na s"
  "carm_vsnprintf f E lib sb str sz fm vs st \<le> carm_vsnprintf (Suc f) E lib sb str sz fm vs st"
  "get_size_of_valist f E lib sb vs fm st \<le> get_size_of_valist (Suc f) E lib sb vs fm st"
  "carm_vsprintf f E lib sb str fm vs st \<le> carm_vsprintf (Suc f) E lib sb str fm vs st"
  "carm_sscanf f E lib str fm vs st \<le> carm_sscanf (Suc f) E lib str fm vs st"
  unfolding carm_vsprintf_def get_size_va_list_def get_size_of_valist_def carm_vsnprintf_def vsn_printf_def carm_sscanf_def
  by (intro fuel_mono order_refl)+

interpretation fuel_vsnprintf: fuelled "\<lambda>f (str, sz, fm, vs, st). carm_vsnprintf f E lib sb str sz fm vs st" for E lib sb
  by unfold_locales (auto intro: printf_more)

end
