(* ===== verification/Libc_Io.thy ===== *)
theory Libc_Io
  imports Libc_Printf
begin

text \<open>
  The stream functions of \<open>src/libc_support.cpp\<close>. The C library's streams are a parameter
  \<open>stdio\<close> over a state of their own; a call that takes a buffer is given its bytes, one that
  fills a buffer returns the bytes. A remote buffer goes through a buffer of one object on the
  stack, \<open>tmpbuf\<close>, whose address is a parameter.
\<close>

section \<open>The C library's streams\<close>

record 'i stdio =
  io_fwrite :: "u8 list \<Rightarrow> u64 \<Rightarrow> u64 \<Rightarrow> ptr \<Rightarrow> 'i \<Rightarrow> u64 \<times> 'i"
  io_fread :: "u64 \<Rightarrow> u64 \<Rightarrow> ptr \<Rightarrow> 'i \<Rightarrow> u8 list \<times> u64 \<times> 'i"
  io_read :: "u32 \<Rightarrow> u64 \<Rightarrow> 'i \<Rightarrow> u8 list \<times> u64 \<times> 'i"
  io_fopen :: "u8 list \<Rightarrow> u8 list \<Rightarrow> 'i \<Rightarrow> ptr \<times> 'i"
  io_fclose :: "ptr \<Rightarrow> 'i \<Rightarrow> u32 \<times> 'i"
  io_vfprintf :: "u8 list \<Rightarrow> varg list \<Rightarrow> ptr \<Rightarrow> 'i \<Rightarrow> u32 \<times> 'i"

definition bytes_at :: "memory \<Rightarrow> ptr \<Rightarrow> nat \<Rightarrow> u8 list" where
  "bytes_at m p n = map (\<lambda>k. m (p + of_nat k)) [0..<n]"

definition c_string :: "nat \<Rightarrow> memory \<Rightarrow> ptr \<Rightarrow> u8 list run" where
  "c_string f m p = bindR (c_strlen f m p) (\<lambda>n. Done (bytes_at m p (unat n)))"

section \<open>Streams\<close>

definition carm_vfprintf ::
    "nat \<Rightarrow> 'i stdio \<Rightarrow> ptr \<Rightarrow> ptr \<Rightarrow> varg list \<Rightarrow> 'i \<times> 'e rt \<Rightarrow> (u32 \<times> 'i \<times> 'e rt) run" where
  "carm_vfprintf f IO str format vs st =
     (case st of (i, s) \<Rightarrow>
        if \<not> check_carm_object str
        then bindR (c_string f (mem s) format) (\<lambda>fmt.
               case io_vfprintf IO fmt vs str i of (r, i) \<Rightarrow> Done (r, i, s))
        else Exited)"

definition carm_fopen ::
    "nat \<Rightarrow> 'e env_ops \<Rightarrow> 'i stdio \<Rightarrow> ptr \<Rightarrow> ptr \<Rightarrow> ptr \<Rightarrow> 'i \<times> 'e rt \<Rightarrow> (ptr \<times> 'i \<times> 'e rt) run" where
  "carm_fopen f E IO rptr path md st =
     (case st of (i, s) \<Rightarrow>
        bindR (if \<not> check_carm_object path then Done (path, s)
               else bindR (carm_strlen f E path s) (\<lambda>(l, s).
                      bindR (carm_memcpy f E rptr path (int_size (l + 1)) s) (\<lambda>(_, s).
                        Done (rptr, s)))) (\<lambda>(p, s).
          bindR (c_string f (mem s) p) (\<lambda>name. bindR (c_string f (mem s) md) (\<lambda>mode.
            case io_fopen IO name mode i of (r, i) \<Rightarrow> Done (r, i, s)))))"

definition carm_fclose :: "'i stdio \<Rightarrow> ptr \<Rightarrow> 'i \<times> 'e rt \<Rightarrow> (u32 \<times> 'i \<times> 'e rt) run" where
  "carm_fclose IO stream st =
     (case st of (i, s) \<Rightarrow>
        if \<not> check_carm_object stream
        then case io_fclose IO stream i of (r, i) \<Rightarrow> Done (r, i, s)
        else Exited)"

section \<open>Blocks\<close>

text \<open>\<open>ptr + index_offset * OBJ_SIZE\<close>, the product taken in \<open>int\<close>.\<close>

definition object_addr :: "ptr \<Rightarrow> u32 \<Rightarrow> ptr" where
  "object_addr p index_offset = p + scast (index_offset * ucast OBJ_SIZE)"

text \<open>One round of \<open>carm_fwrite\<close>: \<open>cnt\<close> elements, \<open>len\<close> bytes.\<close>

definition fwrite_round ::
    "nat \<Rightarrow> 'e env_ops \<Rightarrow> 'i stdio \<Rightarrow> ptr \<Rightarrow> ptr \<Rightarrow> u64 \<Rightarrow> ptr \<Rightarrow> u64 \<Rightarrow> u64 \<Rightarrow> 'i \<times> 'e rt \<Rightarrow>
      (u64 \<times> 'i \<times> 'e rt) run" where
  "fwrite_round f E IO tmpbuf p sz fptr cnt len st =
     (case st of (i, s) \<Rightarrow>
        let s = s\<lparr>mem := c_memset (mem s) tmpbuf 0 OBJ_SIZE\<rparr>
        in bindR (carm_memcpy f E tmpbuf p len s) (\<lambda>(_, s).
             case io_fwrite IO (bytes_at (mem s) tmpbuf (unat (sz * cnt))) sz cnt fptr i of
               (r, i) \<Rightarrow> Done (r, i, s)))"

fun fwrite_loop ::
    "nat \<Rightarrow> 'e env_ops \<Rightarrow> 'i stdio \<Rightarrow> ptr \<Rightarrow> ptr \<Rightarrow> u64 \<Rightarrow> ptr \<Rightarrow> u64 \<Rightarrow> nat \<Rightarrow> u32 \<Rightarrow> u64 \<Rightarrow> 'i \<times> 'e rt \<Rightarrow>
      (u32 \<times> u64 \<times> 'i \<times> 'e rt) run" where
  "fwrite_loop f E IO tmpbuf p sz fptr em_obj 0 index_offset val st = Done (index_offset, val, st)"
| "fwrite_loop f E IO tmpbuf p sz fptr em_obj (Suc n) index_offset val st =
     bindR (fwrite_round f E IO tmpbuf (object_addr p index_offset) sz fptr em_obj OBJ_SIZE st)
       (\<lambda>(r, st). fwrite_loop f E IO tmpbuf p sz fptr em_obj n (index_offset + 1) (val + r) st)"

definition carm_fwrite ::
    "nat \<Rightarrow> 'e env_ops \<Rightarrow> 'i stdio \<Rightarrow> ptr \<Rightarrow> ptr \<Rightarrow> u64 \<Rightarrow> u64 \<Rightarrow> ptr \<Rightarrow> 'i \<times> 'e rt \<Rightarrow>
      (u64 \<times> 'i \<times> 'e rt) run" where
  "carm_fwrite f E IO tmpbuf p sz nmemb fptr st =
     (if \<not> check_carm_object p
      then case st of (i, s) \<Rightarrow>
             (case io_fwrite IO (bytes_at (mem s) p (unat (sz * nmemb))) sz nmemb fptr i of
               (r, i) \<Rightarrow> Done (r, i, s))
      else if sz = 0 then Faulted
      else if OBJ_SIZE mod sz \<noteq> 0 then Exited
      else if OBJ_SIZE < sz then Exited
      else let em_obj = OBJ_SIZE div sz; nmem_obj = nmemb div em_obj; nmem_obj_rem = nmemb mod em_obj
           in bindR (fwrite_loop f E IO tmpbuf p sz fptr em_obj (unat nmem_obj) 0 0 st)
                (\<lambda>(index_offset, val, st).
                   if 0 < nmem_obj_rem
                   then bindR (fwrite_round f E IO tmpbuf (object_addr p index_offset) sz fptr
                                 nmem_obj_rem (nmem_obj_rem * sz) st)
                          (\<lambda>(r, st). Done (val + r, st))
                   else Done (val, st)))"

definition fread_round ::
    "nat \<Rightarrow> 'e env_ops \<Rightarrow> 'i stdio \<Rightarrow> ptr \<Rightarrow> ptr \<Rightarrow> u64 \<Rightarrow> ptr \<Rightarrow> u64 \<Rightarrow> u64 \<Rightarrow> 'i \<times> 'e rt \<Rightarrow>
      (u64 \<times> 'i \<times> 'e rt) run" where
  "fread_round f E IO tmpbuf p sz fptr cnt len st =
     (case st of (i, s) \<Rightarrow>
        let s = s\<lparr>mem := c_memset (mem s) tmpbuf 0 OBJ_SIZE\<rparr>
        in case io_fread IO sz cnt fptr i of (bs, r, i) \<Rightarrow>
             bindR (carm_memcpy f E p tmpbuf len (s\<lparr>mem := poke (mem s) tmpbuf bs\<rparr>))
               (\<lambda>(_, s). Done (r, i, s)))"

fun fread_loop ::
    "nat \<Rightarrow> 'e env_ops \<Rightarrow> 'i stdio \<Rightarrow> ptr \<Rightarrow> ptr \<Rightarrow> u64 \<Rightarrow> ptr \<Rightarrow> u64 \<Rightarrow> nat \<Rightarrow> u32 \<Rightarrow> u64 \<Rightarrow> 'i \<times> 'e rt \<Rightarrow>
      (u32 \<times> u64 \<times> 'i \<times> 'e rt) run" where
  "fread_loop f E IO tmpbuf p sz fptr em_obj 0 index_offset val st = Done (index_offset, val, st)"
| "fread_loop f E IO tmpbuf p sz fptr em_obj (Suc n) index_offset val st =
     bindR (fread_round f E IO tmpbuf (object_addr p index_offset) sz fptr em_obj OBJ_SIZE st)
       (\<lambda>(r, st). fread_loop f E IO tmpbuf p sz fptr em_obj n (index_offset + 1) (val + r) st)"

definition carm_fread ::
    "nat \<Rightarrow> 'e env_ops \<Rightarrow> 'i stdio \<Rightarrow> ptr \<Rightarrow> ptr \<Rightarrow> u64 \<Rightarrow> u64 \<Rightarrow> ptr \<Rightarrow> 'i \<times> 'e rt \<Rightarrow>
      (u64 \<times> 'i \<times> 'e rt) run" where
  "carm_fread f E IO tmpbuf p sz nmemb fptr st =
     (if \<not> check_carm_object p
      then case st of (i, s) \<Rightarrow>
             (case io_fread IO sz nmemb fptr i of
               (bs, r, i) \<Rightarrow> Done (r, i, s\<lparr>mem := poke (mem s) p bs\<rparr>))
      else if sz = 0 then Faulted
      else if OBJ_SIZE mod sz \<noteq> 0 then Exited
      else if OBJ_SIZE < sz then Exited
      else let em_obj = OBJ_SIZE div sz; nmem_obj = nmemb div em_obj; nmem_obj_rem = nmemb mod em_obj
           in bindR (fread_loop f E IO tmpbuf p sz fptr em_obj (unat nmem_obj) 0 0 st)
                (\<lambda>(index_offset, val, st).
                   if 0 < nmem_obj_rem
                   then bindR (fread_round f E IO tmpbuf (object_addr p index_offset) sz fptr
                                 nmem_obj_rem (nmem_obj_rem * sz) st)
                          (\<lambda>(r, st). Done (val + r, st))
                   else Done (val, st)))"

definition carm_read ::
    "nat \<Rightarrow> 'e env_ops \<Rightarrow> 'i stdio \<Rightarrow> u32 \<Rightarrow> ptr \<Rightarrow> u64 \<Rightarrow> 'i \<times> 'e rt \<Rightarrow> (u64 \<times> 'i \<times> 'e rt) run" where
  "carm_read f E IO fd p sz st =
     (case st of (i, s) \<Rightarrow>
        if \<not> check_carm_object p
        then case io_read IO fd sz i of (bs, r, i) \<Rightarrow> Done (r, i, s\<lparr>mem := poke (mem s) p bs\<rparr>)
        else case e_malloc E sz (env s) of (data_recv_buf, e) \<Rightarrow>
          let s = s\<lparr>env := e, mem := c_memset (mem s) data_recv_buf 0 sz\<rparr>
          in case io_read IO fd sz i of (bs, r, i) \<Rightarrow>
            let s = s\<lparr>mem := poke (mem s) data_recv_buf bs\<rparr>; val = (ucast r :: u32)
            in bindR (if 0 < sint val then carm_memcpy f E p data_recv_buf (scast val) s
                      else Done (p, s))
                 (\<lambda>(_, s). Done (scast val, i, s\<lparr>env := e_free E data_recv_buf (env s)\<rparr>)))"

definition carm_fprintf ::
    "nat \<Rightarrow> 'e env_ops \<Rightarrow> stdlib \<Rightarrow> 'i stdio \<Rightarrow> stack_bufs \<Rightarrow> ptr \<Rightarrow> ptr \<Rightarrow> ptr \<Rightarrow> varg list \<Rightarrow>
      numeric list \<Rightarrow> 'i \<times> 'e rt \<Rightarrow> (u32 \<times> 'i \<times> 'e rt) run" where
  "carm_fprintf f E lib IO sb tmpbuf fptr format vs ns st =
     (case st of (i, s) \<Rightarrow>
        bindR (get_size_va_list f E lib sb vs format (ns, s)) (\<lambda>(l, ns, s).
          let sz = (scast l :: u64)
          in case e_malloc E sz (env s) of (tmp, e) \<Rightarrow>
            bindR (carm_vsnprintf f E lib sb tmp sz format vs (ns, s\<lparr>env := e\<rparr>)) (\<lambda>(ret, ns, s).
              bindR (carm_fwrite f E IO tmpbuf tmp 1 sz fptr (i, s)) (\<lambda>(_, i, s).
                Done (ret, i, s\<lparr>env := e_free E tmp (env s)\<rparr>)))))"

section \<open>Fuel\<close>

lemma c_string_more [fuel_mono]: "c_string f m p \<le> c_string (Suc f) m p"
  unfolding c_string_def by (intro fuel_mono order_refl)

lemma round_more [fuel_mono]: "fwrite_round f E IO tb p sz fptr cnt len st \<le> fwrite_round (Suc f) E IO tb p sz fptr cnt len st"
  "fread_round f E IO tb p sz fptr cnt len st \<le> fread_round (Suc f) E IO tb p sz fptr cnt len st"
  unfolding fwrite_round_def fread_round_def by (intro fuel_mono order_refl)+

lemma fwrite_loop_more [fuel_mono]: "fwrite_loop f E IO tb p sz fptr em n i v st \<le> fwrite_loop (Suc f) E IO tb p sz fptr em n i v st"
  by (induction n arbitrary: i v st) (simp, subst (1 2) fwrite_loop.simps, intro fuel_mono order_refl)

lemma fread_loop_more [fuel_mono]: "fread_loop f E IO tb p sz fptr em n i v st \<le> fread_loop (Suc f) E IO tb p sz fptr em n i v st"
  by (induction n arbitrary: i v st) (simp, subst (1 2) fread_loop.simps, intro fuel_mono order_refl)

lemma io_more [fuel_mono]: "carm_fwrite f E IO tb p sz n fptr st \<le> carm_fwrite (Suc f) E IO tb p sz n fptr st"
  "carm_fread f E IO tb p sz n fptr st \<le> carm_fread (Suc f) E IO tb p sz n fptr st"
  "carm_fopen f E IO rp pa md st \<le> carm_fopen (Suc f) E IO rp pa md st"
  "carm_read f E IO fd p sz st \<le> carm_read (Suc f) E IO fd p sz st"
  "carm_fprintf f E lib IO sb tb fptr fm vs ns st \<le> carm_fprintf (Suc f) E lib IO sb tb fptr fm vs ns st"
  unfolding carm_fwrite_def carm_fread_def carm_fopen_def carm_read_def carm_fprintf_def get_size_va_list_def by (intro fuel_mono order_refl)+

interpretation fuel_fwrite: fuelled "\<lambda>f (tb, p, sz, n, fptr, st). carm_fwrite f E IO tb p sz n fptr st" for E IO
  by unfold_locales (auto intro: io_more)

interpretation fuel_fread: fuelled "\<lambda>f (tb, p, sz, n, fptr, st). carm_fread f E IO tb p sz n fptr st" for E IO
  by unfold_locales (auto intro: io_more)

end
