(* ===== verification/Io_Props.thy ===== *)
theory Io_Props
  imports Libc_Io
begin

text \<open>
  Writing remote memory to a stream. \<open>carm_fwrite\<close> carries the bytes through a local buffer, one
  object a time; a stream that takes what it is given receives the program's bytes in their order.
\<close>

section \<open>Streams that accept\<close>

text \<open>
  \<open>out i\<close> is what a stream has received; a call of \<open>fwrite\<close> that succeeds adds its bytes and
  returns the number of elements.
\<close>

definition accepts_all :: "'i stdio \<Rightarrow> ptr \<Rightarrow> ('i \<Rightarrow> u8 list) \<Rightarrow> bool" where
  "accepts_all IO fptr out \<longleftrightarrow> (\<forall>bs sz cnt i. length bs = unat sz * unat cnt \<longrightarrow>
     fst (io_fwrite IO bs sz cnt fptr i) = cnt \<and>
     out (snd (io_fwrite IO bs sz cnt fptr i)) = out i @ bs)"

lemma accepts_allE:
  assumes "accepts_all IO fptr out" "length bs = unat sz * unat cnt"
  obtains j where "io_fwrite IO bs sz cnt fptr i = (cnt, j)" "out j = out i @ bs"
proof -
  have "fst (io_fwrite IO bs sz cnt fptr i) = cnt" "out (snd (io_fwrite IO bs sz cnt fptr i)) = out i @ bs"
    using assms unfolding accepts_all_def by blast+
  then show thesis by (intro that [of "snd (io_fwrite IO bs sz cnt fptr i)"]) (simp_all add: prod_eq_iff)
qed

section \<open>The bytes of a remote range\<close>

definition far_bytes :: "'e env_view \<Rightarrow> 'e rt \<Rightarrow> ptr \<Rightarrow> u8 list \<Rightarrow> bool" where
  "far_bytes V s p bs \<longleftrightarrow> far_range V s p (of_nat (length bs)) \<and>
     (\<forall>k<length bs. view V s (p + of_nat k) = Some (bs ! k))"

lemma unat_len: "n < 2 ^ 31 \<Longrightarrow> unat (of_nat n :: u64) = n"
  by (simp add: unat_of_nat take_bit_nat_eq_self)

lemma far_range_take:
  assumes "far_range V s p n" "m \<le> n"
  shows "far_range V s p m"
proof -
  have "unat m \<le> unat n" using assms(2) by (simp add: word_le_nat_alt)
  with assms show ?thesis unfolding far_range_def by (meson add_left_mono less_le_trans order_trans)
qed

lemma far_bytes_take:
  assumes "far_bytes V s p bs" "length bs < 2 ^ 31"
  shows "far_bytes V s p (take n bs)"
proof -
  have "(of_nat (min (length bs) n) :: u64) \<le> of_nat (length bs)"
    using assms(2) unat_len [of "length bs"] unat_len [of "min (length bs) n"]
    by (simp add: word_le_nat_alt)
  with assms show ?thesis by (auto simp: far_bytes_def intro: far_range_take)
qed

lemma far_bytes_drop:
  assumes "far_bytes V s p bs" "length bs < 2 ^ 31" "n < length bs"
  shows "far_bytes V s (p + of_nat n) (drop n bs)"
proof -
  have "(of_nat n :: u64) < of_nat (length bs)"
    using assms(2,3) unat_len [of "length bs"] unat_len [of n] by (simp add: word_less_unat)
  from far_range_tail [OF _ this] assms show ?thesis
    by (auto simp: far_bytes_def add.assoc simp flip: of_nat_add)
qed

text \<open>Only the local buffer changes.\<close>

definition scratched :: "'e env_view \<Rightarrow> 'e rt \<Rightarrow> 'e rt \<Rightarrow> ptr \<Rightarrow> bool" where
  "scratched V s t d \<longleftrightarrow> writes V s t d OBJ_SIZE (\<lambda>k. mem t (d + k))"

lemma scratched_trans:
  assumes "scratched V s t d" "writes V t u d n g" "local_range V d OBJ_SIZE" "n \<le> OBJ_SIZE"
  shows "scratched V s u d"
proof -
  have sub: "within d OBJ_SIZE q" if "within d n q" for q
    using that assms(4) by (auto simp: within_def)
  have "view V u q = Some b" if "\<not> within d OBJ_SIZE q" "view V s q = Some b" for q b
    using assms(1,2) that sub unfolding scratched_def writes_def by blast
  with assms(1,2) local_view [OF assms(3), of _ u] show ?thesis
    by (auto simp: scratched_def writes_def intro: same_book_trans)
qed

lemma scratched_keeps:
  assumes "scratched V s t d" "local_range V d OBJ_SIZE" "far_bytes V s p bs" "length bs < 2 ^ 31"
  shows "far_bytes V t p bs"
proof -
  have "view V t (p + of_nat k) = Some (bs ! k)" if k: "k < length bs" for k
  proof -
    have "(of_nat k :: u64) < of_nat (length bs)"
      using assms(4) k unat_len [of "length bs"] unat_len [of k] by (simp add: word_less_unat)
    then have "check_carm_object (p + of_nat k)"
      using assms(3) far_range_check(1) by (auto simp: far_bytes_def)
    then have "\<not> within d OBJ_SIZE (p + of_nat k)"
      using assms(2) by (auto simp: local_range_def elim!: withinE)
    with assms(1,3) k show ?thesis by (simp add: scratched_def writes_def far_bytes_def)
  qed
  moreover have "accessible V t i" if "accessible V s i" for i
    using assms(1) that by (simp add: scratched_def writes_def)
  ultimately show ?thesis using assms(3) by (auto simp: far_bytes_def far_range_def)
qed

lemma zeroed:
  assumes "env_laws E V" "rt_inv V s" "local_range V d OBJ_SIZE"
  shows "scratched V s (s\<lparr>mem := c_memset (mem s) d 0 OBJ_SIZE\<rparr>) d"
proof -
  have "writes V s (s\<lparr>mem := c_memset (mem s) d 0 OBJ_SIZE\<rparr>) d OBJ_SIZE (\<lambda>k. 0)"
    using assms by (intro local_writes)
      (auto simp: env_laws_def c_memset_in c_memset_out withinI)
  then show ?thesis
    by (simp add: scratched_def writes_def c_memset_in withinI)
qed

section \<open>One round\<close>

lemma enough_mono: "unat m \<le> unat n \<Longrightarrow> enough_fuel m \<le> enough_fuel n"
  by (simp add: enough_fuel_def div_le_mono)

lemma copy_in:
  assumes "env_laws E V" "rt_inv V s" "local_range V d OBJ_SIZE" "\<not> check_carm_object d"
    and "far_bytes V s q bs" "length bs \<le> 4096"
  shows "\<exists>t. carm_memcpy (enough_fuel OBJ_SIZE) E d q (of_nat (length bs)) s = Done (d, t) \<and>
    writes V s t d (of_nat (length bs)) (\<lambda>k. bs ! unat k)"
proof -
  let ?n = "of_nat (length bs) :: u64"
  have n: "unat ?n = length bs" using assms(6) by (intro unat_len) simp
  have le: "?n \<le> OBJ_SIZE" using assms(6) n by (simp add: word_le_nat_alt OBJ_SIZE_def)
  have val: "view V s (q + k) = Some (bs ! unat k)" if "k < ?n" for k
  proof -
    have "unat k < length bs" using that n by (simp add: word_less_unat)
    with assms(5) have "view V s (q + of_nat (unat k)) = Some (bs ! unat k)"
      unfolding far_bytes_def by blast
    then show ?thesis by simp
  qed
  have c: "check_carm_object q" using assms(5) by (simp add: far_bytes_def far_range_def)
  have "src_pre E V d q ?n s"
    using assms le val by (auto simp: src_pre_def far_bytes_def local_range_def)
  moreover have "?n \<le> MAX_WALK" using n assms(6) by (simp add: word_le_nat_alt MAX_WALK_def)
  ultimately obtain t where t: "memcpy_src_loop (enough_fuel ?n) E d ?n (get_carm_ptr q 0) 0 s = Done t"
      "writes V s t d ?n (\<lambda>k. the (view V s (q + k)))"
    using cp_src.loop_all [of E V d q ?n s "get_carm_ptr q 0", OF _ _ at_get [OF c] get_mut(1) [OF c]] by blast
  then have "carm_memcpy (enough_fuel ?n) E d q ?n s = Done (d, t)"
    using assms(4) c by (simp add: carm_memcpy_def)
  with fuel_memcpy.stable [of "enough_fuel ?n" E "(d, q, ?n, s)" "enough_fuel OBJ_SIZE"]
  have "carm_memcpy (enough_fuel OBJ_SIZE) E d q ?n s = Done (d, t)"
    using enough_mono [of ?n OBJ_SIZE] le by (simp add: word_le_nat_alt)
  moreover have "writes V s t d ?n (\<lambda>k. bs ! unat k)"
    by (rule writes_cong [OF t(2)]) (simp add: val)
  ultimately show ?thesis by blast
qed

lemma bytes_at_eq:
  assumes "writes V s t d (of_nat (length bs)) (\<lambda>k. bs ! unat k)" "local_range V d n"
    and "of_nat (length bs) \<le> n" "length bs < 2 ^ 31"
  shows "bytes_at (mem t) d (length bs) = bs"
proof (rule nth_equalityI)
  fix k assume "k < length (bytes_at (mem t) d (length bs))"
  then have k: "k < length bs" by (simp add: bytes_at_def)
  then have "(of_nat k :: u64) < of_nat (length bs)"
    using assms(4) unat_len [of "length bs"] unat_len [of k] by (simp add: word_less_unat)
  moreover from this have "of_nat k < n" using assms(3) by simp
  ultimately have "Some (mem t (d + of_nat k)) = Some (bs ! unat (of_nat k :: u64))"
    using assms(1) local_view [OF assms(2), of "of_nat k" t] by (simp add: writes_def)
  with k assms(4) show "bytes_at (mem t) d (length bs) ! k = bs ! k"
    by (simp add: bytes_at_def unat_len)
qed (simp add: bytes_at_def)

lemma round_writes:
  assumes laws: "env_laws E V" and inv: "rt_inv V s" and loc: "local_range V d OBJ_SIZE"
    and d: "\<not> check_carm_object d" and far: "far_bytes V s q bs"
    and len: "length bs = unat sz * unat cnt" "length bs \<le> 4096" and IO: "accepts_all IO fptr out"
  shows "\<exists>j t. fwrite_round (enough_fuel OBJ_SIZE) E IO d q sz fptr cnt (of_nat (length bs)) (i, s) =
      Done (cnt, j, t) \<and> out j = out i @ bs \<and> scratched V s t d"
proof -
  let ?z = "s\<lparr>mem := c_memset (mem s) d 0 OBJ_SIZE\<rparr>" and ?n = "of_nat (length bs) :: u64"
  note z = zeroed [OF laws inv loc]
  have far': "far_bytes V ?z q bs" by (rule scratched_keeps [OF z loc far]) (use len(2) in simp)
  have inv': "rt_inv V ?z" using z by (simp add: scratched_def writes_def)
  from copy_in [OF laws inv' loc d far' len(2)] obtain t where
    t: "carm_memcpy (enough_fuel OBJ_SIZE) E d q ?n ?z = Done (d, t)"
      "writes V ?z t d ?n (\<lambda>k. bs ! unat k)" by blast
  have un: "unat ?n = length bs" using len(2) by (intro unat_len) simp
  then have n: "?n \<le> OBJ_SIZE" using len(2) by (simp add: word_le_nat_alt OBJ_SIZE_def)
  have "unat (sz * cnt) = length bs"
    using len by (simp add: unat_word_ariths)
  moreover have "bytes_at (mem t) d (length bs) = bs"
    by (rule bytes_at_eq [OF t(2) loc n]) (use len(2) in simp)
  moreover obtain j where "io_fwrite IO bs sz cnt fptr i = (cnt, j)" "out j = out i @ bs"
    by (rule accepts_allE [OF IO len(1)])
  ultimately show ?thesis
    using t(1) scratched_trans [OF z t(2) loc n] by (simp add: fwrite_round_def Let_def)
qed

section \<open>The whole buffer\<close>

lemma object_addr_small:
  assumes "4096 * unat k < 2 ^ 31"
  shows "object_addr p k = p + of_nat (4096 * unat k)"
proof -
  have "unat (k * ucast OBJ_SIZE) = 4096 * unat k"
    using assms by (simp add: unat_word_ariths OBJ_SIZE_def)
  with assms have "(scast (k * ucast OBJ_SIZE) :: u64) = of_nat (4096 * unat k)"
    by (subst scast_small) (simp_all only: word_unat_eq_iff unat_ucast_32_64 unat_len)
  then show ?thesis by (simp only: object_addr_def)
qed

lemma far_bytes_piece:
  assumes "far_bytes V s p bs" "length bs < 2 ^ 31" "a < length bs"
  shows "far_bytes V s (p + of_nat a) (take l (drop a bs))"
  by (rule far_bytes_take [OF far_bytes_drop [OF assms]]) (use assms(2) in simp)

lemma scratched_refl: "rt_inv V s \<Longrightarrow> local_range V d OBJ_SIZE \<Longrightarrow> scratched V s s d"
  by (simp add: scratched_def writes_def local_view same_book_def)

lemma scratched_inv: "scratched V s t d \<Longrightarrow> rt_inv V t"
  by (simp add: scratched_def writes_def)

lemma loop_rounds:
  assumes "env_laws E V" "local_range V d OBJ_SIZE" "\<not> check_carm_object d"
    and "accepts_all IO fptr out" "unat sz * unat em = 4096"
    and "rt_inv V s" "far_bytes V s p bs" "length bs < 2 ^ 31"
    and "4096 * (unat idx + n) \<le> length bs"
  shows "\<exists>j t. fwrite_loop (enough_fuel OBJ_SIZE) E IO d p sz fptr em n idx val (i, s) =
      Done (idx + of_nat n, val + of_nat n * em, j, t) \<and>
    out j = out i @ take (4096 * n) (drop (4096 * unat idx) bs) \<and> scratched V s t d"
  using assms
proof (induction n arbitrary: idx val i s)
  case 0
  then show ?case by (simp add: scratched_refl)
next
  case (Suc n)
  let ?a = "4096 * unat idx"
  let ?b = "take 4096 (drop ?a bs)"
  have b: "length ?b = 4096" "?a < length bs" using Suc.prems(9) by simp_all
  have ad: "object_addr p idx = p + of_nat ?a"
    by (rule object_addr_small) (use b(2) Suc.prems(8) in linarith)
  have u: "unat (idx + 1) = unat idx + 1"
    using b(2) Suc.prems(8) by (simp add: unat_word_ariths)
  obtain j t where r: "fwrite_round (enough_fuel OBJ_SIZE) E IO d (object_addr p idx) sz fptr em OBJ_SIZE (i, s) =
      Done (em, j, t)" "out j = out i @ ?b" "scratched V s t d"
    using round_writes [OF Suc.prems(1,6,2,3) far_bytes_piece [OF Suc.prems(7,8) b(2), of 4096] _ _ Suc.prems(4)]
      b(1) Suc.prems(5) unfolding ad by (fastforce simp: OBJ_SIZE_def)
  have far: "far_bytes V t p bs"
    by (rule scratched_keeps [OF r(3) Suc.prems(2,7,8)])
  have le: "4096 * (unat (idx + 1) + n) \<le> length bs" using Suc.prems(9) u by simp
  obtain j' t' where
    l: "fwrite_loop (enough_fuel OBJ_SIZE) E IO d p sz fptr em n (idx + 1) (val + em) (j, t) =
        Done (idx + 1 + of_nat n, val + em + of_nat n * em, j', t')"
      "out j' = out j @ take (4096 * n) (drop (4096 * unat (idx + 1)) bs)" "scratched V t t' d"
    using Suc.IH [OF Suc.prems(1-5) scratched_inv [OF r(3)] far Suc.prems(8) le] by blast
  have "out j' = out i @ take (4096 * Suc n) (drop ?a bs)"
    using l(2) r(2) u take_add [of 4096 "4096 * n" "drop ?a bs"] by (simp add: add.commute)
  moreover have "scratched V s t' d"
    by (rule scratched_trans [OF r(3) _ Suc.prems(2) order_refl]) (rule l(3) [unfolded scratched_def])
  ultimately show ?case using r(1) l(1) by (simp add: algebra_simps)
qed

lemma no_wrap_4096: "unat a * unat (b :: u64) \<le> 4096 \<Longrightarrow> unat (b * a) = unat a * unat b"
  by (simp add: unat_word_ariths mult.commute)

lemma element_split:
  assumes "OBJ_SIZE mod sz = 0" "sz \<noteq> 0"
  shows "unat sz * unat (OBJ_SIZE div sz) = 4096" "OBJ_SIZE div sz \<noteq> 0" "sz \<le> OBJ_SIZE"
proof -
  have "4096 mod unat sz = 0" using arg_cong [OF assms(1), of unat] by (simp add: OBJ_SIZE_def unat_mod)
  then have dvd: "unat sz dvd 4096" by (rule mod_0_imp_dvd)
  then show e: "unat sz * unat (OBJ_SIZE div sz) = 4096" by (simp add: OBJ_SIZE_def unat_div)
  then show "OBJ_SIZE div sz \<noteq> 0" by (metis mult_zero_right unat_0 zero_neq_numeral)
  from dvd show "sz \<le> OBJ_SIZE" by (auto simp: word_le_nat_alt OBJ_SIZE_def dest: dvd_imp_le)
qed

lemma element_count:
  assumes "OBJ_SIZE mod sz = 0" "sz \<noteq> 0"
  defines "em \<equiv> OBJ_SIZE div sz"
  shows "unat ((nmemb mod em) * sz) = unat sz * unat (nmemb mod em)"
    and "unat sz * unat (nmemb mod em) \<le> 4096"
    and "of_nat (unat (nmemb div em)) * em + nmemb mod em = nmemb"
    and "unat sz * unat nmemb = 4096 * unat (nmemb div em) + unat ((nmemb mod em) * sz)"
proof -
  let ?n = "unat (nmemb div em)" and ?rem = "nmemb mod em"
  note e = element_split [OF assms(1,2), folded em_def]
  have "unat ?rem < unat em" using e(2) by (simp add: unat_mod word_neq_0_conv word_less_nat_alt)
  with e(1) show r: "unat (?rem * sz) = unat sz * unat ?rem" "unat sz * unat ?rem \<le> 4096"
    by (metis mult.commute mult_le_mono2 less_imp_le no_wrap_4096, metis mult_le_mono2 less_imp_le)
  show "of_nat ?n * em + ?rem = nmemb" using div_mult_mod_eq [of nmemb em] by simp
  have n: "unat nmemb = ?n * unat em + unat ?rem" by (simp only: unat_div unat_mod div_mult_mod_eq)
  have "unat sz * (?n * unat em + unat ?rem) = ?n * (unat sz * unat em) + unat sz * unat ?rem"
    by (simp add: algebra_simps)
  then show "unat sz * unat nmemb = 4096 * ?n + unat (?rem * sz)"
    by (simp only: n r(1) e(1) mult.commute [of ?n 4096])
qed

lemma rest_round:
  assumes "env_laws E V" "local_range V d OBJ_SIZE" "\<not> check_carm_object d"
    and "accepts_all IO fptr out" "rt_inv V s" "far_bytes V s p bs" "length bs < 2 ^ 31"
    and "length bs = 4096 * n + unat (cnt * sz)" "unat (cnt * sz) = unat sz * unat cnt"
    and "0 < unat (cnt * sz)" "unat (cnt * sz) \<le> 4096"
  shows "\<exists>j t. fwrite_round (enough_fuel OBJ_SIZE) E IO d (object_addr p (of_nat n)) sz fptr cnt (cnt * sz) (i, s) =
      Done (cnt, j, t) \<and> out j = out i @ drop (4096 * n) bs \<and> scratched V s t d"
proof -
  have n: "unat (of_nat n :: u32) = n" using assms(7,8) by (simp add: unat_of_nat take_bit_nat_eq_self)
  have ad: "object_addr p (of_nat n) = p + of_nat (4096 * n)"
    using object_addr_small [of "of_nat n" p] assms(7,8) n by simp
  have "far_bytes V s (p + of_nat (4096 * n)) (drop (4096 * n) bs)"
    by (rule far_bytes_drop [OF assms(6,7)]) (use assms(8,10) in simp)
  from round_writes [OF assms(1,5,2,3) this _ _ assms(4), of sz cnt i] assms(8,9,11)
  show ?thesis by (simp add: ad mult.commute [of sz cnt])
qed

text \<open>
  C20: writing remote memory to a stream that takes what it is given returns the number of
  elements, hands over exactly the program's bytes in order, and touches no memory but the buffer.
\<close>

theorem carm_fwrite_remote:
  assumes "env_laws E V" "rt_inv V s" "far_bytes V s p bs" "length bs < 2 ^ 31"
    and "length bs = unat sz * unat nmemb" "sz \<noteq> 0" "OBJ_SIZE mod sz = 0"
    and "local_range V tmpbuf OBJ_SIZE" "\<not> check_carm_object tmpbuf" "accepts_all IO fptr out"
  shows "\<exists>j t. carm_fwrite (enough_fuel OBJ_SIZE) E IO tmpbuf p sz nmemb fptr (i, s) =
      Done (nmemb, j, t) \<and> out j = out i @ bs \<and> scratched V s t tmpbuf"
proof -
  let ?em = "OBJ_SIZE div sz"
  let ?n = "unat (nmemb div ?em)" and ?rem = "nmemb mod ?em"
  note ops = assms(1,8,9,10)
  have c: "check_carm_object p" using assms(3) by (simp add: far_bytes_def far_range_def)
  note em = element_split [OF assms(7,6)] and ct = element_count [OF assms(7,6), of nmemb]
  have len: "length bs = 4096 * ?n + unat (?rem * sz)" using assms(5) ct(4) by simp
  obtain j t where
    l: "fwrite_loop (enough_fuel OBJ_SIZE) E IO tmpbuf p sz fptr ?em ?n 0 0 (i, s) =
        Done (of_nat ?n, of_nat ?n * ?em, j, t)"
      "out j = out i @ take (4096 * ?n) bs" "scratched V s t tmpbuf"
    using loop_rounds [OF ops em(1) assms(2,3,4), of 0 ?n 0 i] len by auto
  have far: "far_bytes V t p bs" by (rule scratched_keeps [OF l(3) assms(8,3,4)])
  show ?thesis
  proof (cases "?rem = 0")
    case True
    then show ?thesis
      using c assms(6,7) em(3) l ct(3) len by (auto simp: carm_fwrite_def Let_def)
  next
    case False
    then have "0 < unat (?rem * sz)" using ct(1) assms(6) by (simp add: unat_gt_0)
    with rest_round [OF ops scratched_inv [OF l(3)] far assms(4) len ct(1)] ct(1,2)
    obtain j' t' where
      r: "fwrite_round (enough_fuel OBJ_SIZE) E IO tmpbuf (object_addr p (of_nat ?n)) sz fptr ?rem (?rem * sz) (j, t) =
          Done (?rem, j', t')" "out j' = out j @ drop (4096 * ?n) bs" "scratched V t t' tmpbuf"
      by fastforce
    have "scratched V s t' tmpbuf"
      by (rule scratched_trans [OF l(3) _ assms(8) order_refl]) (rule r(3) [unfolded scratched_def])
    then show ?thesis
      using c assms(6,7) em(3) l r False ct(3) by (auto simp: carm_fwrite_def Let_def word_neq_0_conv)
  qed
qed

text \<open>A stream that keeps what it is given, and 300 elements of 32 bytes from the middle of an object.\<close>

definition tape :: "u8 list stdio" where
  "tape = \<lparr>io_fwrite = \<lambda>bs sz cnt fptr i. (cnt, i @ bs), io_fread = \<lambda>sz cnt fptr i. ([], 0, i),
     io_read = \<lambda>fd sz i. ([], 0, i), io_fopen = \<lambda>name mode i. (1, i), io_fclose = \<lambda>fptr i. (0, i),
     io_vfprintf = \<lambda>fmt vs fptr i. (0, i)\<rparr>"

lemma tape_accepts: "accepts_all tape fptr id"
  by (simp add: accepts_all_def tape_def)

definition demo_file :: "u8 list" where
  "demo_file = map (\<lambda>k. ucast (of_nat k :: u64)) [0..<9600]"

definition demo_far :: "sim rt" where
  "demo_far = sim_far (\<lambda>_. 0) (\<lambda>i k. ucast (4096 * i + k - 4000))"

lemma demo_far_bytes: "far_bytes sim_view demo_far (CARM_PTR + 4000) demo_file"
proof -
  have "view sim_view demo_far (CARM_PTR + 4000 + of_nat k) = Some (ucast (of_nat k :: u64))" if "k < 9600" for k
  proof -
    have "(of_nat k :: u64) < 9600" using that unat_len [of k] by (simp add: word_less_nat_alt)
    from sim_far_view [OF _ this, of 4000] show ?thesis
      by (simp add: demo_far_def mult_div_mod_eq)
  qed
  then show ?thesis
    by (simp add: far_bytes_def demo_file_def demo_far_def sim_far_range)
qed

theorem carm_fwrite_remote_witness:
  "\<exists>j t. carm_fwrite (enough_fuel OBJ_SIZE) sim_ops tape 0x1000 (CARM_PTR + 4000) 32 300 0 ([], demo_far) =
      Done (300, j, t) \<and> id j = id [] @ demo_file \<and> scratched sim_view demo_far t 0x1000"
  by (rule carm_fwrite_remote [OF sim_env_laws _ demo_far_bytes _ _ _ _ _ _ tape_accepts])
    (simp_all add: demo_far_def sim_far_inv demo_file_def sim_local check_bit not_bit_60 OBJ_SIZE_def)

end
