(* ===== verification/Runtime_Init.thy ===== *)
theory Runtime_Init
  imports Loops Alloc_Props
begin

text \<open>
  Start-up of the process (\<open>src/carm_runtime.cpp\<close>) and the functions the prefetcher is
  given (\<open>src/prefetcher.cpp\<close>). What AIFM sets up is the environment \<open>e\<close> that
  \<open>init_carm_runtime\<close> is given; memory that comes from the C heap uninitialised is a
  parameter. The call into the threading library that runs the program is the parameter
  \<open>start\<close>.
\<close>

section \<open>The runtime object\<close>

definition kFarMemSize :: u64 where "kFarMemSize = 17179869184"
definition kWorkingSetSize :: u64 where "kWorkingSetSize = kFarMemSize - push_bit 30 1"
definition local_mem_cache_size :: u64 where "local_mem_cache_size = 2147483648"

definition init_objects :: "(u64 \<Rightarrow> u64) \<Rightarrow> u64 \<Rightarrow> u64 \<Rightarrow> 'e rt \<Rightarrow> 'e rt" where
  "init_objects junk sz local_cache_size s =
     s\<lparr>aspace_start := START_ADDR, aspace_end := START_ADDR + sz, obj_size := OBJ_SIZE, ds_id := 0,
       num_objects := sz div OBJ_SIZE, total_obj_cnt := sz div OBJ_SIZE,
       ptrs := (\<lambda>i. if i < sz div OBJ_SIZE then Null else Uninit), free_list_map := junk\<rparr>"

definition init_carm_runtime :: "(u64 \<Rightarrow> u64) \<Rightarrow> 'e \<Rightarrow> 'e rt \<Rightarrow> 'e rt" where
  "init_carm_runtime junk e s =
     init_objects junk kWorkingSetSize local_mem_cache_size
       (s\<lparr>carm_rt := True, carm_mtx := False, allocation_map := Map.empty, env := e\<rparr>)"

section \<open>Start of the process\<close>

definition init_carm_meta_obj :: "(u64 \<Rightarrow> u64) \<Rightarrow> 'e rt \<Rightarrow> 'e rt" where
  "init_carm_meta_obj junk s = s\<lparr>obj_state := junk\<rparr>"

record arg_struct =
  arg_count :: int
  args :: "string option list"

text \<open>The loop that copies \<open>argv[i]\<close> to \<open>pargs[pg]\<close>, from \<open>i = skip_aifm_args\<close>.\<close>

fun copy_args :: "string list \<Rightarrow> nat \<Rightarrow> string option list \<Rightarrow> string option list" where
  "copy_args [] pg pargs = pargs"
| "copy_args (a # as) pg pargs = copy_args as (pg + 1) (pargs[pg := Some a])"

definition build_args :: "string list \<Rightarrow> arg_struct" where
  "build_args argv =
     \<lparr>arg_count = int (length argv) - 2,
      args = copy_args (drop 3 argv) 1 ((replicate (length argv + 1) None)[0 := Some (argv ! 0)])\<rparr>"

definition EINVAL :: int where "EINVAL = 22"

definition main ::
    "(u64 \<Rightarrow> u64) \<Rightarrow> (string \<Rightarrow> string \<Rightarrow> arg_struct \<Rightarrow> 'e rt \<Rightarrow> int \<times> 'e rt) \<Rightarrow> string list \<Rightarrow> 'e rt \<Rightarrow>
      int \<times> 'e rt" where
  "main junk start argv s =
     (let s = init_loops (flush_carn_meta_obj (init_carm_meta_obj junk s))
      in if length argv < 3 then (- EINVAL, s)
         else case start (argv ! 1) (argv ! 2) (build_args argv) s of (ret, s) \<Rightarrow>
                (if ret \<noteq> 0 then (ret, s) else (0, s)))"

section \<open>Prefetching\<close>

definition induce_fn :: "u64 \<Rightarrow> u64 \<Rightarrow> u64" where
  "induce_fn idx_0 idx_1 = idx_1 - idx_0"

definition infer_fn :: "u64 \<Rightarrow> u64 \<Rightarrow> u64" where
  "infer_fn idx stride = idx + stride"

definition mapping_fn :: "u64 \<Rightarrow> 'e rt \<Rightarrow> slot run" where
  "mapping_fn idx s =
     (if idx < total_obj_cnt s then if idx < TOTAL_OBJECTS then Done (ptrs s idx) else Faulted
      else Done Null)"

section \<open>What the start establishes\<close>

lemma copy_args_map:
  "length xs = length as \<Longrightarrow> copy_args as (length ps) (ps @ xs @ zs) = ps @ map Some as @ zs"
proof (induction as arbitrary: ps xs)
  case (Cons a as)
  then obtain x xs' where xs: "xs = x # xs'" "length xs' = length as" by (cases xs) auto
  have "copy_args (a # as) (length ps) (ps @ xs @ zs) =
      copy_args as (length (ps @ [Some a])) ((ps @ [Some a]) @ xs' @ zs)"
    by (simp add: xs(1))
  with Cons.IH [OF xs(2), of "ps @ [Some a]"] show ?case by simp
qed simp

lemma build_args_vector:
  assumes "3 \<le> length argv"
  shows "args (build_args argv) = Some (argv ! 0) # map Some (drop 3 argv) @ replicate 3 None"
proof -
  let ?n = "length argv - 3"
  have "replicate (length argv + 1) None = None # replicate ?n (None :: string option) @ replicate 3 None"
    using assms by (simp flip: replicate_add replicate_Suc)
  then show ?thesis
    using copy_args_map [of "replicate ?n None" "drop 3 argv" "[Some (argv ! 0)]" "replicate 3 None"]
    by (simp add: build_args_def)
qed

definition started :: "(u64 \<Rightarrow> u64) \<Rightarrow> (u64 \<Rightarrow> u64) \<Rightarrow> 'e \<Rightarrow> 'e rt \<Rightarrow> 'e rt" where
  "started junk junk' e s =
     init_carm_runtime junk' e (init_loops (flush_carn_meta_obj (init_carm_meta_obj junk s)))"

lemmas start_defs = started_def init_carm_runtime_def init_objects_def init_loops_def
  flush_carn_meta_obj_def init_carm_meta_obj_def

lemma working_set_objects: "kWorkingSetSize div OBJ_SIZE = 3932160"
  by (simp add: kWorkingSetSize_def kFarMemSize_def OBJ_SIZE_def)

text \<open>Every slot the prefetcher may be asked for has been written.\<close>

definition slots_ready :: "'e rt \<Rightarrow> bool" where
  "slots_ready s \<longleftrightarrow> total_obj_cnt s \<le> TOTAL_OBJECTS \<and> (\<forall>i < total_obj_cnt s. ptrs s i \<noteq> Uninit)"

lemma started_inv: "v_ok V e \<Longrightarrow> rt_inv V (started junk junk' e s)"
  by (auto simp: start_defs rt_inv_def slots_valid_def slots_safe_def coherent_def null_absent_def
      FLUSH_CACHE_def kPresentClear_def split: if_splits)

lemma started_heap: "heap_ok (started junk junk' e s)"
  by (simp add: start_defs heap_ok_def blocks_below_def blocks_apart_def START_ADDR_def
      check_carm_object_def CARM_PTR_def)

lemma started_loops: "loop_id_cnt s = 0 \<Longrightarrow> loops_nested (started junk junk' e s)"
  by (simp add: start_defs loops_nested_def no_loop_def)

lemma started_slots: "slots_ready (started junk junk' e s)"
  by (simp add: start_defs slots_ready_def working_set_objects TOTAL_OBJECTS_def)

lemma started_accessible:
  assumes "n < kWorkingSetSize"
  shows "accessible V (started junk junk' e s) (obj_of (START_ADDR + n))"
proof -
  have n: "unat n < 16106127360"
    using assms by (simp add: word_less_unat kWorkingSetSize_def kFarMemSize_def)
  have u: "unat n < 2 ^ 60" using n by simp
  have "START_ADDR = CARM_PTR" by (simp add: START_ADDR_def CARM_PTR_def)
  then have "(START_ADDR + n) XOR CARM_PTR = n"
    using xor_CARM_sub [OF check_CARM_add [OF u]] by simp
  then have "unat (obj_of (START_ADDR + n)) = unat n div 4096" by (simp add: unat_obj_of)
  then have "unat (obj_of (START_ADDR + n)) < 3932160" using n by linarith
  then show ?thesis
    by (simp add: accessible_def start_defs working_set_objects TOTAL_OBJECTS_def word_less_unat)
qed

text \<open>
  C22: after the start of the process and of the runtime the state satisfies every invariant of
  the development, and all the memory of the working set may be dereferenced.
\<close>

theorem startup_establishes:
  assumes "v_ok V e" "loop_id_cnt s = 0" "n < kWorkingSetSize"
  shows "rt_inv V (started junk junk' e s) \<and> heap_ok (started junk junk' e s) \<and>
    loops_nested (started junk junk' e s) \<and> slots_ready (started junk junk' e s) \<and>
    accessible V (started junk junk' e s) (obj_of (START_ADDR + n))"
  by (intro conjI started_inv started_heap started_loops started_slots started_accessible assms)

theorem startup_establishes_witness:
  "\<exists>t. rt_inv sim_view t \<and> heap_ok t \<and> loops_nested t \<and> slots_ready t \<and>
     accessible sim_view t (obj_of (START_ADDR + 0x3BFFFFFFF))"
proof -
  have "v_ok sim_view sim_boot" by (simp add: sim_ok_def sim_boot_def)
  moreover have "loop_id_cnt (sim_start (\<lambda>_. 0)) = 0" by (simp add: sim_start_def)
  moreover have "(0x3BFFFFFFF :: u64) < kWorkingSetSize"
    by (simp add: kWorkingSetSize_def kFarMemSize_def)
  ultimately show ?thesis
    using startup_establishes [of sim_view sim_boot "sim_start (\<lambda>_. 0)" "0x3BFFFFFFF" "\<lambda>_. 7" "\<lambda>_. 9"]
    by blast
qed

text \<open>
  C23: the program is started with its own arguments: its name, then what follows the
  configuration file and the server address, ended by nulls, and counted; with fewer than
  three arguments nothing is started.
\<close>

theorem main_arguments:
  shows "main junk start argv s =
    (let t = init_loops (flush_carn_meta_obj (init_carm_meta_obj junk s))
     in if length argv < 3 then (- 22, t)
        else start (argv ! 1) (argv ! 2)
          \<lparr>arg_count = 1 + int (length (drop 3 argv)),
           args = Some (argv ! 0) # map Some (drop 3 argv) @ [None, None, None]\<rparr> t)"
proof (cases "length argv < 3")
  case False
  then have "build_args argv = \<lparr>arg_count = 1 + int (length (drop 3 argv)),
      args = Some (argv ! 0) # map Some (drop 3 argv) @ [None, None, None]\<rparr>"
    using build_args_vector [of argv] by (simp add: build_args_def numeral_3_eq_3)
  with False show ?thesis by (simp add: main_def Let_def split: prod.split)
qed (simp add: main_def EINVAL_def Let_def)

section \<open>The prefetcher\<close>

text \<open>
  What may happen after the start: each operation of \<open>carm.cpp\<close> and \<open>carm_loops.cpp\<close>, each allocator
  operation, the copies, and the program's own stores (\<open>store\<close>, any change of memory).
\<close>

inductive rt_step :: "'e env_ops \<Rightarrow> 'e rt \<Rightarrow> 'e rt \<Rightarrow> bool" for E where
  deref_read: "carm_deref_read E i s = Done (a, t) \<Longrightarrow> rt_step E s t"
| deref_write: "carm_deref_write E i s = Done (a, t) \<Longrightarrow> rt_step E s t"
| deref_read_sp: "carm_deref_read_sp E i l s = Done (a, t) \<Longrightarrow> rt_step E s t"
| deref_write_sp: "carm_deref_write_sp E i l s = Done (a, t) \<Longrightarrow> rt_step E s t"
| deref_read_nt: "carm_deref_read_not_temporal E i s = Done (a, t) \<Longrightarrow> rt_step E s t"
| deref_write_nt: "carm_deref_write_not_temporal E i s = Done (a, t) \<Longrightarrow> rt_step E s t"
| loop_open: "carm_loop_init E p c s = Done (w, t) \<Longrightarrow> rt_step E s t"
| loop_read: "carm_deref_loop_read E l s = Done (a, t) \<Longrightarrow> rt_step E s t"
| loop_write: "carm_deref_loop_write E l s = Done (a, t) \<Longrightarrow> rt_step E s t"
| loop_close: "invalidate_loop_index E l s = Done t \<Longrightarrow> rt_step E s t"
| alloc: "carm_remote_malloc E n s = Done (p, t) \<Longrightarrow> rt_step E s t"
| alloc_zeroed: "carm_calloc f E n sz s = Done (p, t) \<Longrightarrow> rt_step E s t"
| resize: "carm_realloc f E q n s = Done (p, t) \<Longrightarrow> rt_step E s t"
| free_block: "carm_free f E p s = Done t \<Longrightarrow> rt_step E s t"
| copy: "carm_memcpy f E d q n s = Done (p, t) \<Longrightarrow> rt_step E s t"
| fill: "carm_memset f E d c n s = Done (p, t) \<Longrightarrow> rt_step E s t"
| store: "rt_step E s (s\<lparr>mem := m\<rparr>)"

lemma slots_ready_cong:
  "ptrs t = ptrs s \<Longrightarrow> total_obj_cnt t = total_obj_cnt s \<Longrightarrow> slots_ready t = slots_ready s"
  by (simp add: slots_ready_def)

lemma scope_ptrs [simp]: "ptrs (carm_deref E s) = ptrs s"
  by (simp add: carm_deref_def acquire_def release_def Let_def split: prod.split)

lemma fetch_ready: "fetch_object E i s = Done (h, t) \<Longrightarrow> slots_ready s \<Longrightarrow> slots_ready t"
  by (auto simp: fetch_object_def allocate_object_def Let_def slots_ready_def
      split: if_splits slot.splits prod.splits)

lemma deref_object_ptrs: "deref_object E nt mt i (h, s) = (md, t) \<Longrightarrow> ptrs t = ptrs s"
  by (auto simp: deref_object_def Let_def split: prod.splits)

lemma trace_ptrs: "carm_add_prefetch_trace E i nt pf s = Done t \<Longrightarrow> ptrs t = ptrs s"
  by (auto simp: carm_add_prefetch_trace_def split: if_splits)

lemma same_ready: "ptrs t = ptrs s \<Longrightarrow> same_book s t \<Longrightarrow> slots_ready s \<Longrightarrow> slots_ready t"
  by (simp add: slots_ready_def same_book_def)

lemma deref_ready:
  "deref_object E nt mt i (h, u) = (md, v) \<Longrightarrow> fetch_object E i s = Done (h, u) \<Longrightarrow> slots_ready s \<Longrightarrow> slots_ready v"
  by (rule same_ready [OF deref_object_ptrs deref_object_book fetch_ready])

lemma trace_ready: "carm_add_prefetch_trace E i nt pf s = Done t \<Longrightarrow> slots_ready s \<Longrightarrow> slots_ready t"
  by (rule same_ready [OF trace_ptrs trace_book])

lemma core_ready:
  assumes run: "bindR (fetch_object E i s) (\<lambda>hs. case deref_object E nt mt i hs of (md, s) \<Rightarrow> k md s) = Done (a, t)"
    and ready: "slots_ready s" and k: "\<And>md v. k md v = Done (a, t) \<Longrightarrow> slots_ready v \<Longrightarrow> slots_ready t"
  shows "slots_ready t"
proof -
  obtain h u where f: "fetch_object E i s = Done (h, u)"
    using run by (auto simp: bindR_Done_iff)
  obtain md v where d: "deref_object E nt mt i (h, u) = (md, v)"
    by (cases "deref_object E nt mt i (h, u)")
  have "k md v = Done (a, t)" using run by (simp add: f d)
  then show ?thesis by (rule k) (rule deref_ready [OF d f ready])
qed

lemma scope_ready [simp]: "slots_ready (carm_deref E s) = slots_ready s"
  using scope_book [of s E] by (intro slots_ready_cong) (simp_all add: same_book_def)

named_theorems ready \<open>operations keep the slots ready\<close>

lemma deref_ops_ready [ready]:
  "carm_deref_read E i s = Done (a, t) \<Longrightarrow> slots_ready s \<Longrightarrow> slots_ready t"
  "carm_deref_write E i s = Done (a, t) \<Longrightarrow> slots_ready s \<Longrightarrow> slots_ready t"
  "carm_deref_read_sp E i l s = Done (a, t) \<Longrightarrow> slots_ready s \<Longrightarrow> slots_ready t"
  "carm_deref_write_sp E i l s = Done (a, t) \<Longrightarrow> slots_ready s \<Longrightarrow> slots_ready t"
  "carm_deref_read_not_temporal E i s = Done (a, t) \<Longrightarrow> slots_ready s \<Longrightarrow> slots_ready t"
  "carm_deref_write_not_temporal E i s = Done (a, t) \<Longrightarrow> slots_ready s \<Longrightarrow> slots_ready t"
  unfolding carm_deref_read_def carm_deref_write_def carm_deref_read_sp_def carm_deref_write_sp_def
    carm_deref_read_not_temporal_def carm_deref_write_not_temporal_def carmDeref_read_def carmDeref_write_def
    carmDeref_read_sp_def carmDeref_write_sp_def carmDeref_read_not_temporal_def carmDeref_write_not_temporal_def
  by (erule core_ready, simp, fastforce simp: bindR_Done_iff intro: trace_ready)+

lemma ptrDeref_ready [ready]: "ptrDeref E cp s = Done (a, t) \<Longrightarrow> slots_ready s \<Longrightarrow> slots_ready t"
  by (auto simp: ptrDeref_def Let_def bindR_Done_iff split: if_splits intro: ready)

lemma update_ready:
  assumes "update_object_list E i s = Done t" "slots_ready s"
  shows "slots_ready t"
proof -
  obtain h where lt: "total_obj_cnt s < TOTAL_OBJECTS" and
    t: "t = s\<lparr>ptrs := (ptrs s)(total_obj_cnt s := Obj h),
         env := e_set_index E h (total_obj_cnt s) (env s), total_obj_cnt := total_obj_cnt s + 1\<rparr>"
    using assms(1) by (auto simp: update_object_list_def Let_def split: if_splits slot.splits)
  have "total_obj_cnt s + 1 \<le> TOTAL_OBJECTS" using lt by (rule inc_le)
  moreover have "unat (total_obj_cnt s + 1) = unat (total_obj_cnt s) + 1"
    using lt by (subst unat_add_no_wrap) (simp_all add: word_less_unat TOTAL_OBJECTS_def)
  then have "j < total_obj_cnt s + 1 \<longleftrightarrow> j < total_obj_cnt s \<or> j = total_obj_cnt s" for j
    by (simp add: word_less_unat less_Suc_eq word_unat_eq_iff)
  ultimately show ?thesis using assms(2) by (auto simp: slots_ready_def t)
qed

lemma free_loop_ready:
  "free_loop f E sz freed ch i s = Done t \<Longrightarrow> slots_ready s \<Longrightarrow> slots_ready t"
proof (induction f arbitrary: freed ch i s)
  case (Suc f)
  have acc: "slots_ready (account i n s)" for n
    using Suc.prems(2) by (simp add: slots_ready_def account_def)
  show ?case
    using Suc.prems acc
    by (auto simp: Let_def bindR_Done_iff split: if_splits slot.splits
        intro: Suc.IH update_ready)
qed simp

lemma slots_ready_fields [simp]:
  "slots_ready (s\<lparr>carm_mtx := b\<rparr>) = slots_ready s" "slots_ready (s\<lparr>env := e\<rparr>) = slots_ready s"
  "slots_ready (s\<lparr>allocation_map := am\<rparr>) = slots_ready s" "slots_ready (s\<lparr>mem := m\<rparr>) = slots_ready s"
  "slots_ready (s\<lparr>loop_id_cnt := n\<rparr>) = slots_ready s" "slots_ready (s\<lparr>aspace_start := n\<rparr>) = slots_ready s"
  "slots_ready (set_loop i l s) = slots_ready s" "slots_ready (unmark E n s) = slots_ready s"
  by (simp_all add: slots_ready_def set_loop_def unmark_def)

lemma lookup_ready: "lookup_size p s = (n, t) \<Longrightarrow> slots_ready t = slots_ready s"
  by (auto simp: lookup_size_def record_size_def split: option.splits)

lemma free_ready [ready]: "carm_free f E p s = Done t \<Longrightarrow> slots_ready s \<Longrightarrow> slots_ready t"
  by (auto simp: carm_free_def Let_def lock_mtx_def unlock_mtx_def bindR_Done_iff lookup_ready
      split: if_splits prod.splits dest!: free_loop_ready)

lemma malloc_ready [ready]: "carm_remote_malloc E n s = Done (p, t) \<Longrightarrow> slots_ready s \<Longrightarrow> slots_ready t"
  by (auto simp: carm_remote_malloc_def carm_local_malloc_def Let_def lock_mtx_def unlock_mtx_def
      record_size_def split: if_splits prod.splits)

lemma memset_loop_ready: "memset_loop f E c sz cp bt s = Done t \<Longrightarrow> slots_ready s \<Longrightarrow> slots_ready t"
proof (induction f arbitrary: cp bt s)
  case (Suc f)
  then show ?case by (auto simp: bindR_Done_iff Let_def split: if_splits prod.splits dest!: ptrDeref_ready Suc.IH)
qed simp

lemma memset_ready [ready]: "carm_memset f E d c n s = Done (p, t) \<Longrightarrow> slots_ready s \<Longrightarrow> slots_ready t"
  by (auto simp: carm_memset_def Let_def bindR_Done_iff split: if_splits dest!: memset_loop_ready)

lemma memcpy_dst_ready: "memcpy_dst_loop f E q sz cp bt s = Done t \<Longrightarrow> slots_ready s \<Longrightarrow> slots_ready t"
proof (induction f arbitrary: cp bt s)
  case (Suc f)
  then show ?case by (auto simp: bindR_Done_iff Let_def split: if_splits prod.splits dest!: ptrDeref_ready Suc.IH)
qed simp

lemma memcpy_src_ready: "memcpy_src_loop f E q sz cp bt s = Done t \<Longrightarrow> slots_ready s \<Longrightarrow> slots_ready t"
proof (induction f arbitrary: cp bt s)
  case (Suc f)
  then show ?case by (auto simp: bindR_Done_iff Let_def split: if_splits prod.splits dest!: ptrDeref_ready Suc.IH)
qed simp

lemma memcpy_both_ready:
  "memcpy_both_loop f E d q sz cd cs bt s = Done t \<Longrightarrow> slots_ready s \<Longrightarrow> slots_ready t"
proof (induction f arbitrary: cd cs bt s)
  case (Suc f)
  then show ?case by (auto simp: bindR_Done_iff Let_def split: if_splits prod.splits dest!: ptrDeref_ready Suc.IH)
qed simp

lemma memcpy_ready [ready]: "carm_memcpy f E d q n s = Done (p, t) \<Longrightarrow> slots_ready s \<Longrightarrow> slots_ready t"
  by (auto simp: carm_memcpy_def Let_def bindR_Done_iff split: if_splits
      dest!: memcpy_dst_ready memcpy_src_ready memcpy_both_ready)

lemma calloc_ready [ready]: "carm_calloc f E n sz s = Done (p, t) \<Longrightarrow> slots_ready s \<Longrightarrow> slots_ready t"
  by (auto simp: carm_calloc_def Let_def lock_mtx_def unlock_mtx_def bindR_Done_iff record_size_def
      split: if_splits dest!: memset_ready)

lemma realloc_ready [ready]: "carm_realloc f E q n s = Done (p, t) \<Longrightarrow> slots_ready s \<Longrightarrow> slots_ready t"
  by (auto simp: carm_realloc_def Let_def bindR_Done_iff lookup_ready split: if_splits prod.splits
      dest!: malloc_ready free_ready memcpy_ready)

lemma loop_object_ready:
  "loop_object E d l s = Done (a, t) \<Longrightarrow> (\<And>i k s a t. d i k s = Done (a, t) \<Longrightarrow> slots_ready s \<Longrightarrow> slots_ready t) \<Longrightarrow>
     slots_ready s \<Longrightarrow> slots_ready t"
  by (fastforce simp: loop_object_def Let_def bindR_Done_iff split: if_splits)

lemma loop_ops_ready [ready]:
  "carm_loop_init E p c s = Done (w, t) \<Longrightarrow> slots_ready s \<Longrightarrow> slots_ready t"
  "carm_deref_loop_read E l s = Done (a, t) \<Longrightarrow> slots_ready s \<Longrightarrow> slots_ready t"
  "carm_deref_loop_write E l s = Done (a, t) \<Longrightarrow> slots_ready s \<Longrightarrow> slots_ready t"
  "invalidate_loop_index E l s = Done t \<Longrightarrow> slots_ready s \<Longrightarrow> slots_ready t"
proof -
  show "carm_loop_init E p c s = Done (w, t) \<Longrightarrow> slots_ready s \<Longrightarrow> slots_ready t"
    by (auto simp: carm_loop_init_def carm_static_prefetch_def Let_def bindR_Done_iff split: if_splits)
  show "carm_deref_loop_read E l s = Done (a, t) \<Longrightarrow> slots_ready s \<Longrightarrow> slots_ready t"
    "carm_deref_loop_write E l s = Done (a, t) \<Longrightarrow> slots_ready s \<Longrightarrow> slots_ready t"
    by (auto simp: carm_deref_loop_read_def carm_deref_loop_write_def loop_stack_def Let_def split: if_splits
        elim!: loop_object_ready intro: ready)
  show "invalidate_loop_index E l s = Done t \<Longrightarrow> slots_ready s \<Longrightarrow> slots_ready t"
    by (auto simp: invalidate_loop_index_def Let_def split: if_splits)
qed

lemma rt_step_ready: "rt_step E s t \<Longrightarrow> slots_ready s \<Longrightarrow> slots_ready t"
  by (induction rule: rt_step.induct) (auto intro: ready)

lemma rt_steps_ready: "(rt_step E)\<^sup>*\<^sup>* s t \<Longrightarrow> slots_ready s \<Longrightarrow> slots_ready t"
  by (induction rule: rtranclp_induct) (auto intro: rt_step_ready)

text \<open>
  C24: whatever dereferences, loops, allocations, frees, copies and stores follow the start, the
  prefetcher that saw objects \<open>a\<close> and \<open>b\<close> in turn is led to the object at the same distance
  beyond \<open>b\<close>: \<open>mapping_fn\<close> gives it the slot of exactly that index when the table reaches so
  far and null otherwise, and never a slot that was not written.
\<close>

theorem prefetch_never_uninitialised:
  assumes "(rt_step E)\<^sup>*\<^sup>* (started junk junk' e s) t"
  shows "\<exists>p. mapping_fn (infer_fn b (induce_fn a b)) t = Done p \<and> p \<noteq> Uninit \<and>
    p = (if b + (b - a) < total_obj_cnt t then ptrs t (b + (b - a)) else Null)"
proof -
  have "slots_ready t" by (rule rt_steps_ready [OF assms started_slots])
  moreover have "infer_fn b (induce_fn a b) = b + (b - a)" by (simp add: infer_fn_def induce_fn_def)
  ultimately show ?thesis by (auto simp: mapping_fn_def slots_ready_def)
qed

text \<open>After the first dereference of object 19, which allocates it.\<close>

theorem prefetch_never_uninitialised_witness:
  "\<exists>t p. (rt_step sim_ops)\<^sup>*\<^sup>* (started (\<lambda>_. 1) (\<lambda>_. 2) sim_boot (sim_start (\<lambda>_. 0))) t \<and>
     ptrs t 19 \<noteq> Null \<and> mapping_fn (infer_fn 12 (induce_fn 5 12)) t = Done p \<and> p \<noteq> Uninit \<and> p = ptrs t 19"
proof -
  let ?s = "started (\<lambda>_. 1) (\<lambda>_. 2) sim_boot (sim_start (\<lambda>_. 0))"
  have "v_ok sim_view sim_boot" by (simp add: sim_ok_def sim_boot_def)
  then have inv: "rt_inv sim_view ?s" by (rule started_inv)
  have "accessible sim_view ?s 19"
    by (simp add: accessible_def start_defs working_set_objects TOTAL_OBJECTS_def)
  from sc_read.op_Done [OF sim_env_laws inv this] obtain A t where
    t: "carm_deref_read sim_ops 19 ?s = Done (A, t)" "evolves sim_view ?s t" "resident sim_view t 19 A" by blast
  have "total_obj_cnt t = total_obj_cnt ?s" using evolves_book [OF t(2)] by (simp add: same_book_def)
  then have "19 < total_obj_cnt t" by (simp add: start_defs working_set_objects)
  moreover have "(rt_step sim_ops)\<^sup>*\<^sup>* ?s t" using deref_read [OF t(1)] by blast
  moreover have "ptrs t 19 \<noteq> Null" using t(3) by (auto simp: resident_def)
  ultimately show ?thesis
    using prefetch_never_uninitialised [of sim_ops "\<lambda>_. 1" "\<lambda>_. 2" sim_boot "sim_start (\<lambda>_. 0)" t 12 5] by auto
qed

end
