(* ===== verification/IR.thy ===== *)
theory IR
  imports Fuel
begin

text \<open>
  The part of LLVM's intermediate representation the compiler passes of
  \<open>src/runtime/compiler_passes\<close> read and write, as data: types, values, instructions, basic
  blocks, functions; and the edits the passes make through LLVM's interface, as that interface
  documents them (insert before an instruction, replace all uses, erase, split a block, insert
  a cast or call). An edit LLVM's assertions refuse is \<open>Faulted\<close>.
\<close>

section \<open>Types, values, instructions\<close>

datatype ty = TVoid | TInt nat | TPtr ty | TFloat | TDouble | TStruct string | TArray nat ty
  | TFunc ty "ty list" bool

abbreviation "Int1Type \<equiv> TInt 1"
abbreviation "Int8Type \<equiv> TInt 8"
abbreviation "Int32Type \<equiv> TInt 32"
abbreviation "Int64Type \<equiv> TInt 64"
abbreviation "VoidPointer8Type \<equiv> TPtr (TInt 8)"
abbreviation "VoidPointer32Type \<equiv> TPtr (TInt 32)"

text \<open>Identifiers number instructions and basic blocks.\<close>

type_synonym ident = nat

datatype castop = BitCast | PtrToInt | IntToPtr | ZExt | SExt | Trunc | CastOther string
datatype binop = And | Xor | Add | Sub | Mul | LShr | BinOther string
datatype icmp = NE | UGE | PredOther string

datatype val = VInst ident | VArg nat | VInt ty u64 | VNull ty | VFun string | VGlob string ty
  | VBlk ident | VCastC castop val ty | VGepC val "val list" ty | VBinC binop val val ty
  | VICmpC icmp val val | VUndef ty

text \<open>
  \<open>Term\<close> is any other terminator (with its targets), \<open>Other\<close> any other instruction.
\<close>

datatype op = Alloca ty | Load ty val | Store val val | Gep ty val "val list" | Cast castop val
  | Bin binop val val | ICmp icmp val val | Phi "(val \<times> ident) list" | Call val "val list"
  | Invoke val "val list" ident ident | Br ident | CondBr val ident ident | Ret "val option"
  | Term string "val list" "ident list" | Other string "val list"

record inst =
  i_id :: ident
  i_ty :: ty
  i_op :: op

record block =
  b_id :: ident
  b_insts :: "inst list"

record fdecl =
  fd_name :: string
  fd_ret :: ty
  fd_args :: "ty list"
  fd_vararg :: bool
  fd_empty :: bool

record func =
  f_name :: string
  f_ret :: ty
  f_args :: "ty list"
  f_blocks :: "block list"

text \<open>
  The state of a pass at work on a function: the functions of the module, the globals with
  their string initialisers, the function, and the next free identifier.
\<close>

record edit =
  ed_decls :: "fdecl list"
  ed_globals :: "(string \<times> string option) list"
  ed_fun :: func
  ed_next :: ident

section \<open>Reading\<close>

definition insts :: "func \<Rightarrow> inst list" where
  "insts F = concat (map b_insts (f_blocks F))"

definition find_inst :: "edit \<Rightarrow> ident \<Rightarrow> inst option" where
  "find_inst e i = find (\<lambda>x. i_id x = i) (insts (ed_fun e))"

fun op_operands :: "op \<Rightarrow> val list" where
  "op_operands (Alloca t) = []"
| "op_operands (Load t p) = [p]"
| "op_operands (Store v p) = [v, p]"
| "op_operands (Gep t p is) = p # is"
| "op_operands (Cast c v) = [v]"
| "op_operands (Bin b v w) = [v, w]"
| "op_operands (ICmp c v w) = [v, w]"
| "op_operands (Phi ins) = map fst ins"
| "op_operands (Call f as) = as @ [f]"
| "op_operands (Invoke f as n u) = as @ [VBlk n, VBlk u, f]"
| "op_operands (Br b) = [VBlk b]"
| "op_operands (CondBr c t f) = [c, VBlk f, VBlk t]"
| "op_operands (Ret r) = (case r of None \<Rightarrow> [] | Some v \<Rightarrow> [v])"
| "op_operands (Term s vs bs) = vs @ map VBlk bs"
| "op_operands (Other s vs) = vs"

fun called_function :: "op \<Rightarrow> string option" where
  "called_function (Call (VFun f) as) = Some f"
| "called_function (Invoke (VFun f) as n u) = Some f"
| "called_function _ = None"

fun is_term :: "op \<Rightarrow> bool" where
  "is_term (Invoke f as n u) = True" | "is_term (Br b) = True" | "is_term (CondBr c t f) = True"
| "is_term (Ret r) = True" | "is_term (Term s vs bs) = True" | "is_term _ = False"

fun is_call :: "op \<Rightarrow> bool" where
  "is_call (Call f as) = True" | "is_call (Invoke f as n u) = True" | "is_call _ = False"

fun is_load :: "op \<Rightarrow> bool" where "is_load (Load t p) = True" | "is_load _ = False"
fun is_store :: "op \<Rightarrow> bool" where "is_store (Store v p) = True" | "is_store _ = False"
fun is_alloca :: "op \<Rightarrow> bool" where "is_alloca (Alloca t) = True" | "is_alloca _ = False"
fun is_phi :: "op \<Rightarrow> bool" where "is_phi (Phi vs) = True" | "is_phi _ = False"

text \<open>Debug intrinsics, which \<open>getNextNonDebugInstruction\<close> skips.\<close>

definition is_debug :: "op \<Rightarrow> bool" where
  "is_debug o1 = (case called_function o1 of Some f \<Rightarrow> take 9 f = ''llvm.dbg.'' | None \<Rightarrow> False)"

definition find_decl :: "fdecl list \<Rightarrow> string \<Rightarrow> fdecl option" where
  "find_decl ds f = find (\<lambda>d. fd_name d = f) ds"

definition fun_type :: "fdecl \<Rightarrow> ty" where
  "fun_type d = TFunc (fd_ret d) (fd_args d) (fd_vararg d)"

fun type_of :: "edit \<Rightarrow> val \<Rightarrow> ty" where
  "type_of e (VInst i) = (case find_inst e i of None \<Rightarrow> TVoid | Some x \<Rightarrow> i_ty x)"
| "type_of e (VArg n) = (if n < length (f_args (ed_fun e)) then f_args (ed_fun e) ! n else TVoid)"
| "type_of e (VInt t c) = t"
| "type_of e (VNull t) = t"
| "type_of e (VFun f) = (case find_decl (ed_decls e) f of None \<Rightarrow> TVoid | Some d \<Rightarrow> TPtr (fun_type d))"
| "type_of e (VGlob g t) = TPtr t"
| "type_of e (VBlk b) = TVoid"
| "type_of e (VCastC c v t) = t"
| "type_of e (VGepC v vs t) = t"
| "type_of e (VBinC b v w t) = t"
| "type_of e (VICmpC c v w) = TInt 1"
| "type_of e (VUndef t) = t"

fun is_const :: "val \<Rightarrow> bool" where
  "is_const (VInst i) = False" | "is_const (VArg n) = False" | "is_const (VBlk b) = False"
| "is_const _ = True"

section \<open>Substitution\<close>

definition subst_val :: "val \<Rightarrow> val \<Rightarrow> val \<Rightarrow> val" where
  "subst_val a w v = (if v = a then w else v)"

fun map_op :: "(val \<Rightarrow> val) \<Rightarrow> op \<Rightarrow> op" where
  "map_op g (Alloca t) = Alloca t"
| "map_op g (Load t p) = Load t (g p)"
| "map_op g (Store v p) = Store (g v) (g p)"
| "map_op g (Gep t p is) = Gep t (g p) (map g is)"
| "map_op g (Cast c v) = Cast c (g v)"
| "map_op g (Bin b v w) = Bin b (g v) (g w)"
| "map_op g (ICmp c v w) = ICmp c (g v) (g w)"
| "map_op g (Phi ins) = Phi (map (\<lambda>(v, b). (g v, b)) ins)"
| "map_op g (Call f as) = Call (g f) (map g as)"
| "map_op g (Invoke f as n u) = Invoke (g f) (map g as) n u"
| "map_op g (Br b) = Br b"
| "map_op g (CondBr c t f) = CondBr (g c) t f"
| "map_op g (Ret r) = Ret (map_option g r)"
| "map_op g (Term s vs bs) = Term s (map g vs) bs"
| "map_op g (Other s vs) = Other s (map g vs)"

definition map_insts :: "(inst \<Rightarrow> inst) \<Rightarrow> func \<Rightarrow> func" where
  "map_insts g F = F\<lparr>f_blocks := map (\<lambda>b. b\<lparr>b_insts := map g (b_insts b)\<rparr>) (f_blocks F)\<rparr>"

section \<open>Edits\<close>

definition on_fun :: "(func \<Rightarrow> func) \<Rightarrow> edit \<Rightarrow> edit" where
  "on_fun g e = e\<lparr>ed_fun := g (ed_fun e)\<rparr>"

text \<open>\<open>replaceAllUsesWith\<close>\<close>

definition subst_uses :: "val \<Rightarrow> val \<Rightarrow> func \<Rightarrow> func" where
  "subst_uses a w = map_insts (\<lambda>x. x\<lparr>i_op := map_op (subst_val a w) (i_op x)\<rparr>)"

definition replace_uses :: "val \<Rightarrow> val \<Rightarrow> edit \<Rightarrow> edit run" where
  "replace_uses a w e =
     (if type_of e a = type_of e w then Done (on_fun (subst_uses a w) e) else Faulted)"

text \<open>\<open>eraseFromParent\<close>\<close>

definition erase_from :: "ident \<Rightarrow> func \<Rightarrow> func" where
  "erase_from i F = F\<lparr>f_blocks :=
     map (\<lambda>b. b\<lparr>b_insts := filter (\<lambda>x. i_id x \<noteq> i) (b_insts b)\<rparr>) (f_blocks F)\<rparr>"

definition erase :: "ident \<Rightarrow> edit \<Rightarrow> edit" where
  "erase i = on_fun (erase_from i)"

definition erase_all :: "ident list \<Rightarrow> edit \<Rightarrow> edit" where
  "erase_all is e = fold erase is e"

text \<open>Insertion before an instruction, as an \<open>IRBuilder\<close> at that instruction does it.\<close>

fun insert_before_in :: "ident \<Rightarrow> inst \<Rightarrow> inst list \<Rightarrow> inst list" where
  "insert_before_in p x [] = []"
| "insert_before_in p x (y # ys) = (if i_id y = p then x # y # ys else y # insert_before_in p x ys)"

definition insert_before :: "ident \<Rightarrow> inst \<Rightarrow> func \<Rightarrow> func" where
  "insert_before p x F =
     F\<lparr>f_blocks := map (\<lambda>b. b\<lparr>b_insts := insert_before_in p x (b_insts b)\<rparr>) (f_blocks F)\<rparr>"

definition build :: "ident \<Rightarrow> ty \<Rightarrow> op \<Rightarrow> edit \<Rightarrow> val \<times> edit" where
  "build p t o1 e =
     (VInst (ed_next e),
      e\<lparr>ed_fun := insert_before p \<lparr>i_id = ed_next e, i_ty = t, i_op = o1\<rparr> (ed_fun e),
        ed_next := ed_next e + 1\<rparr>)"

text \<open>\<open>CreateCast\<close>: nothing to do for equal types; a constant becomes a constant expression.\<close>

definition create_cast :: "ident \<Rightarrow> castop \<Rightarrow> val \<Rightarrow> ty \<Rightarrow> edit \<Rightarrow> val \<times> edit" where
  "create_cast p c v t e =
     (if type_of e v = t then (v, e)
      else if is_const v then (VCastC c v t, e)
      else build p t (Cast c v) e)"

fun is_ptr :: "ty \<Rightarrow> bool" where "is_ptr (TPtr t) = True" | "is_ptr _ = False"

fun bits :: "ty \<Rightarrow> nat" where
  "bits (TInt n) = n" | "bits TFloat = 32" | "bits TDouble = 64" | "bits _ = 0"

definition castable :: "ty \<Rightarrow> ty \<Rightarrow> bool" where
  "castable a b \<longleftrightarrow> a = b \<or> is_ptr a \<and> is_ptr b \<or> 0 < bits a \<and> bits a = bits b"

definition create_bitcast :: "ident \<Rightarrow> val \<Rightarrow> ty \<Rightarrow> edit \<Rightarrow> (val \<times> edit) run" where
  "create_bitcast p v t e =
     (if castable (type_of e v) t then Done (create_cast p BitCast v t e) else Faulted)"

text \<open>\<open>CreateIntCast\<close> without sign.\<close>

definition create_intcast :: "ident \<Rightarrow> val \<Rightarrow> ty \<Rightarrow> edit \<Rightarrow> (val \<times> edit) run" where
  "create_intcast p v t e =
     (case (type_of e v, t) of
        (TInt a, TInt b) \<Rightarrow> Done (create_cast p (if b < a then Trunc else ZExt) v t e)
      | _ \<Rightarrow> Faulted)"

text \<open>\<open>CreatePointerCast\<close> to an integer or another pointer.\<close>

definition create_pointercast :: "ident \<Rightarrow> val \<Rightarrow> ty \<Rightarrow> edit \<Rightarrow> (val \<times> edit) run" where
  "create_pointercast p v t e =
     (if \<not> is_ptr (type_of e v) then Faulted
      else if is_ptr t then Done (create_cast p BitCast v t e)
      else Done (create_cast p PtrToInt v t e))"

text \<open>Binary operations and comparisons; of two constants, a constant expression.\<close>

definition create_bin :: "ident \<Rightarrow> binop \<Rightarrow> val \<Rightarrow> val \<Rightarrow> edit \<Rightarrow> val \<times> edit" where
  "create_bin p b v w e =
     (if is_const v \<and> is_const w then (VBinC b v w (type_of e v), e)
      else build p (type_of e v) (Bin b v w) e)"

definition create_icmp :: "ident \<Rightarrow> icmp \<Rightarrow> val \<Rightarrow> val \<Rightarrow> edit \<Rightarrow> val \<times> edit" where
  "create_icmp p c v w e =
     (if is_const v \<and> is_const w then (VICmpC c v w, e) else build p Int1Type (ICmp c v w) e)"

text \<open>\<open>getOrInsertFunction\<close>, then \<open>CreateCall\<close> of the function of that name.\<close>

definition get_or_insert :: "string \<Rightarrow> ty \<Rightarrow> ty list \<Rightarrow> bool \<Rightarrow> edit \<Rightarrow> fdecl \<times> edit" where
  "get_or_insert f t ts va e =
     (case find_decl (ed_decls e) f of
        Some d \<Rightarrow> (d, e)
      | None \<Rightarrow> let d = \<lparr>fd_name = f, fd_ret = t, fd_args = ts, fd_vararg = va, fd_empty = True\<rparr>
                in (d, e\<lparr>ed_decls := ed_decls e @ [d]\<rparr>))"

definition good_call :: "edit \<Rightarrow> fdecl \<Rightarrow> val list \<Rightarrow> bool" where
  "good_call e d as \<longleftrightarrow>
     (if fd_vararg d then length (fd_args d) \<le> length as else length (fd_args d) = length as) \<and>
     list_all (\<lambda>(t, v). type_of e v = t) (zip (fd_args d) as)"

definition create_call :: "ident \<Rightarrow> fdecl \<Rightarrow> val list \<Rightarrow> edit \<Rightarrow> (val \<times> edit) run" where
  "create_call p d as e =
     (if good_call e d as then Done (build p (fd_ret d) (Call (VFun (fd_name d)) as) e) else Faulted)"

definition create_function ::
    "ty list \<Rightarrow> string \<Rightarrow> val list \<Rightarrow> ty \<Rightarrow> ident \<Rightarrow> bool \<Rightarrow> edit \<Rightarrow> (val \<times> edit) run" where
  "create_function ts f as t p va e =
     (case get_or_insert f t ts va e of (d, e) \<Rightarrow> create_call p d as e)"

section \<open>Splitting a block\<close>

fun split_at :: "ident \<Rightarrow> inst list \<Rightarrow> inst list \<times> inst list" where
  "split_at p [] = ([], [])"
| "split_at p (x # xs) =
     (if i_id x = p then ([], x # xs) else case split_at p xs of (a, b) \<Rightarrow> (x # a, b))"

definition has_inst :: "ident \<Rightarrow> block \<Rightarrow> bool" where
  "has_inst p b = (\<exists>x\<in>set (b_insts b). i_id x = p)"

definition parent :: "ident \<Rightarrow> func \<Rightarrow> ident option" where
  "parent p F = map_option b_id (find (has_inst p) (f_blocks F))"

text \<open>The phis of a block that named \<open>h\<close> as a predecessor name \<open>t\<close>.\<close>

fun repred_op :: "ident \<Rightarrow> ident \<Rightarrow> op \<Rightarrow> op" where
  "repred_op h t (Phi vs) = Phi (map (\<lambda>(v, b). (v, if b = h then t else b)) vs)"
| "repred_op h t o1 = o1"

text \<open>
  \<open>SplitBlockAndInsertIfThenElse\<close>: the block ends before \<open>p\<close> with a branch on \<open>c\<close> to two
  new blocks, both of which go on to a new block with the rest. The new identifiers are, in
  order, the rest, the two blocks, their branches, and the new branch.
\<close>

fun split_blocks :: "ident \<Rightarrow> val \<Rightarrow> ident \<Rightarrow> block list \<Rightarrow> block list" where
  "split_blocks p c n [] = []"
| "split_blocks p c n (b # bs) =
     (if has_inst p b
      then case split_at p (b_insts b) of (hd1, tl1) \<Rightarrow>
        b\<lparr>b_insts := hd1 @ [\<lparr>i_id = n + 5, i_ty = TVoid, i_op = CondBr c (n + 1) (n + 2)\<rparr>]\<rparr> #
        \<lparr>b_id = n + 1, b_insts = [\<lparr>i_id = n + 3, i_ty = TVoid, i_op = Br n\<rparr>]\<rparr> #
        \<lparr>b_id = n + 2, b_insts = [\<lparr>i_id = n + 4, i_ty = TVoid, i_op = Br n\<rparr>]\<rparr> #
        \<lparr>b_id = n, b_insts = tl1\<rparr> # bs
      else b # split_blocks p c n bs)"

definition split_if_then_else :: "val \<Rightarrow> ident \<Rightarrow> edit \<Rightarrow> (ident \<times> ident \<times> edit) run" where
  "split_if_then_else c p e =
     (case parent p (ed_fun e) of
        None \<Rightarrow> Faulted
      | Some h \<Rightarrow>
          let n = ed_next e;
              F = map_insts (\<lambda>x. x\<lparr>i_op := repred_op h n (i_op x)\<rparr>) (ed_fun e);
              F = F\<lparr>f_blocks := split_blocks p c n (f_blocks F)\<rparr>
          in Done (n + 3, n + 4, e\<lparr>ed_fun := F, ed_next := n + 6\<rparr>))"

definition block_of :: "ident \<Rightarrow> edit \<Rightarrow> ident run" where
  "block_of p e = (case parent p (ed_fun e) of None \<Rightarrow> Faulted | Some b \<Rightarrow> Done b)"

text \<open>The first instruction of a block.\<close>

definition front :: "ident \<Rightarrow> edit \<Rightarrow> ident run" where
  "front b e = (case find (\<lambda>x. b_id x = b) (f_blocks (ed_fun e)) of
     None \<Rightarrow> Faulted
   | Some x \<Rightarrow> (case b_insts x of [] \<Rightarrow> Faulted | i # _ \<Rightarrow> Done (i_id i)))"

text \<open>The instruction after \<open>p\<close> that is not a debug intrinsic.\<close>

fun next_non_debug_in :: "ident \<Rightarrow> inst list \<Rightarrow> inst option" where
  "next_non_debug_in p [] = None"
| "next_non_debug_in p (x # xs) =
     (if i_id x = p then find (\<lambda>y. \<not> is_debug (i_op y)) xs else next_non_debug_in p xs)"

definition next_non_debug :: "ident \<Rightarrow> func \<Rightarrow> inst option" where
  "next_non_debug p F =
     (case find (has_inst p) (f_blocks F) of None \<Rightarrow> None
      | Some b \<Rightarrow> next_non_debug_in p (b_insts b))"

text \<open>The entry block's first instruction that is not a phi.\<close>

definition entry_first_non_phi :: "func \<Rightarrow> inst option" where
  "entry_first_non_phi F =
     (case f_blocks F of [] \<Rightarrow> None | b # _ \<Rightarrow> find (\<lambda>x. \<not> is_phi (i_op x)) (b_insts b))"

section \<open>Shared by the passes\<close>

text \<open>The marker the check pass inserts and the others look for.\<close>

definition CARM_DEREF_DUMMY :: string where "CARM_DEREF_DUMMY = ''_Z10carm_derefPv''"

text \<open>The marker of a loop access.\<close>

definition CARM_DEREF_LOOP_DUMMY :: string where "CARM_DEREF_LOOP_DUMMY = ''carm_deref_loop''"

text \<open>\<open>find(s) != npos\<close>\<close>

fun contains :: "string \<Rightarrow> string \<Rightarrow> bool" where
  "contains s [] = (s = [])"
| "contains s (c # cs) = (take (length s) (c # cs) = s \<or> contains s cs)"

definition insts_where :: "(op \<Rightarrow> bool) \<Rightarrow> func \<Rightarrow> ident list" where
  "insts_where q F = map i_id (filter (\<lambda>x. q (i_op x)) (insts F))"

text \<open>The functions the passes of a module leave out: without code, or an intrinsic.\<close>

definition skipped :: "func \<Rightarrow> bool" where
  "skipped F \<longleftrightarrow> insts F = [] \<or> take 5 (f_name F) = ''llvm.''"

text \<open>A module: what its functions are declared as, its globals, and its functions.\<close>

record module =
  m_decls :: "fdecl list"
  m_globals :: "(string \<times> string option) list"
  m_funs :: "func list"
  m_next :: ident

definition edit_of :: "module \<Rightarrow> func \<Rightarrow> edit" where
  "edit_of M F = \<lparr>ed_decls = m_decls M, ed_globals = m_globals M, ed_fun = F, ed_next = m_next M\<rparr>"

text \<open>A pass over the functions of a module in order.\<close>

fun run_functions :: "(edit \<Rightarrow> edit run) \<Rightarrow> func list \<Rightarrow> module \<Rightarrow> (func list \<times> module) run" where
  "run_functions g [] M = Done ([], M)"
| "run_functions g (F # Fs) M =
     bindR (g (edit_of M F)) (\<lambda>e.
       bindR (run_functions g Fs (M\<lparr>m_decls := ed_decls e, m_next := ed_next e\<rparr>)) (\<lambda>(Gs, M).
         Done (ed_fun e # Gs, M)))"

definition run_module :: "(edit \<Rightarrow> edit run) \<Rightarrow> module \<Rightarrow> module run" where
  "run_module g M =
     bindR (run_functions g (m_funs M) M) (\<lambda>(Fs, M). Done (M\<lparr>m_funs := Fs\<rparr>))"

end
