(* ===== verification/Libc_Transform.thy ===== *)
theory Libc_Transform
  imports IR
begin

text \<open>
  \<open>carm_libc_transform/src/CatPass.cpp\<close>: the pass that redirects the calls of library
  functions to the runtime's. It sorts the calls of a function by the name called, then
  replaces each list in a fixed order: the arguments are cast to the types of the runtime
  function, the call is inserted, the uses of the result are redirected, and the old calls are
  erased. The kinds of a call name the lists of the pass.
\<close>

section \<open>The functions of the runtime\<close>

definition CARM_STRDUP :: string where "CARM_STRDUP = ''_Z11carm_strdupPc''"
definition CARM_MALLOC :: string where "CARM_MALLOC = ''_Z18carm_remote_mallocm''"
definition CARM_MEMCPY :: string where "CARM_MEMCPY = ''_Z11carm_memcpyPaS_m''"
definition CARM_WMEMCPY :: string where "CARM_WMEMCPY = ''_Z12carm_wmemcpyPiS_m''"
definition CARM_MEMCMP :: string where "CARM_MEMCMP = ''_Z11carm_memcmpPvS_m''"
definition CARM_STRCMP :: string where "CARM_STRCMP = ''_Z11carm_strcmpPvS_''"
definition CARM_WMEMCMP :: string where "CARM_WMEMCMP = ''_Z12carm_wmemcmpPiS_m''"
definition CARM_MEMSET :: string where "CARM_MEMSET = ''_Z11carm_memsetPvim''"
definition CARM_CALLOC :: string where "CARM_CALLOC = ''_Z11carm_callocmm''"
definition CARM_REALLOC :: string where "CARM_REALLOC = ''_Z12carm_reallocPvm''"
definition CARM_STRLEN :: string where "CARM_STRLEN = ''_Z11carm_strlenPv''"
definition CARM_MEMCHR :: string where "CARM_MEMCHR = ''_Z11carm_memchrPvim''"
definition CARM_WMEMCHR :: string where "CARM_WMEMCHR = ''_Z12carm_wmemchrPiim''"
definition CARM_FWRITE :: string where "CARM_FWRITE = ''_Z11carm_fwritePvmmS_''"
definition CARM_FREAD :: string where "CARM_FREAD = ''_Z10carm_freadPvmmS_''"
definition CARM_STRCPY :: string where "CARM_STRCPY = ''_Z11carm_strcpyPvS_''"
definition CARM_STRNCPY :: string where "CARM_STRNCPY = ''_Z12carm_strncpyPvS_m''"
definition CARM_VSNPRINTF :: string where "CARM_VSNPRINTF = ''_Z14carm_vsnprintfPvmS_P13__va_list_tag''"
definition CARM_VSPRINTF :: string where "CARM_VSPRINTF = ''_Z13carm_vsprintfPvS_P13__va_list_tag''"
definition CARM_SNPRINTF :: string where "CARM_SNPRINTF = ''_Z13carm_snprintfPvmS_z''"
definition CARM_SPRINTF :: string where "CARM_SPRINTF = ''_Z12carm_sprintfPvS_z''"
definition CARM_VFPRINTF :: string where "CARM_VFPRINTF = ''_Z13carm_vfprintfPvS_P13__va_list_tag''"
definition CARM_SSCANF :: string where "CARM_SSCANF = ''_Z11carm_sscanfPvS_z''"
definition CARM_FOPEN :: string where "CARM_FOPEN = ''_Z10carm_fopenPvS_''"
definition CARM_FCLOSE :: string where "CARM_FCLOSE = ''_Z11carm_fclosePv''"
definition CARM_FREE :: string where "CARM_FREE = ''_Z9carm_freePv''"
definition CARM_LOCAL_MALLOC :: string where "CARM_LOCAL_MALLOC = ''_Z17carm_local_mallocm''"
definition CARM_READ :: string where "CARM_READ = ''_Z9carm_readiPvl''"
definition CARM_STRTOL :: string where "CARM_STRTOL = ''_Z11carm_strtolPcPS_i''"
definition CARM_STRTOUL :: string where "CARM_STRTOUL = ''_Z12carm_strtoulPcPS_i''"
definition CARM_FPRINTF :: string where "CARM_FPRINTF = ''_Z12carm_fprintfPvS_z''"

definition LOCAL_MALLOC :: string where "LOCAL_MALLOC = ''local_malloc''"

section \<open>Sorting the calls\<close>

text \<open>The table of names; a name not in it has number 0.\<close>

definition fmap_names :: "string list" where
  "fmap_names =
     [''Not supported'', ''malloc'', ''mmap'', ''_Znwm'', ''_Znam'', ''_Znaj'', ''_Znwj'',
      ''free'', ''_ZdlPv'', CARM_DEREF_DUMMY, ''memcpy'', ''memmove'', ''memcmp'',
      ''llvm.memcpy.p0i8.p0i8.i64'', ''memset'', ''llvm.memmove.p0i8.p0i8.i64'',
      ''llvm.memset.p0i8.i64'', ''calloc'', ''realloc'', ''wmemcpy'', ''wmemcmp'',
      ''wmemmove'', ''strcmp'', ''strlen'', ''memchr'', ''wmemchr'', ''fwrite'', ''fread'',
      ''strcpy'', ''strncpy'', ''snprintf'', ''sprintf'', ''vsnprintf'', ''vsprintf'',
      ''_ZdaPv'', ''sscanf'', ''fopen'', ''vfprintf'', ''fclose'', CARM_DEREF_LOOP_DUMMY,
      ''strdup'', ''llvm.var.annotation'', ''read'', ''strtol'', ''strtoul'', ''fprintf'']"

fun index_in :: "string \<Rightarrow> string list \<Rightarrow> nat" where
  "index_in s [] = 0"
| "index_in s (t # ts) = (if s = t then 0 else Suc (index_in s ts))"

definition fmap :: "string \<Rightarrow> nat" where
  "fmap s = (if index_in s fmap_names < length fmap_names then index_in s fmap_names else 0)"

datatype kind = K_malloc | K_local_malloc | K_free | K_memcpy | K_memchr | K_wmemchr | K_wmemcpy |
  K_memcmp | K_wmemcmp | K_strcmp | K_strlen | K_llvm_memcpy | K_llvm_memove |
  K_memset | K_fwrite | K_fread | K_read | K_fopen | K_fprintf | K_fclose |
  K_llvmi_memset | K_calloc | K_realloc | K_strcpy | K_strncpy | K_snprintf |
  K_sprintf | K_vsnprintf | K_vsprintf | K_vfprintf | K_sscanf | K_strdup | K_strtol |
  K_strtoul | K_carm_check | K_carm_loop

text \<open>The cases of the switch that name one list; 1 and 2 depend on the annotation before.\<close>

definition listed :: "(nat \<times> kind) list" where
  "listed =
     [(7, K_free), (9, K_carm_check), (10, K_memcpy), (11, K_memcpy), (12, K_memcmp),
      (13, K_llvm_memcpy), (14, K_memset), (15, K_llvm_memove), (16, K_llvmi_memset),
      (17, K_calloc), (18, K_realloc), (19, K_wmemcpy), (20, K_wmemcmp), (21, K_wmemcpy),
      (22, K_strcmp), (23, K_strlen), (24, K_memchr), (25, K_wmemchr), (26, K_fwrite),
      (27, K_fread), (28, K_strcpy), (29, K_strncpy), (30, K_snprintf), (31, K_sprintf),
      (32, K_vsnprintf), (33, K_vsprintf), (35, K_sscanf), (36, K_fopen),
      (37, K_vfprintf), (38, K_fclose), (39, K_carm_loop), (40, K_strdup), (42, K_read),
      (43, K_strtol), (44, K_strtoul), (45, K_fprintf)]"

text \<open>
  An annotation whose text contains \<open>local_malloc\<close>; its second operand has to be an
  instruction that computes an address in a constant string.
\<close>

definition marks_local :: "edit \<Rightarrow> inst \<Rightarrow> bool" where
  "marks_local e x =
     (case i_op x of
        Call f (a # VInst j # as) \<Rightarrow>
          (case find_inst e j of
             Some g \<Rightarrow> (case i_op g of
                Gep t (VGlob s t') is \<Rightarrow>
                  (case map_of (ed_globals e) s of
                     Some (Some str) \<Rightarrow> contains LOCAL_MALLOC str
                   | _ \<Rightarrow> False)
              | _ \<Rightarrow> False)
           | None \<Rightarrow> False)
      | _ \<Rightarrow> False)"

text \<open>One call of a function the module does not define: its kind, and the annotation flag after.\<close>

definition classify :: "edit \<Rightarrow> inst \<Rightarrow> bool \<Rightarrow> kind option \<times> bool" where
  "classify e x local_malloc =
     (case called_function (i_op x) of
        None \<Rightarrow> (None, local_malloc)
      | Some f \<Rightarrow>
          (case find_decl (ed_decls e) f of
             Some d \<Rightarrow>
               if \<not> fd_empty d then (None, local_malloc)
               else if fmap f = 1 \<or> fmap f = 2
               then (if local_malloc then (Some K_local_malloc, False) else (Some K_malloc, False))
               else if fmap f = 41 then (None, local_malloc \<or> marks_local e x)
               else (map_of listed (fmap f), local_malloc)
           | None \<Rightarrow> (None, local_malloc)))"

type_synonym calls = "kind \<Rightarrow> ident list"

fun parse_insts :: "edit \<Rightarrow> inst list \<Rightarrow> bool \<Rightarrow> calls \<Rightarrow> calls" where
  "parse_insts e [] local_malloc c = c"
| "parse_insts e (x # xs) local_malloc c =
     (case classify e x local_malloc of
        (None, l) \<Rightarrow> parse_insts e xs l c
      | (Some k, l) \<Rightarrow> parse_insts e xs l (c(k := c k @ [i_id x])))"

definition parse_lib_functions :: "edit \<Rightarrow> calls" where
  "parse_lib_functions e = parse_insts e (insts (ed_fun e)) False (\<lambda>_. [])"

section \<open>Replacing one call\<close>

text \<open>
  How an argument is passed on: as it is (also after a cast to its own type, which is no
  instruction), bit-cast, or converted to an integer type.
\<close>

datatype argconv = AsIs nat | BitTo nat ty | IntTo nat ty

text \<open>What happens to the uses of the old call.\<close>

datatype result_use = Unused | ReplaceUses | ReplaceCast

record call_spec =
  cs_target :: string
  cs_params :: "ty list"
  cs_args :: "argconv list"
  cs_rest :: "nat option"
  cs_vararg :: bool
  cs_ret :: "ty option"
  cs_result :: result_use
  cs_branch :: bool

definition operand :: "val list \<Rightarrow> nat \<Rightarrow> val run" where
  "operand os k = (if k < length os then Done (os ! k) else Faulted)"

fun conv_arg :: "ident \<Rightarrow> val list \<Rightarrow> argconv \<Rightarrow> edit \<Rightarrow> (val \<times> edit) run" where
  "conv_arg p os (AsIs k) e = bindR (operand os k) (\<lambda>v. Done (v, e))"
| "conv_arg p os (BitTo k t) e = bindR (operand os k) (\<lambda>v. create_bitcast p v t e)"
| "conv_arg p os (IntTo k t) e = bindR (operand os k) (\<lambda>v. create_intcast p v t e)"

fun conv_args :: "ident \<Rightarrow> val list \<Rightarrow> argconv list \<Rightarrow> edit \<Rightarrow> (val list \<times> edit) run" where
  "conv_args p os [] e = Done ([], e)"
| "conv_args p os (a # as) e =
     bindR (conv_arg p os a e) (\<lambda>(v, e). bindR (conv_args p os as e) (\<lambda>(vs, e). Done (v # vs, e)))"

definition use_result :: "result_use \<Rightarrow> ident \<Rightarrow> ty \<Rightarrow> val \<Rightarrow> edit \<Rightarrow> edit run" where
  "use_result u i t v e =
     (case u of
        Unused \<Rightarrow> Done e
      | ReplaceUses \<Rightarrow> replace_uses (VInst i) v e
      | ReplaceCast \<Rightarrow> bindR (create_bitcast i v t e) (\<lambda>(w, e). replace_uses (VInst i) w e))"

text \<open>A call that was an \<open>invoke\<close> ended its block: a branch to its normal destination.\<close>

definition branch_on :: "bool \<Rightarrow> ident \<Rightarrow> op \<Rightarrow> edit \<Rightarrow> edit" where
  "branch_on br i o1 e =
     (case o1 of Invoke f as n u \<Rightarrow> if br then snd (build i TVoid (Br n) e) else e | _ \<Rightarrow> e)"

text \<open>The variable arguments: the operands from some number on, but for the last.\<close>

definition rest_operands :: "nat option \<Rightarrow> val list \<Rightarrow> val list" where
  "rest_operands r os = (case r of None \<Rightarrow> [] | Some k \<Rightarrow> drop k (butlast os))"

definition retarget_one :: "call_spec \<Rightarrow> ident \<Rightarrow> edit \<Rightarrow> edit run" where
  "retarget_one c i e =
     (case find_inst e i of
        None \<Rightarrow> Faulted
      | Some x \<Rightarrow>
          let os = op_operands (i_op x); t = (case cs_ret c of None \<Rightarrow> i_ty x | Some t \<Rightarrow> t)
          in bindR (conv_args i os (cs_args c) e) (\<lambda>(as, e).
               bindR (create_function (cs_params c) (cs_target c) (as @ rest_operands (cs_rest c) os)
                        t i (cs_vararg c) e) (\<lambda>(v, e).
                 bindR (use_result (cs_result c) i (i_ty x) v e) (\<lambda>e.
                   Done (branch_on (cs_branch c) i (i_op x) e)))))"

fun retarget_each :: "call_spec \<Rightarrow> ident list \<Rightarrow> edit \<Rightarrow> edit run" where
  "retarget_each c [] e = Done e"
| "retarget_each c (i # is) e = bindR (retarget_one c i e) (retarget_each c is)"

text \<open>All calls of a list, then \<open>delete_instructions\<close>.\<close>

definition retarget :: "call_spec \<Rightarrow> ident list \<Rightarrow> edit \<Rightarrow> edit run" where
  "retarget c is e = bindR (retarget_each c is e) (\<lambda>e. Done (erase_all is e))"

text \<open>The type of an operand of the first call, for the functions that take a \<open>va_list\<close>.\<close>

definition first_operand_type :: "ident list \<Rightarrow> nat \<Rightarrow> edit \<Rightarrow> ty run" where
  "first_operand_type is k e =
     (case is of [] \<Rightarrow> Done TVoid
      | i # _ \<Rightarrow> (case find_inst e i of None \<Rightarrow> Faulted
                 | Some x \<Rightarrow> bindR (operand (op_operands (i_op x)) k) (\<lambda>v. Done (type_of e v))))"

section \<open>The calls of each function\<close>

definition malloc_spec :: "call_spec" where
  "malloc_spec =
     \<lparr>cs_target = CARM_MALLOC, cs_params = [Int64Type],
       cs_args = [AsIs 0], cs_rest = None,
       cs_vararg = False, cs_ret = None, cs_result = ReplaceUses, cs_branch = True\<rparr>"

definition transform_malloc_functions :: "ident list \<Rightarrow> edit \<Rightarrow> edit run" where
  "transform_malloc_functions = retarget malloc_spec"

definition local_malloc_spec :: "call_spec" where
  "local_malloc_spec =
     \<lparr>cs_target = CARM_LOCAL_MALLOC, cs_params = [Int64Type],
       cs_args = [AsIs 0], cs_rest = None,
       cs_vararg = False, cs_ret = None, cs_result = ReplaceUses, cs_branch = True\<rparr>"

definition transform_local_malloc_functions :: "ident list \<Rightarrow> edit \<Rightarrow> edit run" where
  "transform_local_malloc_functions = retarget local_malloc_spec"

definition free_spec :: "call_spec" where
  "free_spec =
     \<lparr>cs_target = CARM_FREE, cs_params = [VoidPointer8Type],
       cs_args = [AsIs 0], cs_rest = None,
       cs_vararg = False, cs_ret = None, cs_result = ReplaceUses, cs_branch = True\<rparr>"

definition transform_free_functions :: "ident list \<Rightarrow> edit \<Rightarrow> edit run" where
  "transform_free_functions = retarget free_spec"

definition memcpy_spec :: "call_spec" where
  "memcpy_spec =
     \<lparr>cs_target = CARM_MEMCPY, cs_params = [VoidPointer8Type, VoidPointer8Type, Int64Type],
       cs_args = [BitTo 0 VoidPointer8Type, BitTo 1 VoidPointer8Type, BitTo 2 Int64Type], cs_rest = None,
       cs_vararg = False, cs_ret = Some VoidPointer8Type, cs_result = ReplaceUses, cs_branch = False\<rparr>"

definition transform_memcpy_functions :: "ident list \<Rightarrow> edit \<Rightarrow> edit run" where
  "transform_memcpy_functions = retarget memcpy_spec"

definition memchr_spec :: "call_spec" where
  "memchr_spec =
     \<lparr>cs_target = CARM_MEMCHR, cs_params = [VoidPointer8Type, Int32Type, Int64Type],
       cs_args = [BitTo 0 VoidPointer8Type, BitTo 1 Int32Type, BitTo 2 Int64Type], cs_rest = None,
       cs_vararg = False, cs_ret = Some VoidPointer8Type, cs_result = ReplaceUses, cs_branch = False\<rparr>"

definition transform_memchr_functions :: "ident list \<Rightarrow> edit \<Rightarrow> edit run" where
  "transform_memchr_functions = retarget memchr_spec"

definition wmemchr_spec :: "call_spec" where
  "wmemchr_spec =
     \<lparr>cs_target = CARM_WMEMCHR, cs_params = [VoidPointer32Type, Int32Type, Int64Type],
       cs_args = [BitTo 0 VoidPointer32Type, BitTo 1 Int32Type, BitTo 2 Int64Type], cs_rest = None,
       cs_vararg = False, cs_ret = Some VoidPointer32Type, cs_result = ReplaceUses, cs_branch = False\<rparr>"

definition transform_wmemchr_functions :: "ident list \<Rightarrow> edit \<Rightarrow> edit run" where
  "transform_wmemchr_functions = retarget wmemchr_spec"

definition wmemcpy_spec :: "call_spec" where
  "wmemcpy_spec =
     \<lparr>cs_target = CARM_WMEMCPY, cs_params = [VoidPointer32Type, VoidPointer32Type, Int64Type],
       cs_args = [BitTo 0 VoidPointer32Type, BitTo 1 VoidPointer32Type, BitTo 2 Int64Type], cs_rest = None,
       cs_vararg = False, cs_ret = Some VoidPointer32Type, cs_result = ReplaceUses, cs_branch = False\<rparr>"

definition transform_wmemcpy_functions :: "ident list \<Rightarrow> edit \<Rightarrow> edit run" where
  "transform_wmemcpy_functions = retarget wmemcpy_spec"

definition memcmp_spec :: "call_spec" where
  "memcmp_spec =
     \<lparr>cs_target = CARM_MEMCMP, cs_params = [VoidPointer8Type, VoidPointer8Type, Int64Type],
       cs_args = [BitTo 0 VoidPointer8Type, BitTo 1 VoidPointer8Type, BitTo 2 Int64Type], cs_rest = None,
       cs_vararg = False, cs_ret = Some Int32Type, cs_result = ReplaceUses, cs_branch = False\<rparr>"

definition transform_memcmp_functions :: "ident list \<Rightarrow> edit \<Rightarrow> edit run" where
  "transform_memcmp_functions = retarget memcmp_spec"

definition wmemcmp_spec :: "call_spec" where
  "wmemcmp_spec =
     \<lparr>cs_target = CARM_WMEMCMP, cs_params = [VoidPointer32Type, VoidPointer32Type, Int64Type],
       cs_args = [BitTo 0 VoidPointer32Type, BitTo 1 VoidPointer32Type, BitTo 2 Int64Type], cs_rest = None,
       cs_vararg = False, cs_ret = Some Int32Type, cs_result = ReplaceUses, cs_branch = False\<rparr>"

definition transform_wmemcmp_functions :: "ident list \<Rightarrow> edit \<Rightarrow> edit run" where
  "transform_wmemcmp_functions = retarget wmemcmp_spec"

definition strcmp_spec :: "call_spec" where
  "strcmp_spec =
     \<lparr>cs_target = CARM_STRCMP, cs_params = [VoidPointer32Type, VoidPointer32Type],
       cs_args = [BitTo 0 VoidPointer32Type, BitTo 1 VoidPointer32Type], cs_rest = None,
       cs_vararg = False, cs_ret = Some Int32Type, cs_result = ReplaceUses, cs_branch = False\<rparr>"

definition transform_strcmp_functions :: "ident list \<Rightarrow> edit \<Rightarrow> edit run" where
  "transform_strcmp_functions = retarget strcmp_spec"

definition strlen_spec :: "call_spec" where
  "strlen_spec =
     \<lparr>cs_target = CARM_STRLEN, cs_params = [VoidPointer32Type],
       cs_args = [BitTo 0 VoidPointer32Type], cs_rest = None,
       cs_vararg = False, cs_ret = Some Int64Type, cs_result = ReplaceUses, cs_branch = False\<rparr>"

definition transform_strlen_functions :: "ident list \<Rightarrow> edit \<Rightarrow> edit run" where
  "transform_strlen_functions = retarget strlen_spec"

definition llvm_memcpy_spec :: "call_spec" where
  "llvm_memcpy_spec =
     \<lparr>cs_target = CARM_MEMCPY, cs_params = [VoidPointer8Type, VoidPointer8Type, Int64Type],
       cs_args = [BitTo 0 VoidPointer8Type, BitTo 1 VoidPointer8Type, BitTo 2 Int64Type], cs_rest = None,
       cs_vararg = False, cs_ret = Some VoidPointer8Type, cs_result = Unused, cs_branch = False\<rparr>"

definition transform_llvm_memcpy_functions :: "ident list \<Rightarrow> edit \<Rightarrow> edit run" where
  "transform_llvm_memcpy_functions = retarget llvm_memcpy_spec"

definition llvm_memove_spec :: "call_spec" where
  "llvm_memove_spec =
     \<lparr>cs_target = CARM_MEMCPY, cs_params = [VoidPointer8Type, VoidPointer8Type, Int64Type],
       cs_args = [BitTo 0 VoidPointer8Type, BitTo 1 VoidPointer8Type, BitTo 2 Int64Type], cs_rest = None,
       cs_vararg = False, cs_ret = Some VoidPointer8Type, cs_result = Unused, cs_branch = False\<rparr>"

definition transform_llvm_memove_functions :: "ident list \<Rightarrow> edit \<Rightarrow> edit run" where
  "transform_llvm_memove_functions = retarget llvm_memove_spec"

definition memset_spec :: "call_spec" where
  "memset_spec =
     \<lparr>cs_target = CARM_MEMSET, cs_params = [VoidPointer8Type, Int32Type, Int64Type],
       cs_args = [BitTo 0 VoidPointer8Type, BitTo 1 Int32Type, BitTo 2 Int64Type], cs_rest = None,
       cs_vararg = False, cs_ret = Some VoidPointer8Type, cs_result = ReplaceUses, cs_branch = False\<rparr>"

definition transform_memset_functions :: "ident list \<Rightarrow> edit \<Rightarrow> edit run" where
  "transform_memset_functions = retarget memset_spec"

definition fwrite_spec :: "call_spec" where
  "fwrite_spec =
     \<lparr>cs_target = CARM_FWRITE, cs_params = [VoidPointer8Type, Int64Type, Int64Type, VoidPointer8Type],
       cs_args = [BitTo 0 VoidPointer8Type, BitTo 1 Int64Type, BitTo 2 Int64Type, BitTo 3 VoidPointer8Type], cs_rest = None,
       cs_vararg = False, cs_ret = Some Int64Type, cs_result = ReplaceUses, cs_branch = False\<rparr>"

definition transform_fwrite_functions :: "ident list \<Rightarrow> edit \<Rightarrow> edit run" where
  "transform_fwrite_functions = retarget fwrite_spec"

definition fread_spec :: "call_spec" where
  "fread_spec =
     \<lparr>cs_target = CARM_FREAD, cs_params = [VoidPointer8Type, Int64Type, Int64Type, VoidPointer8Type],
       cs_args = [BitTo 0 VoidPointer8Type, BitTo 1 Int64Type, BitTo 2 Int64Type, BitTo 3 VoidPointer8Type], cs_rest = None,
       cs_vararg = False, cs_ret = Some Int64Type, cs_result = ReplaceUses, cs_branch = False\<rparr>"

definition transform_fread_functions :: "ident list \<Rightarrow> edit \<Rightarrow> edit run" where
  "transform_fread_functions = retarget fread_spec"

definition read_spec :: "call_spec" where
  "read_spec =
     \<lparr>cs_target = CARM_READ, cs_params = [Int32Type, VoidPointer8Type, Int64Type],
       cs_args = [BitTo 0 Int32Type, BitTo 1 VoidPointer8Type, BitTo 2 Int64Type], cs_rest = None,
       cs_vararg = False, cs_ret = Some Int64Type, cs_result = ReplaceUses, cs_branch = False\<rparr>"

definition transform_read_functions :: "ident list \<Rightarrow> edit \<Rightarrow> edit run" where
  "transform_read_functions = retarget read_spec"

definition fopen_spec :: "call_spec" where
  "fopen_spec =
     \<lparr>cs_target = CARM_FOPEN, cs_params = [VoidPointer8Type, VoidPointer8Type],
       cs_args = [BitTo 0 VoidPointer8Type, BitTo 1 VoidPointer8Type], cs_rest = None,
       cs_vararg = False, cs_ret = Some VoidPointer8Type, cs_result = ReplaceCast, cs_branch = False\<rparr>"

definition transform_fopen_functions :: "ident list \<Rightarrow> edit \<Rightarrow> edit run" where
  "transform_fopen_functions = retarget fopen_spec"

definition fprintf_spec :: "call_spec" where
  "fprintf_spec =
     \<lparr>cs_target = CARM_FPRINTF, cs_params = [VoidPointer8Type, VoidPointer8Type],
       cs_args = [BitTo 0 VoidPointer8Type, BitTo 1 VoidPointer8Type], cs_rest = Some 2,
       cs_vararg = True, cs_ret = Some Int32Type, cs_result = ReplaceUses, cs_branch = True\<rparr>"

definition transform_fprintf_functions :: "ident list \<Rightarrow> edit \<Rightarrow> edit run" where
  "transform_fprintf_functions = retarget fprintf_spec"

definition fclose_spec :: "call_spec" where
  "fclose_spec =
     \<lparr>cs_target = CARM_FCLOSE, cs_params = [VoidPointer8Type],
       cs_args = [BitTo 0 VoidPointer8Type], cs_rest = None,
       cs_vararg = False, cs_ret = Some Int32Type, cs_result = ReplaceCast, cs_branch = True\<rparr>"

definition transform_fclose_functions :: "ident list \<Rightarrow> edit \<Rightarrow> edit run" where
  "transform_fclose_functions = retarget fclose_spec"

definition llvmi_memset_spec :: "call_spec" where
  "llvmi_memset_spec =
     \<lparr>cs_target = CARM_MEMSET, cs_params = [VoidPointer8Type, Int32Type, Int64Type],
       cs_args = [BitTo 0 VoidPointer8Type, IntTo 1 Int32Type, BitTo 2 Int64Type], cs_rest = None,
       cs_vararg = False, cs_ret = Some VoidPointer8Type, cs_result = Unused, cs_branch = False\<rparr>"

definition transform_llvmi_memset_functions :: "ident list \<Rightarrow> edit \<Rightarrow> edit run" where
  "transform_llvmi_memset_functions = retarget llvmi_memset_spec"

definition calloc_spec :: "call_spec" where
  "calloc_spec =
     \<lparr>cs_target = CARM_CALLOC, cs_params = [Int64Type, Int64Type],
       cs_args = [BitTo 0 Int64Type, BitTo 1 Int64Type], cs_rest = None,
       cs_vararg = False, cs_ret = Some VoidPointer8Type, cs_result = ReplaceUses, cs_branch = False\<rparr>"

definition transform_calloc_functions :: "ident list \<Rightarrow> edit \<Rightarrow> edit run" where
  "transform_calloc_functions = retarget calloc_spec"

definition realloc_spec :: "call_spec" where
  "realloc_spec =
     \<lparr>cs_target = CARM_REALLOC, cs_params = [VoidPointer8Type, Int64Type],
       cs_args = [BitTo 0 VoidPointer8Type, BitTo 1 Int64Type], cs_rest = None,
       cs_vararg = False, cs_ret = Some VoidPointer8Type, cs_result = ReplaceUses, cs_branch = False\<rparr>"

definition transform_realloc_functions :: "ident list \<Rightarrow> edit \<Rightarrow> edit run" where
  "transform_realloc_functions = retarget realloc_spec"

definition strcpy_spec :: "call_spec" where
  "strcpy_spec =
     \<lparr>cs_target = CARM_STRCPY, cs_params = [VoidPointer8Type, VoidPointer8Type],
       cs_args = [BitTo 0 VoidPointer8Type, BitTo 1 VoidPointer8Type], cs_rest = None,
       cs_vararg = False, cs_ret = Some VoidPointer8Type, cs_result = ReplaceUses, cs_branch = False\<rparr>"

definition transform_strcpy_functions :: "ident list \<Rightarrow> edit \<Rightarrow> edit run" where
  "transform_strcpy_functions = retarget strcpy_spec"

definition strncpy_spec :: "call_spec" where
  "strncpy_spec =
     \<lparr>cs_target = CARM_STRNCPY, cs_params = [VoidPointer8Type, VoidPointer8Type, Int64Type],
       cs_args = [BitTo 0 VoidPointer8Type, BitTo 1 VoidPointer8Type, BitTo 2 Int64Type], cs_rest = None,
       cs_vararg = False, cs_ret = Some VoidPointer8Type, cs_result = ReplaceUses, cs_branch = False\<rparr>"

definition transform_strncpy_functions :: "ident list \<Rightarrow> edit \<Rightarrow> edit run" where
  "transform_strncpy_functions = retarget strncpy_spec"

definition snprintf_spec :: "call_spec" where
  "snprintf_spec =
     \<lparr>cs_target = CARM_SNPRINTF, cs_params = [VoidPointer8Type, Int64Type, VoidPointer8Type],
       cs_args = [AsIs 0, BitTo 1 Int64Type, AsIs 2], cs_rest = Some 3,
       cs_vararg = True, cs_ret = Some Int32Type, cs_result = ReplaceUses, cs_branch = False\<rparr>"

definition transform_snprintf_functions :: "ident list \<Rightarrow> edit \<Rightarrow> edit run" where
  "transform_snprintf_functions = retarget snprintf_spec"

definition sprintf_spec :: "call_spec" where
  "sprintf_spec =
     \<lparr>cs_target = CARM_SPRINTF, cs_params = [VoidPointer8Type, VoidPointer8Type],
       cs_args = [AsIs 0, AsIs 1], cs_rest = Some 2,
       cs_vararg = True, cs_ret = Some Int32Type, cs_result = ReplaceUses, cs_branch = False\<rparr>"

definition transform_sprintf_functions :: "ident list \<Rightarrow> edit \<Rightarrow> edit run" where
  "transform_sprintf_functions = retarget sprintf_spec"

definition vsnprintf_spec :: "ty \<Rightarrow> call_spec" where
  "vsnprintf_spec t =
     \<lparr>cs_target = CARM_VSNPRINTF, cs_params = [VoidPointer8Type, Int64Type, VoidPointer8Type, t],
       cs_args = [AsIs 0, BitTo 1 Int64Type, AsIs 2, AsIs 3], cs_rest = None,
       cs_vararg = False, cs_ret = Some Int32Type, cs_result = ReplaceUses, cs_branch = False\<rparr>"

definition transform_vsnprintf_functions :: "ident list \<Rightarrow> edit \<Rightarrow> edit run" where
  "transform_vsnprintf_functions is e =
     bindR (first_operand_type is 3 e) (\<lambda>t. retarget (vsnprintf_spec t) is e)"

definition vsprintf_spec :: "ty \<Rightarrow> call_spec" where
  "vsprintf_spec t =
     \<lparr>cs_target = CARM_VSPRINTF, cs_params = [VoidPointer8Type, VoidPointer8Type, t],
       cs_args = [AsIs 0, AsIs 1, AsIs 2], cs_rest = None,
       cs_vararg = False, cs_ret = Some Int32Type, cs_result = ReplaceUses, cs_branch = False\<rparr>"

definition transform_vsprintf_functions :: "ident list \<Rightarrow> edit \<Rightarrow> edit run" where
  "transform_vsprintf_functions is e =
     bindR (first_operand_type is 2 e) (\<lambda>t. retarget (vsprintf_spec t) is e)"

definition vfprintf_spec :: "ty \<Rightarrow> call_spec" where
  "vfprintf_spec t =
     \<lparr>cs_target = CARM_VFPRINTF, cs_params = [VoidPointer8Type, VoidPointer8Type, t],
       cs_args = [BitTo 0 VoidPointer8Type, AsIs 1, AsIs 2], cs_rest = None,
       cs_vararg = False, cs_ret = Some Int32Type, cs_result = ReplaceUses, cs_branch = False\<rparr>"

definition transform_vfprintf_functions :: "ident list \<Rightarrow> edit \<Rightarrow> edit run" where
  "transform_vfprintf_functions is e =
     bindR (first_operand_type is 2 e) (\<lambda>t. retarget (vfprintf_spec t) is e)"

definition sscanf_spec :: "call_spec" where
  "sscanf_spec =
     \<lparr>cs_target = CARM_SSCANF, cs_params = [VoidPointer8Type, VoidPointer8Type],
       cs_args = [AsIs 0, AsIs 1], cs_rest = Some 2,
       cs_vararg = True, cs_ret = Some Int32Type, cs_result = ReplaceUses, cs_branch = False\<rparr>"

definition transform_sscanf_functions :: "ident list \<Rightarrow> edit \<Rightarrow> edit run" where
  "transform_sscanf_functions = retarget sscanf_spec"

definition strdup_spec :: "call_spec" where
  "strdup_spec =
     \<lparr>cs_target = CARM_STRDUP, cs_params = [VoidPointer8Type],
       cs_args = [AsIs 0], cs_rest = None,
       cs_vararg = False, cs_ret = None, cs_result = ReplaceUses, cs_branch = True\<rparr>"

definition transform_strdup_functions :: "ident list \<Rightarrow> edit \<Rightarrow> edit run" where
  "transform_strdup_functions = retarget strdup_spec"

definition strtol_spec :: "call_spec" where
  "strtol_spec =
     \<lparr>cs_target = CARM_STRTOL, cs_params = [VoidPointer8Type, VoidPointer8Type, Int32Type],
       cs_args = [BitTo 0 VoidPointer8Type, BitTo 1 VoidPointer8Type, BitTo 2 Int32Type], cs_rest = None,
       cs_vararg = False, cs_ret = Some Int64Type, cs_result = ReplaceUses, cs_branch = False\<rparr>"

definition transform_strtol_functions :: "ident list \<Rightarrow> edit \<Rightarrow> edit run" where
  "transform_strtol_functions = retarget strtol_spec"

definition strtoul_spec :: "call_spec" where
  "strtoul_spec =
     \<lparr>cs_target = CARM_STRTOUL, cs_params = [VoidPointer8Type, VoidPointer8Type, Int32Type],
       cs_args = [BitTo 0 VoidPointer8Type, BitTo 1 VoidPointer8Type, BitTo 2 Int32Type], cs_rest = None,
       cs_vararg = False, cs_ret = Some Int64Type, cs_result = ReplaceUses, cs_branch = False\<rparr>"

definition transform_strtoul_functions :: "ident list \<Rightarrow> edit \<Rightarrow> edit run" where
  "transform_strtoul_functions = retarget strtoul_spec"

section \<open>The pass\<close>

fun in_order :: "(edit \<Rightarrow> edit run) list \<Rightarrow> edit \<Rightarrow> edit run" where
  "in_order [] e = Done e"
| "in_order (g # gs) e = bindR (g e) (in_order gs)"

definition libc_runOnFunction :: "edit \<Rightarrow> edit run" where
  "libc_runOnFunction e =
     (let c = parse_lib_functions e
      in in_order
          [transform_malloc_functions (c K_malloc),
           transform_local_malloc_functions (c K_local_malloc),
           transform_free_functions (c K_free),
           transform_memcpy_functions (c K_memcpy),
           transform_memchr_functions (c K_memchr),
           transform_wmemchr_functions (c K_wmemchr),
           transform_wmemcpy_functions (c K_wmemcpy),
           transform_memcmp_functions (c K_memcmp),
           transform_wmemcmp_functions (c K_wmemcmp),
           transform_strcmp_functions (c K_strcmp),
           transform_strlen_functions (c K_strlen),
           transform_llvm_memcpy_functions (c K_llvm_memcpy),
           transform_llvm_memove_functions (c K_llvm_memove),
           transform_memset_functions (c K_memset),
           transform_fwrite_functions (c K_fwrite),
           transform_fread_functions (c K_fread),
           transform_read_functions (c K_read),
           transform_fopen_functions (c K_fopen),
           transform_fprintf_functions (c K_fprintf),
           transform_fclose_functions (c K_fclose),
           transform_llvmi_memset_functions (c K_llvmi_memset),
           transform_calloc_functions (c K_calloc),
           transform_realloc_functions (c K_realloc),
           transform_strcpy_functions (c K_strcpy),
           transform_strncpy_functions (c K_strncpy),
           transform_snprintf_functions (c K_snprintf),
           transform_sprintf_functions (c K_sprintf),
           transform_vsnprintf_functions (c K_vsnprintf),
           transform_vsprintf_functions (c K_vsprintf),
           transform_vfprintf_functions (c K_vfprintf),
           transform_sscanf_functions (c K_sscanf),
           transform_strdup_functions (c K_strdup),
           transform_strtol_functions (c K_strtol),
           transform_strtoul_functions (c K_strtoul)] e)"

definition libc_visit :: "edit \<Rightarrow> edit run" where
  "libc_visit e =
     (if skipped (ed_fun e) \<or> contains ''cxx_global_var_init'' (f_name (ed_fun e)) then Done e
      else libc_runOnFunction e)"

definition libc_runOnModule :: "module \<Rightarrow> module run" where
  "libc_runOnModule = run_module libc_visit"

end
