(* ===== verification/Checks_Pass.thy ===== *)
theory Checks_Pass
  imports IR
begin

text \<open>
  \<open>carm_checks/src/CatPass.cpp\<close>: the pass that puts a call of the marker function
  \<open>carm_deref\<close> before every load and store, and then takes those away whose pointer is a
  stack variable. The alias analysis is a parameter: \<open>ma F v w\<close> is
  \<open>isMustAlias(v, w)\<close> in the function. A \<open>std::set\<close> of instructions is kept as a list.
\<close>

section \<open>Parsing\<close>

record parsed =
  p_allocas :: "ident list"
  p_loads :: "ident list"
  p_stores :: "ident list"

definition parse_ldr_str_instructions :: "func \<Rightarrow> parsed" where
  "parse_ldr_str_instructions F =
     \<lparr>p_allocas = insts_where is_alloca F, p_loads = insts_where is_load F,
      p_stores = insts_where is_store F\<rparr>"

section \<open>Inserting the checks\<close>

text \<open>The checks in order, each with the pointer it is for.\<close>

type_synonym check_list = "(ident \<times> val) list"

fun pointer_operand :: "op \<Rightarrow> val option" where
  "pointer_operand (Load t p) = Some p"
| "pointer_operand (Store v p) = Some p"
| "pointer_operand _ = None"

definition insert_check :: "ident \<Rightarrow> check_list \<times> edit \<Rightarrow> (check_list \<times> edit) run" where
  "insert_check i ce =
     (case ce of (cs, e) \<Rightarrow>
        case find_inst e i of
          None \<Rightarrow> Faulted
        | Some x \<Rightarrow>
            (case pointer_operand (i_op x) of
               None \<Rightarrow> Faulted
             | Some p \<Rightarrow>
                 bindR (create_pointercast i p VoidPointer8Type e) (\<lambda>(a, e).
                   bindR (create_function [VoidPointer8Type] CARM_DEREF_DUMMY [a] TVoid i False e)
                     (\<lambda>(v, e). case v of VInst c \<Rightarrow> Done (cs @ [(c, p)], e) | _ \<Rightarrow> Faulted))))"

fun insert_checks :: "ident list \<Rightarrow> check_list \<times> edit \<Rightarrow> (check_list \<times> edit) run" where
  "insert_checks [] ce = Done ce"
| "insert_checks (i # is) ce = bindR (insert_check i ce) (insert_checks is)"

definition transform_loads :: "ident list \<Rightarrow> check_list \<times> edit \<Rightarrow> (check_list \<times> edit) run" where
  "transform_loads = insert_checks"

definition transform_stores :: "ident list \<Rightarrow> check_list \<times> edit \<Rightarrow> (check_list \<times> edit) run" where
  "transform_stores = insert_checks"

section \<open>Stack variables\<close>

type_synonym must_alias = "func \<Rightarrow> val \<Rightarrow> val \<Rightarrow> bool"

definition must_alias :: "must_alias \<Rightarrow> func \<Rightarrow> val \<Rightarrow> val list \<Rightarrow> bool" where
  "must_alias ma F v alloca_list = list_ex (ma F v) alloca_list"

definition must_alias_all :: "must_alias \<Rightarrow> func \<Rightarrow> val list \<Rightarrow> val list \<Rightarrow> bool" where
  "must_alias_all ma F value_list alloca_list = list_all (\<lambda>v. must_alias ma F v alloca_list) value_list"

text \<open>
  \<open>uncast_ungep\<close>: the pointer behind address computations and bit casts, and at a phi the
  first incoming value only. The recursion follows the operands, so it needs no more steps
  than the function has instructions, unless they are cyclic without a phi.
\<close>

fun uncast_ungep :: "nat \<Rightarrow> edit \<Rightarrow> val \<Rightarrow> val list \<Rightarrow> val list \<Rightarrow> (val \<times> val list) run" where
  "uncast_ungep 0 e ptr phiset valueset = OutOfFuel"
| "uncast_ungep (Suc f) e ptr phiset valueset =
     (case ptr of
        VInst i \<Rightarrow>
          (case find_inst e i of
             None \<Rightarrow> Done (ptr, valueset)
           | Some x \<Rightarrow>
               (case i_op x of
                  Gep t p is \<Rightarrow> uncast_ungep f e p phiset valueset
                | Cast c v \<Rightarrow> if c = BitCast then uncast_ungep f e v phiset valueset
                              else Done (ptr, valueset)
                | Phi [] \<Rightarrow> Done (ptr, valueset)
                | Phi ((v, b) # vs) \<Rightarrow>
                    if ptr \<in> set phiset then Done (ptr, valueset)
                    else bindR (uncast_ungep f e v (ptr # phiset) valueset) (\<lambda>(p, valueset).
                           Done (p, List.insert p valueset))
                | _ \<Rightarrow> Done (ptr, valueset)))
      | _ \<Rightarrow> Done (ptr, valueset))"

text \<open>One check in one round: the growing list of stack pointers, and the checks to delete.\<close>

definition visit_check ::
    "nat \<Rightarrow> must_alias \<Rightarrow> edit \<Rightarrow> ident \<times> val \<Rightarrow> val list \<times> ident list \<Rightarrow> (val list \<times> ident list) run"
  where
  "visit_check f ma e c st =
     (case c of (i, ptr) \<Rightarrow> case st of (alloca_list, delete_stack) \<Rightarrow>
        if ptr \<in> set alloca_list then Done (alloca_list, List.insert i delete_stack)
        else if must_alias ma (ed_fun e) ptr alloca_list
        then Done (List.insert ptr alloca_list, List.insert i delete_stack)
        else bindR (uncast_ungep f e ptr [] []) (\<lambda>(bp, valueset).
               if must_alias_all ma (ed_fun e) (List.insert bp valueset) alloca_list
               then Done (List.insert ptr alloca_list, List.insert i delete_stack)
               else Done (alloca_list, delete_stack)))"

fun visit_checks ::
    "nat \<Rightarrow> must_alias \<Rightarrow> edit \<Rightarrow> check_list \<Rightarrow> val list \<times> ident list \<Rightarrow> (val list \<times> ident list) run"
  where
  "visit_checks f ma e [] st = Done st"
| "visit_checks f ma e (c # cs) st = bindR (visit_check f ma e c st) (visit_checks f ma e cs)"

text \<open>Rounds until no further check is found.\<close>

fun stack_rounds ::
    "nat \<Rightarrow> nat \<Rightarrow> must_alias \<Rightarrow> edit \<Rightarrow> check_list \<Rightarrow> val list \<times> ident list \<Rightarrow> (val list \<times> ident list) run"
  where
  "stack_rounds 0 f ma e cs st = OutOfFuel"
| "stack_rounds (Suc r) f ma e cs st =
     bindR (visit_checks f ma e cs st) (\<lambda>st'.
       if length (snd st') = length (snd st) then Done st' else stack_rounds r f ma e cs st')"

definition delete_carm_check_on_stack_variables ::
    "nat \<Rightarrow> must_alias \<Rightarrow> parsed \<Rightarrow> check_list \<times> edit \<Rightarrow> (check_list \<times> edit) run" where
  "delete_carm_check_on_stack_variables f ma ps ce =
     (case ce of (cs, e) \<Rightarrow>
        bindR (stack_rounds (Suc (length cs)) f ma e cs (map VInst (p_allocas ps), []))
          (\<lambda>(alloca_list, delete_stack).
             Done (filter (\<lambda>c. fst c \<notin> set delete_stack) cs, erase_all delete_stack e)))"

section \<open>The pass\<close>

definition checks_runOnFunction :: "nat \<Rightarrow> must_alias \<Rightarrow> edit \<Rightarrow> edit run" where
  "checks_runOnFunction f ma e =
     (if contains ''cxx_global_var_init'' (f_name (ed_fun e)) then Done e
      else let ps = parse_ldr_str_instructions (ed_fun e)
           in bindR (transform_loads (p_loads ps) ([], e)) (\<lambda>ce.
                bindR (transform_stores (p_stores ps) ce) (\<lambda>ce.
                  bindR (delete_carm_check_on_stack_variables f ma ps ce) (\<lambda>(cs, e). Done e))))"

definition checks_runOnModule :: "nat \<Rightarrow> must_alias \<Rightarrow> module \<Rightarrow> module run" where
  "checks_runOnModule f ma = run_module (checks_runOnFunction f ma)"

section \<open>Fuel\<close>

lemma uncast_more [fuel_mono]: "uncast_ungep f e p ph vs \<le> uncast_ungep (Suc f) e p ph vs"
proof (induction f arbitrary: p ph vs)
  case (Suc f)
  show ?case
    by (subst uncast_ungep.simps(2) [of f], subst uncast_ungep.simps(2) [of "Suc f"])
      (auto simp del: uncast_ungep.simps split: val.split option.split op.split list.split intro!: bindR_mono Suc)
qed simp

lemma visit_more [fuel_mono]: "visit_check f ma e c st \<le> visit_check (Suc f) ma e c st"
  "visit_checks f ma e cs st \<le> visit_checks (Suc f) ma e cs st"
proof -
  show v: "visit_check f ma e c st \<le> visit_check (Suc f) ma e c st" for c st
    unfolding visit_check_def by (intro fuel_mono order_refl)
  show "visit_checks f ma e cs st \<le> visit_checks (Suc f) ma e cs st"
    by (induction cs arbitrary: st) (simp_all, intro bindR_mono v)
qed

lemma stack_rounds_more [fuel_mono]: "stack_rounds r f ma e cs st \<le> stack_rounds r (Suc f) ma e cs st"
  by (induction r arbitrary: st) (simp, subst (1 2) stack_rounds.simps, intro fuel_mono order_refl)

lemma checks_more: "checks_runOnFunction f ma e \<le> checks_runOnFunction (Suc f) ma e"
  unfolding checks_runOnFunction_def delete_carm_check_on_stack_variables_def by (intro fuel_mono order_refl)

interpretation fuel_checks: fuelled "\<lambda>f e. checks_runOnFunction f ma e" for ma
  by unfold_locales (rule checks_more)

end
