(* ===== verification/IR_Edit.thy ===== *)
theory IR_Edit
  imports IR
begin

text \<open>
  How the edits act on a function whose blocks are laid out as a list around the block being
  edited: the blocks that lack the instruction at which an edit happens stay as they are.
\<close>

text \<open>Without these, identifiers stay sums of a base and a numeral.\<close>

lemmas keep_sums = One_nat_def add_2_eq_Suc add_2_eq_Suc'

named_theorems edit_simps "edits of a function given by its list of blocks"

definition with_blocks :: "edit \<Rightarrow> block list \<Rightarrow> ident \<Rightarrow> edit" where
  "with_blocks e bs k = e\<lparr>ed_fun := (ed_fun e)\<lparr>f_blocks := bs\<rparr>, ed_next := k\<rparr>"

definition lacks :: "ident \<Rightarrow> inst list \<Rightarrow> bool" where
  "lacks p xs \<longleftrightarrow> (\<forall>x\<in>set xs. i_id x \<noteq> p)"

definition lacks_all :: "ident \<Rightarrow> block list \<Rightarrow> bool" where
  "lacks_all p bs \<longleftrightarrow> (\<forall>b\<in>set bs. lacks p (b_insts b))"

lemma lacks_simps [simp]:
  "lacks p []" "lacks p (x # xs) \<longleftrightarrow> i_id x \<noteq> p \<and> lacks p xs"
  "lacks p (xs @ ys) \<longleftrightarrow> lacks p xs \<and> lacks p ys"
  by (auto simp: lacks_def)

lemma lacks_all_simps [simp]:
  "lacks_all p []" "lacks_all p (b # bs) \<longleftrightarrow> lacks p (b_insts b) \<and> lacks_all p bs"
  "lacks_all p (bs @ cs) \<longleftrightarrow> lacks_all p bs \<and> lacks_all p cs"
  by (auto simp: lacks_all_def)

lemma has_inst_lacks: "has_inst p b \<longleftrightarrow> \<not> lacks p (b_insts b)"
  by (auto simp: has_inst_def lacks_def)

lemma with_blocks_simps [simp]:
  "f_blocks (ed_fun (with_blocks e bs k)) = bs" "ed_next (with_blocks e bs k) = k"
  "ed_decls (with_blocks e bs k) = ed_decls e" "ed_globals (with_blocks e bs k) = ed_globals e"
  "f_args (ed_fun (with_blocks e bs k)) = f_args (ed_fun e)"
  "with_blocks (with_blocks e bs k) bs' k' = with_blocks e bs' k'"
  by (simp_all add: with_blocks_def)

lemma with_blocks_self: "with_blocks e (f_blocks (ed_fun e)) (ed_next e) = e"
  by (simp add: with_blocks_def)

text \<open>Identifiers are unique and below the next one.\<close>

definition numbered :: "edit \<Rightarrow> bool" where
  "numbered e \<longleftrightarrow> distinct (map i_id (insts (ed_fun e))) \<and> (\<forall>x\<in>set (insts (ed_fun e)). i_id x < ed_next e) \<and>
     distinct (map b_id (f_blocks (ed_fun e))) \<and> (\<forall>b\<in>set (f_blocks (ed_fun e)). b_id b < ed_next e)"

lemma distinct_mid:
  assumes "distinct (map i_id (concat (map b_insts (bs @ \<lparr>b_id = h, b_insts = xs @ x # ys\<rparr> # cs))))"
  shows "lacks_all (i_id x) bs" "lacks_all (i_id x) cs" "lacks (i_id x) xs" "lacks (i_id x) ys"
proof -
  obtain A C where AC: "A = concat (map b_insts bs)" "C = concat (map b_insts cs)" by simp
  have lk: "lacks p xs \<longleftrightarrow> p \<notin> i_id ` set xs" for p xs by (auto simp: lacks_def)
  have lka: "lacks_all p bs \<longleftrightarrow> lacks p (concat (map b_insts bs))" for p bs
    by (auto simp: lacks_all_def lacks_def)
  have "distinct (map i_id A @ map i_id xs @ i_id x # map i_id ys @ map i_id C)"
    using assms by (simp add: AC)
  then show "lacks_all (i_id x) bs" "lacks_all (i_id x) cs" "lacks (i_id x) xs" "lacks (i_id x) ys"
    unfolding lka lk AC [symmetric] by auto
qed

section \<open>Reading\<close>

lemma find_append: "find P (xs @ ys) = (case find P xs of None \<Rightarrow> find P ys | Some y \<Rightarrow> Some y)"
  by (induction xs) auto

lemma find_lacks: "lacks p xs \<Longrightarrow> find (\<lambda>x. i_id x = p) (xs @ ys) = find (\<lambda>x. i_id x = p) ys"
  by (induction xs) auto

lemma find_lacks_all:
  "lacks_all p bs \<Longrightarrow> find (\<lambda>x. i_id x = p) (concat (map b_insts bs) @ ys) = find (\<lambda>x. i_id x = p) ys"
  by (induction bs) (simp_all add: find_lacks)

lemma find_inst_blocks [edit_simps]:
  "find_inst (with_blocks e bs k) i = find (\<lambda>x. i_id x = i) (concat (map b_insts bs))"
  by (simp add: find_inst_def insts_def)

lemma type_of_inst [edit_simps]:
  "type_of (with_blocks e bs k) (VInst i) =
     (case find (\<lambda>x. i_id x = i) (concat (map b_insts bs)) of None \<Rightarrow> TVoid | Some x \<Rightarrow> i_ty x)"
  by (simp add: find_inst_blocks)

lemma parent_blocks:
  "lacks_all p bs \<Longrightarrow> \<not> lacks p (b_insts b) \<Longrightarrow> find (has_inst p) (bs @ b # cs) = Some b"
  by (induction bs) (simp_all add: has_inst_lacks)

lemma find_block: "b_id b \<notin> b_id ` set bs \<Longrightarrow> find (\<lambda>x. b_id x = b_id b) (bs @ b # cs) = Some b"
  by (induction bs) auto

section \<open>Inserting\<close>

definition ins_blk :: "ident \<Rightarrow> inst \<Rightarrow> block \<Rightarrow> block" where
  "ins_blk p x b = b\<lparr>b_insts := insert_before_in p x (b_insts b)\<rparr>"

lemma insert_lacks [simp]: "lacks p xs \<Longrightarrow> insert_before_in p x xs = xs"
  by (induction xs) auto

lemma insert_append:
  "lacks p xs \<Longrightarrow> insert_before_in p x (xs @ ys) = xs @ insert_before_in p x ys"
  by (induction xs) auto

lemma insts_insert_before:
  "set (insts (insert_before p x F)) \<subseteq> insert x (set (insts F))"
  "set (insts F) \<subseteq> set (insts (insert_before p x F))"
proof -
  have i: "set (insert_before_in p x ys) \<subseteq> insert x (set ys)" "set ys \<subseteq> set (insert_before_in p x ys)" for ys
    by (induction ys) auto
  show "set (insts (insert_before p x F)) \<subseteq> insert x (set (insts F))"
    using i(1) unfolding insert_before_def insts_def by fastforce
  show "set (insts F) \<subseteq> set (insts (insert_before p x F))"
    using i(2) unfolding insert_before_def insts_def by fastforce
qed

lemma ins_blk_lacks [simp]: "lacks p (b_insts b) \<Longrightarrow> ins_blk p x b = b"
  by (simp add: ins_blk_def)

lemma map_ins_lacks [simp]: "lacks_all p bs \<Longrightarrow> map (ins_blk p x) bs = bs"
  by (induction bs) auto

lemma build_blocks [edit_simps]:
  "build p t o1 (with_blocks e bs k) =
     (VInst k, with_blocks e (map (ins_blk p \<lparr>i_id = k, i_ty = t, i_op = o1\<rparr>) bs) (k + 1))"
  by (simp add: build_def insert_before_def with_blocks_def ins_blk_def [abs_def])

lemma create_bin_blocks [edit_simps]:
  "\<not> is_const v \<Longrightarrow> create_bin p b v w (with_blocks e bs k) =
     (VInst k, with_blocks e
        (map (ins_blk p \<lparr>i_id = k, i_ty = type_of (with_blocks e bs k) v, i_op = Bin b v w\<rparr>) bs) (k + 1))"
  by (simp add: create_bin_def build_blocks)

lemma create_icmp_blocks [edit_simps]:
  "\<not> is_const v \<Longrightarrow> create_icmp p c v w (with_blocks e bs k) =
     (VInst k, with_blocks e
        (map (ins_blk p \<lparr>i_id = k, i_ty = Int1Type, i_op = ICmp c v w\<rparr>) bs) (k + 1))"
  by (simp add: create_icmp_def build_blocks)

lemma create_cast_blocks [edit_simps]:
  "\<not> is_const v \<Longrightarrow> type_of (with_blocks e bs k) v \<noteq> t \<Longrightarrow>
   create_cast p c v t (with_blocks e bs k) =
     (VInst k, with_blocks e (map (ins_blk p \<lparr>i_id = k, i_ty = t, i_op = Cast c v\<rparr>) bs) (k + 1))"
  by (simp add: create_cast_def build_blocks)

section \<open>Splitting\<close>

definition repred :: "ident \<Rightarrow> ident \<Rightarrow> block \<Rightarrow> block" where
  "repred h t b = b\<lparr>b_insts := map (\<lambda>x. x\<lparr>i_op := repred_op h t (i_op x)\<rparr>) (b_insts b)\<rparr>"

lemma lacks_map [simp]: "(\<And>x. i_id (g x) = i_id x) \<Longrightarrow> lacks p (map g xs) = lacks p xs"
  by (induction xs) auto

lemma repred_simps [simp]:
  "b_id (repred h t b) = b_id b" "lacks p (b_insts (repred h t b)) = lacks p (b_insts b)"
  "lacks_all p (map (repred h t) bs) = lacks_all p bs"
  by (simp_all add: repred_def lacks_all_def)

lemma split_at_lacks:
  "lacks p xs \<Longrightarrow> split_at p (xs @ x # ys) = (if i_id x = p then (xs, x # ys) else
     case split_at p ys of (a, b) \<Rightarrow> (xs @ x # a, b))"
  by (induction xs) (auto split: prod.split)

lemma split_blocks_at:
  "lacks_all p bs \<Longrightarrow> lacks p xs \<Longrightarrow> i_id x = p \<Longrightarrow>
   split_blocks p c n (bs @ \<lparr>b_id = h, b_insts = xs @ x # ys\<rparr> # cs) =
     bs @ [\<lparr>b_id = h, b_insts = xs @ [\<lparr>i_id = n + 5, i_ty = TVoid, i_op = CondBr c (n + 1) (n + 2)\<rparr>]\<rparr>,
       \<lparr>b_id = n + 1, b_insts = [\<lparr>i_id = n + 3, i_ty = TVoid, i_op = Br n\<rparr>]\<rparr>,
       \<lparr>b_id = n + 2, b_insts = [\<lparr>i_id = n + 4, i_ty = TVoid, i_op = Br n\<rparr>]\<rparr>,
       \<lparr>b_id = n, b_insts = x # ys\<rparr>] @ cs"
  by (induction bs) (simp_all add: has_inst_lacks split_at_lacks)

lemma split_if_then_else_at:
  assumes "lacks_all p bs" "lacks p xs" "i_id x = p"
  shows "split_if_then_else c p (with_blocks e (bs @ \<lparr>b_id = h, b_insts = xs @ x # ys\<rparr> # cs) n) =
    Done (n + 3, n + 4, with_blocks e
      (map (repred h n) bs @
       [\<lparr>b_id = h, b_insts = map (\<lambda>x. x\<lparr>i_op := repred_op h n (i_op x)\<rparr>) xs @
           [\<lparr>i_id = n + 5, i_ty = TVoid, i_op = CondBr c (n + 1) (n + 2)\<rparr>]\<rparr>,
        \<lparr>b_id = n + 1, b_insts = [\<lparr>i_id = n + 3, i_ty = TVoid, i_op = Br n\<rparr>]\<rparr>,
        \<lparr>b_id = n + 2, b_insts = [\<lparr>i_id = n + 4, i_ty = TVoid, i_op = Br n\<rparr>]\<rparr>,
        \<lparr>b_id = n, b_insts = map (\<lambda>x. x\<lparr>i_op := repred_op h n (i_op x)\<rparr>) (x # ys)\<rparr>] @
       map (repred h n) cs) (n + 6))"
proof -
  let ?r = "\<lambda>x. x\<lparr>i_op := repred_op h n (i_op x)\<rparr>"
  let ?B = "\<lparr>b_id = h, b_insts = xs @ x # ys\<rparr>"
  have "parent p (ed_fun (with_blocks e (bs @ ?B # cs) n)) = Some h"
    using assms by (simp add: parent_def parent_blocks)
  moreover have "f_blocks (map_insts ?r (ed_fun (with_blocks e (bs @ ?B # cs) n))) =
      map (repred h n) bs @ \<lparr>b_id = h, b_insts = map ?r xs @ ?r x # map ?r ys\<rparr> # map (repred h n) cs"
    by (simp add: map_insts_def repred_def [abs_def])
  moreover have "split_blocks p c n
        (map (repred h n) bs @ \<lparr>b_id = h, b_insts = map ?r xs @ ?r x # map ?r ys\<rparr> # map (repred h n) cs) =
      map (repred h n) bs @
       [\<lparr>b_id = h, b_insts = map ?r xs @
           [\<lparr>i_id = n + 5, i_ty = TVoid, i_op = CondBr c (n + 1) (n + 2)\<rparr>]\<rparr>,
        \<lparr>b_id = n + 1, b_insts = [\<lparr>i_id = n + 3, i_ty = TVoid, i_op = Br n\<rparr>]\<rparr>,
        \<lparr>b_id = n + 2, b_insts = [\<lparr>i_id = n + 4, i_ty = TVoid, i_op = Br n\<rparr>]\<rparr>,
        \<lparr>b_id = n, b_insts = ?r x # map ?r ys\<rparr>] @ map (repred h n) cs"
    using assms by (intro split_blocks_at) simp_all
  ultimately show ?thesis
    by (simp add: split_if_then_else_def Let_def) (simp add: with_blocks_def map_insts_def)
qed

section \<open>Replacing uses\<close>

definition subst_blk :: "val \<Rightarrow> val \<Rightarrow> block \<Rightarrow> block" where
  "subst_blk a w b = b\<lparr>b_insts := map (\<lambda>x. x\<lparr>i_op := map_op (subst_val a w) (i_op x)\<rparr>) (b_insts b)\<rparr>"

lemma subst_blk_simps [simp]:
  "b_id (subst_blk a w b) = b_id b" "lacks p (b_insts (subst_blk a w b)) = lacks p (b_insts b)"
  "lacks_all p (map (subst_blk a w) bs) = lacks_all p bs"
  by (simp_all add: subst_blk_def lacks_all_def)

lemma replace_uses_blocks [edit_simps]:
  "type_of (with_blocks e bs k) a = type_of (with_blocks e bs k) w \<Longrightarrow>
   replace_uses a w (with_blocks e bs k) = Done (with_blocks e (map (subst_blk a w) bs) k)"
  by (simp add: replace_uses_def on_fun_def subst_uses_def map_insts_def with_blocks_def
      subst_blk_def [abs_def])

end
