(* ===== verification/Checks_Props.thy ===== *)
theory Checks_Props
  imports Checks_Pass IR_Edit
begin

text \<open>
  What \<open>carm_checks\<close> guarantees: a marker before every load and store; the removal phase takes
  markers away only where the pointer comes from a stack variable, unless a phi mixes stack and
  heap, and ends.
\<close>

section \<open>Inserting one instruction\<close>

text \<open>The instruction right before the one with number \<open>i\<close>.\<close>

fun before :: "ident \<Rightarrow> inst list \<Rightarrow> inst option" where
  "before i (x # y # xs) = (if i_id y = i then Some x else before i (y # xs))"
| "before i xs = None"

lemma set_insert_before: "\<not> lacks p ys \<Longrightarrow> set (insert_before_in p x ys) = insert x (set ys)"
  by (induction ys) auto

lemma insert_before_ids:
  "\<not> lacks p ys \<Longrightarrow> map i_id (insert_before_in p x ys) = (case split_at p ys of (a, b) \<Rightarrow> map i_id a @ i_id x # map i_id b)"
  by (induction ys) (auto split: prod.split)

lemma insert_before_hd: "insert_before_in p x ys = a # l \<Longrightarrow> i_id x \<noteq> p \<Longrightarrow> i_id a \<noteq> p"
  by (cases ys) (auto split: if_splits)

lemma before_insert: "\<not> lacks p ys \<Longrightarrow> i_id x \<noteq> p \<Longrightarrow> before p (insert_before_in p x ys) = Some x"
proof (induction ys)
  case (Cons y ys)
  show ?case
  proof (cases "i_id y = p")
    case False
    with Cons have IH: "before p (insert_before_in p x ys) = Some x" by simp
    then show ?thesis using False insert_before_hd [OF _ Cons.prems(2), of ys]
      by (cases "insert_before_in p x ys") auto
  qed simp
qed simp

lemma before_insert_other:
  "j \<noteq> p \<Longrightarrow> j \<noteq> i_id x \<Longrightarrow> before j (insert_before_in p x ys) = before j ys"
proof (induction j ys rule: before.induct)
  case (1 i y z zs)
  then show ?case by (cases "i_id y = p"; cases "i_id z = p") auto
qed auto

lemma filter_insert: "\<not> i_id x < n \<Longrightarrow> filter (\<lambda>x. i_id x < n) (insert_before_in p x ys) = filter (\<lambda>x. i_id x < n) ys"
  by (induction ys) auto


text \<open>The same for a function given by its blocks.\<close>

definition old_part :: "ident \<Rightarrow> block list \<Rightarrow> inst list list" where
  "old_part n bs = map (\<lambda>b. filter (\<lambda>x. i_id x < n) (b_insts b)) bs"

lemma old_part_ins: "\<not> i_id x < n \<Longrightarrow> old_part n (map (ins_blk p x) bs) = old_part n bs"
  by (simp add: old_part_def ins_blk_def filter_insert)

definition is_before :: "inst \<Rightarrow> ident \<Rightarrow> block list \<Rightarrow> bool" where
  "is_before ck i bs \<longleftrightarrow> (\<exists>b\<in>set bs. before i (b_insts b) = Some ck)"

lemma is_before_ins: "\<exists>b\<in>set bs. \<not> lacks p (b_insts b) \<Longrightarrow> i_id x \<noteq> p \<Longrightarrow> is_before x p (map (ins_blk p x) bs)"
  by (auto simp: is_before_def ins_blk_def intro!: bexI before_insert)

lemma is_before_other:
  "is_before ck j bs \<Longrightarrow> j \<noteq> p \<Longrightarrow> j \<noteq> i_id x \<Longrightarrow> is_before ck j (map (ins_blk p x) bs)"
  by (auto simp: is_before_def ins_blk_def before_insert_other)

lemma ins_blk_set: "set (b_insts b) \<subseteq> set (b_insts (ins_blk p x b))"
  by (cases "lacks p (b_insts b)") (auto simp: ins_blk_def set_insert_before)

lemma insts_ins: "set (concat (map b_insts bs)) \<subseteq> set (concat (map b_insts (map (ins_blk p x) bs)))"
  using ins_blk_set by fastforce

lemma find_insert: "j \<noteq> i_id x \<Longrightarrow> find (\<lambda>y. i_id y = j) (insert_before_in p x ys) = find (\<lambda>y. i_id y = j) ys"
  by (induction ys) auto

lemma insts_ins_eq:
  assumes "\<exists>b\<in>set bs. \<not> lacks p (b_insts b)"
  shows "set (concat (map b_insts (map (ins_blk p x) bs))) = insert x (set (concat (map b_insts bs)))"
proof -
  have 1: "set (b_insts (ins_blk p x b)) \<subseteq> insert x (set (b_insts b))" for b
    by (cases "lacks p (b_insts b)") (auto simp: ins_blk_def set_insert_before)
  have 2: "x \<in> set (concat (map b_insts (map (ins_blk p x) bs)))"
  proof -
    obtain b where "b \<in> set bs" "\<not> lacks p (b_insts b)" using assms by blast
    moreover from this(2) have "x \<in> set (b_insts (ins_blk p x b))" by (simp add: ins_blk_def set_insert_before)
    ultimately show ?thesis unfolding set_concat set_map by blast
  qed
  show ?thesis
  proof (rule equalityI; rule subsetI)
    fix y assume "y \<in> set (concat (map b_insts (map (ins_blk p x) bs)))"
    then obtain b where "b \<in> set bs" "y \<in> set (b_insts (ins_blk p x b))" by auto
    with 1 [of b] show "y \<in> insert x (set (concat (map b_insts bs)))" by auto
  next
    fix y assume "y \<in> insert x (set (concat (map b_insts bs)))"
    with 2 insts_ins [of bs p x] show "y \<in> set (concat (map b_insts (map (ins_blk p x) bs)))"
      by (metis insertE subsetD)
  qed
qed

lemma find_unique: "x \<in> set xs \<Longrightarrow> (\<And>y. y \<in> set xs \<Longrightarrow> i_id y = i_id x \<Longrightarrow> y = x) \<Longrightarrow> find (\<lambda>y. i_id y = i_id x) xs = Some x"
  by (induction xs) auto

lemma find_ins: "j \<noteq> i_id x \<Longrightarrow> find (\<lambda>y. i_id y = j) (concat (map b_insts (map (ins_blk p x) bs))) =
    find (\<lambda>y. i_id y = j) (concat (map b_insts bs))"
proof (induction bs)
  case (Cons b bs)
  from Cons show ?case by (simp add: find_append ins_blk_def find_insert split: option.split)
qed simp

lemma present_ins:
  "\<exists>b\<in>set bs. \<not> lacks q (b_insts b) \<Longrightarrow> \<exists>b\<in>set (map (ins_blk p x) bs). \<not> lacks q (b_insts b)"
  using ins_blk_set by (fastforce simp: lacks_def)


section \<open>One check\<close>

definition marker_decl :: fdecl where
  "marker_decl = \<lparr>fd_name = CARM_DEREF_DUMMY, fd_ret = TVoid, fd_args = [VoidPointer8Type],
                  fd_vararg = False, fd_empty = True\<rparr>"

text \<open>The marker is not declared yet, or as what the pass declares it.\<close>

definition marker_ok :: "edit \<Rightarrow> bool" where
  "marker_ok e \<longleftrightarrow> find_decl (ed_decls e) CARM_DEREF_DUMMY \<in> {None, Some marker_decl}"

text \<open>A pointer the pass can cast; it mentions only instructions below \<open>n\<close>.\<close>

definition fresh :: "edit \<Rightarrow> bool" where
  "fresh e \<longleftrightarrow> (\<forall>x\<in>set (insts (ed_fun e)). i_id x < ed_next e)"

definition castable_pointer :: "ident \<Rightarrow> edit \<Rightarrow> val \<Rightarrow> bool" where
  "castable_pointer n e p \<longleftrightarrow> is_ptr (type_of e p) \<and> (\<forall>i. p = VInst i \<longrightarrow> i < n) \<and> (\<forall>f. p \<noteq> VFun f)"

text \<open>\<open>a\<close> is \<open>p\<close>, or \<open>p\<close> cast to a byte pointer.\<close>

definition casts :: "edit \<Rightarrow> val \<Rightarrow> val \<Rightarrow> bool" where
  "casts e a p \<longleftrightarrow> a = p \<or> a = VCastC BitCast p VoidPointer8Type \<or>
     (\<exists>x\<in>set (insts (ed_fun e)). a = VInst (i_id x) \<and> i_op x = Cast BitCast p)"

text \<open>What an edit that only adds instructions before those of \<open>I\<close> keeps.\<close>

definition extends :: "ident \<Rightarrow> ident set \<Rightarrow> edit \<Rightarrow> edit \<Rightarrow> bool" where
  "extends n I e e' \<longleftrightarrow> old_part n (f_blocks (ed_fun e')) = old_part n (f_blocks (ed_fun e)) \<and>
     ed_next e \<le> ed_next e' \<and> f_args (ed_fun e') = f_args (ed_fun e) \<and>
     (\<forall>j<n. find_inst e' j = find_inst e j) \<and> set (insts (ed_fun e)) \<subseteq> set (insts (ed_fun e')) \<and>
     (\<forall>j<n. \<forall>ck. j \<notin> I \<longrightarrow> is_before ck j (f_blocks (ed_fun e)) \<longrightarrow> is_before ck j (f_blocks (ed_fun e')))"

lemma extends_ins:
  assumes "n \<le> k" "ed_next e \<le> k" "i_id x = k"
  shows "extends n {i} e (with_blocks (e\<lparr>ed_decls := D\<rparr>) (map (ins_blk i x) (f_blocks (ed_fun e))) (k + 1))"
  using assms insts_ins [of "f_blocks (ed_fun e)" i x]
  by (auto simp: extends_def old_part_ins insts_def find_inst_def find_ins is_before_other simp del: map_map)

lemma extends_trans: "extends n I e e' \<Longrightarrow> extends n J e' e'' \<Longrightarrow> extends n (I \<union> J) e e''"
  by (auto simp: extends_def)

lemma extends_type: "extends n I e e' \<Longrightarrow> castable_pointer n e p \<Longrightarrow> type_of e' p = type_of e p"
  by (cases p) (auto simp: extends_def castable_pointer_def)

lemma extends_castable: "extends n I e e' \<Longrightarrow> castable_pointer n e p \<Longrightarrow> castable_pointer n e' p"
  using extends_type [of n I e e' p] by (simp add: castable_pointer_def)

lemma extends_casts: "extends n I e e' \<Longrightarrow> casts e a p \<Longrightarrow> casts e' a p"
  unfolding extends_def casts_def by blast

lemma create_marker:
  assumes m: "marker_ok e" and t: "type_of e a = VoidPointer8Type" and a: "\<forall>f. a \<noteq> VFun f"
  obtains D where "create_function [VoidPointer8Type] CARM_DEREF_DUMMY [a] TVoid i False e =
      Done (VInst (ed_next e), with_blocks (e\<lparr>ed_decls := D\<rparr>)
        (map (ins_blk i \<lparr>i_id = ed_next e, i_ty = TVoid, i_op = Call (VFun CARM_DEREF_DUMMY) [a]\<rparr>)
          (f_blocks (ed_fun e))) (ed_next e + 1))"
    "find_decl D CARM_DEREF_DUMMY = Some marker_decl"
proof -
  obtain D where g: "get_or_insert CARM_DEREF_DUMMY TVoid [VoidPointer8Type] False e = (marker_decl, e\<lparr>ed_decls := D\<rparr>)"
    and D: "find_decl D CARM_DEREF_DUMMY = Some marker_decl"
  proof (cases "find_decl (ed_decls e) CARM_DEREF_DUMMY")
    case None
    then show thesis
      by (intro that [of "ed_decls e @ [marker_decl]"])
        (simp_all add: get_or_insert_def marker_decl_def find_decl_def find_append Let_def)
  next
    case (Some d)
    then have "d = marker_decl" using m by (simp add: marker_ok_def)
    with Some show thesis by (intro that [of "ed_decls e"]) (simp_all add: get_or_insert_def)
  qed
  have "type_of (e\<lparr>ed_decls := D\<rparr>) a = VoidPointer8Type"
    using t a by (cases a) (simp_all add: find_inst_def split: if_splits)
  then have "create_call i marker_decl [a] (e\<lparr>ed_decls := D\<rparr>) = Done (VInst (ed_next e), with_blocks (e\<lparr>ed_decls := D\<rparr>)
        (map (ins_blk i \<lparr>i_id = ed_next e, i_ty = TVoid, i_op = Call (VFun CARM_DEREF_DUMMY) [a]\<rparr>)
          (f_blocks (ed_fun e))) (ed_next e + 1))"
    by (simp add: create_call_def good_call_def marker_decl_def build_def insert_before_def with_blocks_def ins_blk_def [abs_def])
  with g D that show thesis by (auto simp: create_function_def)
qed


text \<open>The cast of the operand, when one is needed.\<close>

lemma cast_step:
  assumes here: "\<exists>b\<in>set (f_blocks (ed_fun e)). \<not> lacks i (b_insts b)" and i: "i < n" "n \<le> ed_next e"
    and pt: "is_ptr (type_of e p)" and nf: "\<forall>f. p \<noteq> VFun f" and m: "marker_ok e" and fresh: "fresh e"
  obtains a e1 where "create_pointercast i p VoidPointer8Type e = Done (a, e1)" "casts e1 a p"
    "type_of e1 a = VoidPointer8Type" "\<forall>f. a \<noteq> VFun f" "extends n {i} e e1" "marker_ok e1" "fresh e1"
    "\<exists>b\<in>set (f_blocks (ed_fun e1)). \<not> lacks i (b_insts b)"
proof (cases "type_of e p = VoidPointer8Type \<or> is_const p")
  case True
  then have "create_pointercast i p VoidPointer8Type e =
      Done (if type_of e p = VoidPointer8Type then p else VCastC BitCast p VoidPointer8Type, e)"
    using pt by (auto simp: create_pointercast_def create_cast_def)
  moreover have "extends n {i} e e" by (simp add: extends_def)
  moreover have "casts e p p" "casts e (VCastC BitCast p VoidPointer8Type) p" by (simp_all add: casts_def)
  ultimately show thesis
    using nf m here fresh by (cases "type_of e p = VoidPointer8Type") (auto intro: that)
next
  case False
  let ?x = "\<lparr>i_id = ed_next e, i_ty = VoidPointer8Type, i_op = Cast BitCast p\<rparr>"
  let ?e1 = "with_blocks e (map (ins_blk i ?x) (f_blocks (ed_fun e))) (ed_next e + 1)"
  have all: "set (insts (ed_fun ?e1)) = insert ?x (set (insts (ed_fun e)))"
    using insts_ins_eq [OF here, of ?x] by (simp add: insts_def)
  have "find_inst ?e1 (ed_next e) = Some ?x"
    using find_unique [of ?x "insts (ed_fun ?e1)"] fresh unfolding find_inst_def all
    by (fastforce simp: fresh_def)
  show thesis
  proof (rule that)
    show "create_pointercast i p VoidPointer8Type e = Done (VInst (ed_next e), ?e1)"
      using False pt by (simp add: create_pointercast_def create_cast_def build_def insert_before_def
          with_blocks_def ins_blk_def [abs_def])
    show "casts ?e1 (VInst (ed_next e)) p" unfolding casts_def all by simp
    show "type_of ?e1 (VInst (ed_next e)) = VoidPointer8Type" using \<open>find_inst ?e1 _ = _\<close> by simp
    show "extends n {i} e ?e1" using extends_ins [of n "ed_next e" e ?x i "ed_decls e"] i by simp
    show "\<exists>b\<in>set (f_blocks (ed_fun ?e1)). \<not> lacks i (b_insts b)" using present_ins [OF here] by simp
    show "fresh ?e1" using fresh unfolding fresh_def all by auto
  qed (use m in \<open>simp_all add: marker_ok_def\<close>)
qed

lemma check_step:
  assumes x: "find_inst e i = Some x" "pointer_operand (i_op x) = Some p" and i: "i < n" "n \<le> ed_next e"
    and p: "castable_pointer n e p" and m: "marker_ok e" and fresh: "fresh e"
  obtains ck a e' where "insert_check i (cs, e) = Done (cs @ [(i_id ck, p)], e')"
    "i_op ck = Call (VFun CARM_DEREF_DUMMY) [a]" "casts e' a p" "is_before ck i (f_blocks (ed_fun e'))"
    "extends n {i} e e'" "marker_ok e'" "fresh e'"
proof -
  have "x \<in> set (insts (ed_fun e))" "i_id x = i"
    using x(1) unfolding find_inst_def find_Some_iff by (metis nth_mem)+
  then have here: "\<exists>b\<in>set (f_blocks (ed_fun e)). \<not> lacks i (b_insts b)"
    by (auto simp: insts_def lacks_def)
  have pt: "is_ptr (type_of e p)" and nf: "\<forall>f. p \<noteq> VFun f" using p by (simp_all add: castable_pointer_def)
  obtain a e1 where cast: "create_pointercast i p VoidPointer8Type e = Done (a, e1)" and a: "casts e1 a p"
      "type_of e1 a = VoidPointer8Type" "\<forall>f. a \<noteq> VFun f" and e1: "extends n {i} e e1" "marker_ok e1" "fresh e1"
      "\<exists>b\<in>set (f_blocks (ed_fun e1)). \<not> lacks i (b_insts b)"
    by (rule cast_step [OF here i pt nf m fresh])
  obtain D where call: "create_function [VoidPointer8Type] CARM_DEREF_DUMMY [a] TVoid i False e1 =
      Done (VInst (ed_next e1), with_blocks (e1\<lparr>ed_decls := D\<rparr>)
        (map (ins_blk i \<lparr>i_id = ed_next e1, i_ty = TVoid, i_op = Call (VFun CARM_DEREF_DUMMY) [a]\<rparr>)
          (f_blocks (ed_fun e1))) (ed_next e1 + 1))"
    and D: "find_decl D CARM_DEREF_DUMMY = Some marker_decl"
    by (rule create_marker [OF e1(2) a(2,3)])
  let ?ck = "\<lparr>i_id = ed_next e1, i_ty = TVoid, i_op = Call (VFun CARM_DEREF_DUMMY) [a]\<rparr>"
  let ?e' = "with_blocks (e1\<lparr>ed_decls := D\<rparr>) (map (ins_blk i ?ck) (f_blocks (ed_fun e1))) (ed_next e1 + 1)"
  have n1: "n \<le> ed_next e1" using i(2) e1(1) by (auto simp: extends_def)
  have all: "set (insts (ed_fun ?e')) = insert ?ck (set (insts (ed_fun e1)))"
    using insts_ins_eq [OF e1(4), of ?ck] by (simp add: insts_def)
  have ex: "extends n {i} e1 ?e'" using extends_ins [OF n1 order_refl, of ?ck i D] by simp
  show thesis
  proof (rule that)
    show "insert_check i (cs, e) = Done (cs @ [(i_id ?ck, p)], ?e')"
      by (simp add: insert_check_def x cast call)
    show "casts ?e' a p" by (rule extends_casts [OF ex a(1)])
    show "is_before ?ck i (f_blocks (ed_fun ?e'))" using is_before_ins [OF e1(4), of ?ck] i n1 by simp
    show "extends n {i} e ?e'" using extends_trans [OF e1(1) ex] by simp
    show "marker_ok ?e'" by (simp add: marker_ok_def D)
    show "fresh ?e'" using e1(3) unfolding fresh_def all by auto
  qed simp
qed


section \<open>All checks\<close>

text \<open>Right before the access \<open>i\<close> stands the recorded marker for its pointer.\<close>

definition checked :: "check_list \<Rightarrow> edit \<Rightarrow> ident \<Rightarrow> val \<Rightarrow> bool" where
  "checked cs e i p \<longleftrightarrow> (\<exists>ck a. i_op ck = Call (VFun CARM_DEREF_DUMMY) [a] \<and> casts e a p \<and>
     is_before ck i (f_blocks (ed_fun e)) \<and> (i_id ck, p) \<in> set cs)"

definition access_pointer :: "edit \<Rightarrow> ident \<Rightarrow> val option" where
  "access_pointer e i = (case find_inst e i of None \<Rightarrow> None | Some x \<Rightarrow> pointer_operand (i_op x))"

lemma extends_checked:
  "extends n I e e' \<Longrightarrow> i < n \<Longrightarrow> i \<notin> I \<Longrightarrow> set cs \<subseteq> set cs' \<Longrightarrow> checked cs e i p \<Longrightarrow> checked cs' e' i p"
  unfolding checked_def using extends_casts [of n I e e'] by (fastforce simp: extends_def)

lemma extends_access: "extends n I e e' \<Longrightarrow> i < n \<Longrightarrow> access_pointer e' i = access_pointer e i"
  by (simp add: extends_def access_pointer_def)

lemma check_loop:
  assumes "\<forall>i\<in>set is. i < n \<and> (\<exists>p. access_pointer e i = Some p \<and> castable_pointer n e p)"
    and "distinct is" "n \<le> ed_next e" "marker_ok e" "fresh e"
  shows "\<exists>cs' e'. insert_checks is (cs, e) = Done (cs', e') \<and> set cs \<subseteq> set cs' \<and> length cs' = length cs + length is \<and>
    extends n (set is) e e' \<and> marker_ok e' \<and> fresh e' \<and> (\<forall>i\<in>set is. \<forall>p. access_pointer e i = Some p \<longrightarrow> checked cs' e' i p)"
  using assms
proof (induction "is" arbitrary: cs e)
  case Nil
  then show ?case by (simp add: extends_def)
next
  case (Cons i js)
  obtain p where i: "i < n" "access_pointer e i = Some p" "castable_pointer n e p" using Cons.prems(1) by auto
  then obtain x where x: "find_inst e i = Some x" "pointer_operand (i_op x) = Some p"
    by (auto simp: access_pointer_def split: option.splits)
  obtain ck a e1 where s: "insert_check i (cs, e) = Done (cs @ [(i_id ck, p)], e1)"
    and c: "i_op ck = Call (VFun CARM_DEREF_DUMMY) [a]" "casts e1 a p" "is_before ck i (f_blocks (ed_fun e1))"
    and e1: "extends n {i} e e1" "marker_ok e1" "fresh e1"
    by (rule check_step [OF x i(1) Cons.prems(3) i(3) Cons.prems(4,5)])
  let ?cs1 = "cs @ [(i_id ck, p)]"
  have ok1: "checked ?cs1 e1 i p" using c by (auto simp: checked_def)
  have pre: "\<forall>j\<in>set js. j < n \<and> (\<exists>p. access_pointer e1 j = Some p \<and> castable_pointer n e1 p)"
    using Cons.prems(1) extends_access [OF e1(1)] extends_castable [OF e1(1)] by fastforce
  have n1: "n \<le> ed_next e1" using Cons.prems(3) e1(1) by (auto simp: extends_def)
  obtain cs' e' where r: "insert_checks js (?cs1, e1) = Done (cs', e')" "set ?cs1 \<subseteq> set cs'"
      "length cs' = length ?cs1 + length js" "extends n (set js) e1 e'" "marker_ok e'" "fresh e'"
      "\<forall>j\<in>set js. \<forall>p. access_pointer e1 j = Some p \<longrightarrow> checked cs' e' j p"
    using Cons.IH [OF pre _ n1 e1(2,3)] Cons.prems(2) by (metis distinct.simps(2))
  have "checked cs' e' i p" using extends_checked [OF r(4) i(1) _ r(2) ok1] Cons.prems(2) by simp
  moreover have "checked cs' e' j q" if "j \<in> set js" "access_pointer e j = Some q" for j q
    using r(7) that extends_access [OF e1(1)] Cons.prems(1) by simp
  moreover have "extends n (set (i # js)) e e'" using extends_trans [OF e1(1) r(4)] by simp
  ultimately show ?case using s r i(2) by (intro exI [of _ cs'] exI [of _ e']) auto
qed


lemma find_own: "numbered e \<Longrightarrow> x \<in> set (insts (ed_fun e)) \<Longrightarrow> find_inst e (i_id x) = Some x"
  unfolding find_inst_def numbered_def by (intro find_unique) (auto dest: inj_onD simp: distinct_map)

text \<open>Every pointer that is read or written through can be cast.\<close>

definition accesses_typed :: "edit \<Rightarrow> bool" where
  "accesses_typed e \<longleftrightarrow> (\<forall>x\<in>set (insts (ed_fun e)). \<forall>p. pointer_operand (i_op x) = Some p \<longrightarrow>
     castable_pointer (ed_next e) e p)"

lemma insts_where_typed:
  assumes "numbered e" "accesses_typed e" "i \<in> set (insts_where is_load (ed_fun e)) \<or> i \<in> set (insts_where is_store (ed_fun e))"
  shows "i < ed_next e \<and> (\<exists>p. access_pointer e i = Some p \<and> castable_pointer (ed_next e) e p)"
proof -
  obtain x where x: "x \<in> set (insts (ed_fun e))" "i = i_id x" "is_load (i_op x) \<or> is_store (i_op x)"
    using assms(3) by (auto simp: insts_where_def)
  then obtain p where p: "pointer_operand (i_op x) = Some p" by (cases "i_op x") auto
  with x assms find_own [OF assms(1) x(1)] show ?thesis
    by (auto simp: access_pointer_def accesses_typed_def numbered_def)
qed

lemma loads_no_stores: "numbered e \<Longrightarrow> set (insts_where is_load (ed_fun e)) \<inter> set (insts_where is_store (ed_fun e)) = {}"
proof (rule ccontr)
  assume n: "numbered e" and "set (insts_where is_load (ed_fun e)) \<inter> set (insts_where is_store (ed_fun e)) \<noteq> {}"
  then obtain x y where "x \<in> set (insts (ed_fun e))" "y \<in> set (insts (ed_fun e))" "i_id x = i_id y"
    "is_load (i_op x)" "is_store (i_op y)" by (auto simp: insts_where_def)
  moreover from this have "x = y" using find_own [OF n] by (metis option.inject)
  ultimately show False by (cases "i_op x") simp_all
qed

lemma count_accesses:
  "length (insts_where is_load F) + length (insts_where is_store F) = length (filter (\<lambda>x. pointer_operand (i_op x) \<noteq> None) (insts F))"
proof -
  have "length (filter (\<lambda>x. is_load (i_op x)) xs) + length (filter (\<lambda>x. is_store (i_op x)) xs) =
      length (filter (\<lambda>x. pointer_operand (i_op x) \<noteq> None) xs)" for xs
  proof (induction xs)
    case (Cons x xs)
    then show ?case by (cases "i_op x") simp_all
  qed simp
  then show ?thesis by (simp add: insts_where_def)
qed

lemma access_cases_id:
  assumes "x \<in> set (insts F)" "pointer_operand (i_op x) \<noteq> None"
  shows "i_id x \<in> set (insts_where is_load F) \<or> i_id x \<in> set (insts_where is_store F)"
  using assms by (cases "i_op x") (auto simp: insts_where_def)

text \<open>
  C28: the pass inserts its marker right before every load and store, with the pointer of the
  access, and changes nothing else: without the new instructions the blocks are the old ones.
\<close>

theorem checks_before_accesses:
  assumes "numbered e" "marker_ok e" "accesses_typed e"
  shows "\<exists>cs e'. bindR (transform_loads (p_loads (parse_ldr_str_instructions (ed_fun e))) ([], e))
      (transform_stores (p_stores (parse_ldr_str_instructions (ed_fun e)))) = Done (cs, e') \<and>
    old_part (ed_next e) (f_blocks (ed_fun e')) = map b_insts (f_blocks (ed_fun e)) \<and>
    length cs = length (filter (\<lambda>x. pointer_operand (i_op x) \<noteq> None) (insts (ed_fun e))) \<and>
    (\<forall>x\<in>set (insts (ed_fun e)). \<forall>p. pointer_operand (i_op x) = Some p \<longrightarrow> checked cs e' (i_id x) p)"
proof -
  let ?n = "ed_next e" and ?L = "insts_where is_load (ed_fun e)" and ?S = "insts_where is_store (ed_fun e)"
  have fr: "fresh e" using assms(1) by (simp add: fresh_def numbered_def)
  have dist: "distinct ?L" "distinct ?S"
    using assms(1) by (simp_all add: numbered_def insts_where_def distinct_map_filter)
  note dist3 = loads_no_stores [OF assms(1)]
  note typed = insts_where_typed [OF assms(1,3)]
  have preL: "\<forall>i\<in>set ?L. i < ?n \<and> (\<exists>p. access_pointer e i = Some p \<and> castable_pointer ?n e p)"
    using typed by blast
  obtain cs1 e1 where 1: "insert_checks ?L ([], e) = Done (cs1, e1)" "length cs1 = length ?L"
      "extends ?n (set ?L) e e1" "marker_ok e1" "fresh e1"
      "\<forall>i\<in>set ?L. \<forall>p. access_pointer e i = Some p \<longrightarrow> checked cs1 e1 i p"
    using check_loop [OF preL dist(1) order_refl assms(2) fr, of "[]"] by auto
  have preS: "\<forall>i\<in>set ?S. i < ?n \<and> (\<exists>p. access_pointer e1 i = Some p \<and> castable_pointer ?n e1 p)"
    using typed extends_access [OF 1(3)] extends_castable [OF 1(3)] by fastforce
  have n1: "?n \<le> ed_next e1" using 1(3) by (simp add: extends_def)
  obtain cs2 e2 where 2: "insert_checks ?S (cs1, e1) = Done (cs2, e2)" "set cs1 \<subseteq> set cs2"
      "length cs2 = length cs1 + length ?S" "extends ?n (set ?S) e1 e2"
      "\<forall>i\<in>set ?S. \<forall>p. access_pointer e1 i = Some p \<longrightarrow> checked cs2 e2 i p"
    using check_loop [OF preS dist(2) n1 1(4,5), of cs1] by auto
  have each: "checked cs2 e2 (i_id x) p" if x: "x \<in> set (insts (ed_fun e))" "pointer_operand (i_op x) = Some p" for x p
  proof -
    have ap: "access_pointer e (i_id x) = Some p" using find_own [OF assms(1) x(1)] x(2) by (simp add: access_pointer_def)
    have lt: "i_id x < ?n" using assms(1) x(1) by (simp add: numbered_def)
    have "i_id x \<in> set ?L \<or> i_id x \<in> set ?S" using access_cases_id [OF x(1)] x(2) by simp
    then show ?thesis
    proof
      assume i: "i_id x \<in> set ?L"
      with 1(6) ap have "checked cs1 e1 (i_id x) p" by blast
      then show ?thesis using extends_checked [OF 2(4) lt _ 2(2)] i dist3 by blast
    next
      assume "i_id x \<in> set ?S"
      with 2(5) ap extends_access [OF 1(3) lt] show ?thesis by simp
    qed
  qed
  have "old_part ?n (f_blocks (ed_fun e2)) = old_part ?n (f_blocks (ed_fun e))"
    using 1(3) 2(4) by (simp add: extends_def)
  also have "\<dots> = map b_insts (f_blocks (ed_fun e))"
    using assms(1) by (auto simp: old_part_def numbered_def insts_def intro!: filter_True)
  finally have old: "old_part ?n (f_blocks (ed_fun e2)) = map b_insts (f_blocks (ed_fun e))" .
  have len: "length cs2 = length (filter (\<lambda>x. pointer_operand (i_op x) \<noteq> None) (insts (ed_fun e)))"
    unfolding count_accesses [symmetric] using 1(2) 2(3) by simp
  show ?thesis
    using 1(1) 2(1) old len each
    by (intro exI [of _ cs2] exI [of _ e2])
      (simp add: transform_loads_def transform_stores_def parse_ldr_str_instructions_def)
qed


definition two_accesses :: edit where
  "two_accesses = \<lparr>ed_decls = [], ed_globals = [],
     ed_fun = \<lparr>f_name = ''f'', f_ret = TVoid, f_args = [TPtr (TInt 32), VoidPointer8Type],
       f_blocks = [\<lparr>b_id = 0, b_insts =
         [\<lparr>i_id = 1, i_ty = TInt 32, i_op = Load (TInt 32) (VArg 0)\<rparr>,
          \<lparr>i_id = 2, i_ty = TVoid, i_op = Store (VInst 1) (VArg 0)\<rparr>,
          \<lparr>i_id = 3, i_ty = TVoid, i_op = Ret None\<rparr>]\<rparr>]\<rparr>,
     ed_next = 4\<rparr>"

theorem checks_before_accesses_witness:
  "\<exists>cs e'. bindR (transform_loads (p_loads (parse_ldr_str_instructions (ed_fun two_accesses))) ([], two_accesses))
      (transform_stores (p_stores (parse_ldr_str_instructions (ed_fun two_accesses)))) = Done (cs, e') \<and>
    old_part (ed_next two_accesses) (f_blocks (ed_fun e')) = map b_insts (f_blocks (ed_fun two_accesses)) \<and>
    length cs = length (filter (\<lambda>x. pointer_operand (i_op x) \<noteq> None) (insts (ed_fun two_accesses))) \<and>
    (\<forall>x\<in>set (insts (ed_fun two_accesses)). \<forall>p. pointer_operand (i_op x) = Some p \<longrightarrow> checked cs e' (i_id x) p)"
  by (rule checks_before_accesses)
    (simp_all add: two_accesses_def numbered_def insts_def marker_ok_def find_decl_def accesses_typed_def castable_pointer_def)

section \<open>The removal phase ends\<close>

text \<open>The operand \<open>uncast_ungep\<close> goes on with, other than at a phi.\<close>

fun source_of :: "op \<Rightarrow> val option" where
  "source_of (Gep t p is) = Some p"
| "source_of (Cast c v) = (if c = BitCast then Some v else None)"
| "source_of o1 = None"

text \<open>Address computations and casts are not cyclic: \<open>rank\<close> falls along them.\<close>

definition ranked :: "(ident \<Rightarrow> nat) \<Rightarrow> nat \<Rightarrow> edit \<Rightarrow> bool" where
  "ranked rank R e \<longleftrightarrow> (\<forall>x\<in>set (insts (ed_fun e)). rank (i_id x) < R \<and>
     (\<forall>j. source_of (i_op x) = Some (VInst j) \<longrightarrow> rank j < rank (i_id x)))"

definition phis :: "edit \<Rightarrow> val set" where
  "phis e = (\<lambda>x. VInst (i_id x)) ` set (filter (\<lambda>x. is_phi (i_op x)) (insts (ed_fun e)))"

lemma find_inst_in: "find_inst e i = Some x \<Longrightarrow> x \<in> set (insts (ed_fun e)) \<and> i_id x = i"
  unfolding find_inst_def find_Some_iff by (metis nth_mem)

definition weight :: "(ident \<Rightarrow> nat) \<Rightarrow> edit \<Rightarrow> val \<Rightarrow> nat" where
  "weight rank e v = (case v of VInst i \<Rightarrow> (if find_inst e i = None then 0 else Suc (rank i)) | _ \<Rightarrow> 0)"

lemma weight_le: "ranked rank R e \<Longrightarrow> weight rank e v \<le> R"
  using find_inst_in by (fastforce simp: weight_def ranked_def split: val.split)

lemma weight_source:
  "ranked rank R e \<Longrightarrow> find_inst e i = Some x \<Longrightarrow> source_of (i_op x) = Some p \<Longrightarrow> weight rank e p < weight rank e (VInst i)"
  using find_inst_in [of e i x] by (auto simp: weight_def ranked_def split: val.split)

lemma uncast_ends:
  assumes "ranked rank R e" "card (phis e - set phiset) * Suc R + weight rank e ptr < f"
  shows "\<exists>r. uncast_ungep f e ptr phiset valueset = Done r"
  using assms(2)
proof (induction f arbitrary: ptr phiset valueset)
  case (Suc f)
  show ?case
  proof (cases "\<exists>i x. ptr = VInst i \<and> find_inst e i = Some x")
    case True
    then obtain i x where x: "ptr = VInst i" "find_inst e i = Some x" by blast
    have down: "\<exists>r. uncast_ungep f e p phiset valueset = Done r" if "source_of (i_op x) = Some p" for p
      using Suc.prems weight_source [OF assms(1) x(2) that] x(1) by (intro Suc.IH) simp
    show ?thesis
    proof (cases "i_op x")
      case (Phi vs)
      show ?thesis
      proof (cases "vs = [] \<or> ptr \<in> set phiset")
        case True
        then show ?thesis by (cases vs) (auto simp: x Phi)
      next
        case False
        then obtain v b ws where vs: "vs = (v, b) # ws" by (cases vs) auto
        have "ptr \<in> phis e - set phiset"
          using False x find_inst_in [OF x(2)] by (force simp: phis_def Phi)
        then have c: "card (phis e - set (ptr # phiset)) < card (phis e - set phiset)"
          by (intro psubset_card_mono) (auto simp: phis_def)
        then have "card (phis e - set (ptr # phiset)) * Suc R + Suc R \<le> card (phis e - set phiset) * Suc R"
          by (metis Suc_leI add.commute mult_Suc mult_le_mono1)
        then have "\<exists>r. uncast_ungep f e v (ptr # phiset) valueset = Done r"
          using Suc.prems weight_le [OF assms(1), of v] by (intro Suc.IH) linarith
        then show ?thesis using False by (auto simp: x Phi vs)
      qed
    next
      case (Gep t p "is")
      with down show ?thesis by (simp add: x)
    next
      case (Cast c v)
      with down show ?thesis by (cases "c = BitCast") (simp_all add: x)
    qed (simp_all add: x)
  next
    case False
    then show ?thesis by (auto split: val.split option.split)
  qed
qed simp


text \<open>What one check, and a run over all checks, does to the set of checks to delete.\<close>

definition grows :: "ident set \<Rightarrow> val list \<times> ident list \<Rightarrow> val list \<times> ident list \<Rightarrow> bool" where
  "grows I st st' \<longleftrightarrow> (distinct (snd st) \<longrightarrow> distinct (snd st')) \<and> set (snd st) \<subseteq> set (snd st') \<and>
     set (snd st') \<subseteq> set (snd st) \<union> I \<and>
     length (snd st) \<le> length (snd st')"

lemma grows_refl: "grows I st st"
  by (simp add: grows_def)

lemma grows_trans: "grows I st st' \<Longrightarrow> grows J st' st'' \<Longrightarrow> grows (I \<union> J) st st''"
  unfolding grows_def by auto

lemma length_insert: "length (List.insert x xs) = (if x \<in> set xs then length xs else Suc (length xs))"
  by (simp add: List.insert_def)

lemma visit_check_ends:
  assumes "\<exists>r. uncast_ungep f e (snd c) [] [] = Done r"
  shows "\<exists>st'. visit_check f ma e c st = Done st' \<and> grows {fst c} st st'"
  using assms by (auto simp: visit_check_def grows_def length_insert split: prod.split)

lemma visit_checks_ends:
  assumes "\<forall>c\<in>set cs. \<exists>r. uncast_ungep f e (snd c) [] [] = Done r"
  shows "\<exists>st'. visit_checks f ma e cs st = Done st' \<and> grows (fst ` set cs) st st'"
  using assms
proof (induction cs arbitrary: st)
  case Nil
  then show ?case by (simp add: grows_refl)
next
  case (Cons c cs)
  obtain st1 where 1: "visit_check f ma e c st = Done st1" "grows {fst c} st st1"
    using visit_check_ends [of f e c ma st] Cons.prems by auto
  obtain st2 where 2: "visit_checks f ma e cs st1 = Done st2" "grows (fst ` set cs) st1 st2"
    using Cons.IH [of st1] Cons.prems by auto
  with 1 grows_trans [OF 1(2) 2(2)] show ?case by simp
qed

lemma stack_rounds_ends:
  assumes "\<forall>c\<in>set cs. \<exists>r. uncast_ungep f e (snd c) [] [] = Done r"
    and "distinct (snd st)" "set (snd st) \<subseteq> fst ` set cs" "length cs < r + length (snd st)"
  shows "\<exists>st'. stack_rounds r f ma e cs st = Done st' \<and> set (snd st') \<subseteq> fst ` set cs"
  using assms(2-)
proof (induction r arbitrary: st)
  case 0
  have "length (snd st) = card (set (snd st))" using 0(1) by (simp add: distinct_card)
  also have "\<dots> \<le> card (fst ` set cs)" by (rule card_mono [OF _ 0(2)]) simp
  also have "\<dots> \<le> card (set cs)" by (rule card_image_le) simp
  also have "\<dots> \<le> length cs" by (rule card_length)
  finally show ?case using 0(3) by simp
next
  case (Suc r)
  obtain st1 where 1: "visit_checks f ma e cs st = Done st1" "grows (fst ` set cs) st st1"
    using visit_checks_ends [OF assms(1)] by blast
  show ?case
  proof (cases "length (snd st1) = length (snd st)")
    case True
    with 1 Suc.prems(2) show ?thesis by (auto simp: grows_def)
  next
    case False
    have "\<exists>st'. stack_rounds r f ma e cs st1 = Done st' \<and> set (snd st') \<subseteq> fst ` set cs"
      using 1(2) Suc.prems False by (intro Suc.IH) (auto simp: grows_def)
    then show ?thesis using False 1(1) by simp
  qed
qed

lemma removal_returns:
  assumes "ranked rank R e" "(card (phis e) + 1) * Suc R \<le> f"
  obtains st where "stack_rounds (Suc (length cs)) f ma e cs (map VInst (p_allocas ps), []) = Done st"
proof -
  have "\<exists>r. uncast_ungep f e p [] [] = Done r" for p
    using assms(2) weight_le [OF assms(1), of p] by (intro uncast_ends [OF assms(1)]) simp
  then show thesis
    using that stack_rounds_ends [of cs f e "(map VInst (p_allocas ps), [])" "Suc (length cs)" ma] by auto
qed

text \<open>
  C30: the removal phase returns, for acyclic address computations and enough fuel for
  following them; the rounds end on their own because each but the last finds another check.
\<close>

theorem stack_removal_ends:
  assumes "ranked rank R e" "(card (phis e) + 1) * Suc R \<le> f"
  shows "\<exists>cs' e'. delete_carm_check_on_stack_variables f ma ps (cs, e) = Done (cs', e') \<and> set cs' \<subseteq> set cs"
proof -
  obtain st where "stack_rounds (Suc (length cs)) f ma e cs (map VInst (p_allocas ps), []) = Done st"
    by (rule removal_returns [OF assms])
  then show ?thesis by (auto simp: delete_carm_check_on_stack_variables_def split: prod.split)
qed


section \<open>What the removal phase takes away\<close>

text \<open>
  A set of pointers, of which \<open>S\<close> says that they point to the stack, that contains what the
  pass takes for stack pointers. The last conjunct is what the pass assumes of phis.
\<close>

definition stack_closed :: "must_alias \<Rightarrow> edit \<Rightarrow> ident list \<Rightarrow> (val \<Rightarrow> bool) \<Rightarrow> bool" where
  "stack_closed ma e as S \<longleftrightarrow> (\<forall>a\<in>set as. S (VInst a)) \<and> (\<forall>v w. ma (ed_fun e) v w \<longrightarrow> S w \<longrightarrow> S v) \<and>
     (\<forall>x\<in>set (insts (ed_fun e)). \<forall>p. source_of (i_op x) = Some p \<longrightarrow> S p \<longrightarrow> S (VInst (i_id x))) \<and>
     (\<forall>x\<in>set (insts (ed_fun e)). \<forall>v b vs. i_op x = Phi ((v, b) # vs) \<longrightarrow> S v \<longrightarrow> S (VInst (i_id x)))"

lemma uncast_sound:
  assumes "stack_closed ma e as S"
  shows "uncast_ungep f e ptr phiset vs = Done (bp, vs') \<Longrightarrow> S bp \<Longrightarrow> S ptr"
proof (induction f arbitrary: ptr phiset vs bp vs')
  case (Suc f)
  show ?case
  proof (cases "\<exists>i x. ptr = VInst i \<and> find_inst e i = Some x")
    case True
    then obtain i x where x: "ptr = VInst i" "find_inst e i = Some x" by blast
    note xin = find_inst_in [OF x(2)]
    have up: "S ptr" if "source_of (i_op x) = Some p" "S p" for p
      using assms xin that x(1) by (auto simp: stack_closed_def)
    show ?thesis
    proof (cases "i_op x")
      case (Phi ws)
      show ?thesis
      proof (cases "ws = [] \<or> ptr \<in> set phiset")
        case True
        then show ?thesis using Suc.prems by (cases ws) (auto simp: x Phi)
      next
        case False
        then obtain v b us where ws: "ws = (v, b) # us" by (cases ws) auto
        then obtain vs1 where "uncast_ungep f e v (ptr # phiset) vs = Done (bp, vs1)"
          using Suc.prems(1) False by (auto simp: x Phi ws bindR_Done_iff)
        with Suc.IH Suc.prems(2) have "S v" by blast
        then show ?thesis using assms xin x(1) Phi ws by (auto simp: stack_closed_def)
      qed
    next
      case (Gep t p "is")
      then have "uncast_ungep f e p phiset vs = Done (bp, vs')" using Suc.prems(1) by (simp add: x)
      with Suc.IH Suc.prems(2) up Gep show ?thesis by auto
    next
      case (Cast c v)
      show ?thesis
      proof (cases "c = BitCast")
        case True
        then have "uncast_ungep f e v phiset vs = Done (bp, vs')" using Suc.prems(1) Cast by (simp add: x)
        with Suc.IH Suc.prems(2) up Cast True show ?thesis by auto
      qed (use Suc.prems Cast in \<open>simp add: x\<close>)
    qed (use Suc.prems in \<open>simp_all add: x\<close>)
  next
    case False
    with Suc.prems show ?thesis by (auto split: val.splits option.splits)
  qed
qed simp

lemma must_alias_stack:
  "stack_closed ma e as S \<Longrightarrow> \<forall>w\<in>set al. S w \<Longrightarrow> must_alias ma (ed_fun e) v al \<Longrightarrow> S v"
  unfolding must_alias_def stack_closed_def list_ex_iff by blast

text \<open>Every pointer taken for a stack pointer is one, and every check to delete is for one.\<close>

definition only_stack :: "(val \<Rightarrow> bool) \<Rightarrow> check_list \<Rightarrow> val list \<times> ident list \<Rightarrow> bool" where
  "only_stack S cs st \<longleftrightarrow> (\<forall>w\<in>set (fst st). S w) \<and> (\<forall>i\<in>set (snd st). \<exists>p. (i, p) \<in> set cs \<and> S p)"

lemma visit_check_sound:
  assumes "stack_closed ma e as S" "only_stack S cs st" "c \<in> set cs" "visit_check f ma e c st = Done st'"
  shows "only_stack S cs st'"
proof -
  obtain i p al del where c: "c = (i, p)" "st = (al, del)" by (cases c; cases st) auto
  have al: "\<forall>w\<in>set al. S w" using assms(2) by (simp add: only_stack_def c)
  have mark: "only_stack S cs (List.insert p al, List.insert i del)" if "S p"
    using assms(2,3) that by (auto simp: only_stack_def c)
  consider "p \<in> set al" | "p \<notin> set al" "must_alias ma (ed_fun e) p al"
    | "p \<notin> set al" "\<not> must_alias ma (ed_fun e) p al" by blast
  then show ?thesis
  proof cases
    case 1
    with mark al assms(4) show ?thesis by (auto simp: visit_check_def c List.insert_def split: if_splits)
  next
    case 2
    with must_alias_stack [OF assms(1) al 2(2)] mark assms(4) show ?thesis by (simp add: visit_check_def c)
  next
    case 3
    then obtain bp vs where u: "uncast_ungep f e p [] [] = Done (bp, vs)"
      and st': "st' = (if must_alias_all ma (ed_fun e) (List.insert bp vs) al
        then (List.insert p al, List.insert i del) else (al, del))"
      using assms(4) by (auto simp: visit_check_def c bindR_Done_iff split: if_splits)
    show ?thesis
    proof (cases "must_alias_all ma (ed_fun e) (List.insert bp vs) al")
      case True
      then have "S bp" using must_alias_stack [OF assms(1) al] by (simp add: must_alias_all_def list_all_iff)
      with uncast_sound [OF assms(1) u] mark True st' show ?thesis by simp
    next
      case False
      with assms(2) st' show ?thesis by (simp add: c)
    qed
  qed
qed

lemma visit_checks_sound:
  assumes "stack_closed ma e as S"
  shows "only_stack S cs st \<Longrightarrow> set ds \<subseteq> set cs \<Longrightarrow> visit_checks f ma e ds st = Done st' \<Longrightarrow> only_stack S cs st'"
proof (induction ds arbitrary: st)
  case (Cons c ds)
  then obtain st1 where "visit_check f ma e c st = Done st1" "visit_checks f ma e ds st1 = Done st'"
    by (auto simp: bindR_Done_iff)
  moreover from this(1) have "only_stack S cs st1"
    by (rule visit_check_sound [OF assms Cons.prems(1), rotated]) (use Cons.prems(2) in simp)
  ultimately show ?case using Cons.IH Cons.prems(2) by simp
qed simp

lemma stack_rounds_sound:
  assumes "stack_closed ma e as S"
  shows "only_stack S cs st \<Longrightarrow> stack_rounds r f ma e cs st = Done st' \<Longrightarrow> only_stack S cs st'"
proof (induction r arbitrary: st)
  case (Suc r)
  then obtain st1 where st1: "visit_checks f ma e cs st = Done st1"
      "(if length (snd st1) = length (snd st) then Done st1 else stack_rounds r f ma e cs st1) = Done st'"
    by (auto simp: bindR_Done_iff)
  from visit_checks_sound [OF assms Suc.prems(1) order_refl st1(1)] Suc.IH st1(2) show ?case
    by (auto split: if_splits)
qed simp

lemma insts_erase_all: "set (insts (ed_fun (erase_all is e))) = {x \<in> set (insts (ed_fun e)). i_id x \<notin> set is}"
proof (induction "is" arbitrary: e)
  case (Cons i js)
  have "set (insts (ed_fun (erase i e))) = {x \<in> set (insts (ed_fun e)). i_id x \<noteq> i}"
    by (auto simp: erase_def on_fun_def erase_from_def insts_def)
  with Cons.IH [of "erase i e"] show ?case by (auto simp: erase_all_def)
qed (simp add: erase_all_def)

text \<open>
  C29: the removal phase deletes a marker only if the pointer of its access is a stack pointer,
  under the pass's assumption on phis, and deletes no other instruction.
\<close>

theorem removed_checks_on_stack:
  assumes "stack_closed ma e (p_allocas ps) S" "distinct (map fst cs)"
    and "delete_carm_check_on_stack_variables f ma ps (cs, e) = Done (cs', e')"
  shows "(\<forall>c\<in>set cs. c \<notin> set cs' \<longrightarrow> S (snd c)) \<and>
    (\<forall>x\<in>set (insts (ed_fun e)). x \<notin> set (insts (ed_fun e')) \<longrightarrow> i_id x \<in> fst ` (set cs - set cs'))"
proof -
  obtain al del where st: "stack_rounds (Suc (length cs)) f ma e cs (map VInst (p_allocas ps), []) = Done (al, del)"
    and cs': "cs' = filter (\<lambda>c. fst c \<notin> set del) cs" and e': "e' = erase_all del e"
    using assms(3) by (auto simp: delete_carm_check_on_stack_variables_def bindR_Done_iff)
  have "only_stack S cs (map VInst (p_allocas ps), [])"
    using assms(1) by (simp add: only_stack_def stack_closed_def)
  from stack_rounds_sound [OF assms(1) this st] have del: "\<forall>i\<in>set del. \<exists>p. (i, p) \<in> set cs \<and> S p"
    by (simp add: only_stack_def)
  have "S (snd c)" if "c \<in> set cs" "c \<notin> set cs'" for c
  proof -
    from that have "fst c \<in> set del" by (simp add: cs')
    with del obtain p where "(fst c, p) \<in> set cs" "S p" by blast
    moreover from this(1) that(1) assms(2) have "snd c = p"
      by (metis eq_key_imp_eq_value prod.collapse)
    ultimately show ?thesis by simp
  qed
  moreover have "i_id x \<in> fst ` (set cs - set cs')"
    if x: "x \<in> set (insts (ed_fun e))" "x \<notin> set (insts (ed_fun e'))" for x
  proof -
    from x have "i_id x \<in> set del" by (simp add: e' insts_erase_all)
    with del obtain p where "(i_id x, p) \<in> set cs" by blast
    with \<open>i_id x \<in> set del\<close> have "(i_id x, p) \<in> set cs - set cs'" by (simp add: cs')
    then show ?thesis by (metis fst_conv imageI)
  qed
  ultimately show ?thesis by blast
qed


section \<open>A phi of a stack and a heap pointer\<close>

text \<open>From a pointer through address computations and casts to another.\<close>

inductive leads_to :: "edit \<Rightarrow> val \<Rightarrow> val \<Rightarrow> bool" for e where
  arrived: "leads_to e v v"
| onward: "find_inst e i = Some x \<Longrightarrow> source_of (i_op x) = Some p \<Longrightarrow> leads_to e p w \<Longrightarrow> leads_to e (VInst i) w"

lemma uncast_leads:
  assumes "leads_to e v w" "uncast_ungep f e v ph vs = Done r"
  shows "\<exists>g. uncast_ungep g e w ph vs = Done r"
  using assms
proof (induction arbitrary: f)
  case (onward i x p w)
  then obtain g where f: "f = Suc g" by (cases f) auto
  from onward have "uncast_ungep g e p ph vs = Done r" by (cases "i_op x") (auto simp: f split: if_splits)
  then show ?case by (rule onward.IH)
qed blast

text \<open>Only the first incoming value of the phi counts.\<close>

lemma uncast_mixed:
  assumes q: "leads_to e q (VInst i)" "find_inst e i = Some x" "i_op x = Phi ((v, b) # others)"
    and v: "leads_to e v (VInst a)" "find_inst e a = Some y" "is_alloca (i_op y)"
    and run: "uncast_ungep f e q [] [] = Done r"
  shows "r = (VInst a, [VInst a])"
proof -
  obtain g where "uncast_ungep g e (VInst i) [] [] = Done r" using uncast_leads [OF q(1) run] by blast
  then obtain h p vs where h: "uncast_ungep h e v [VInst i] [] = Done (p, vs)" "r = (p, List.insert p vs)"
    using q(2,3) by (cases g) (auto simp: bindR_Done_iff)
  obtain k where "uncast_ungep k e (VInst a) [VInst i] [] = Done (p, vs)" using uncast_leads [OF v(1) h(1)] by blast
  then have "(p, vs) = (VInst a, [])" using v(2,3) by (cases k; cases "i_op y") auto
  with h(2) show ?thesis by simp
qed

lemma visit_mixed:
  assumes u: "\<And>r. uncast_ungep f e q [] [] = Done r \<Longrightarrow> r = (w, [w])" and refl: "ma (ed_fun e) w w"
    and w: "w \<in> set (fst st)" and run: "visit_check f ma e (c, q) st = Done st'"
  shows "c \<in> set (snd st')"
proof -
  obtain al del where st: "st = (al, del)" by (cases st)
  have "must_alias_all ma (ed_fun e) [w] al"
    using w refl by (auto simp: must_alias_all_def must_alias_def list_ex_iff st)
  then show ?thesis using run u by (auto simp: visit_check_def st bindR_Done_iff split: if_splits)
qed

lemma visit_keeps:
  "visit_check f ma e c st = Done st' \<Longrightarrow> set (fst st) \<subseteq> set (fst st') \<and> set (snd st) \<subseteq> set (snd st')"
  by (cases c; cases st) (auto simp: visit_check_def bindR_Done_iff split: if_splits)

lemma visits_mixed:
  assumes u: "\<And>r. uncast_ungep f e q [] [] = Done r \<Longrightarrow> r = (w, [w])" and refl: "ma (ed_fun e) w w"
  shows "w \<in> set (fst st) \<Longrightarrow> visit_checks f ma e cs st = Done st' \<Longrightarrow>
    w \<in> set (fst st') \<and> set (snd st) \<subseteq> set (snd st') \<and> ((c, q) \<in> set cs \<longrightarrow> c \<in> set (snd st'))"
proof (induction cs arbitrary: st)
  case (Cons d ds)
  then obtain st1 where st1: "visit_check f ma e d st = Done st1" "visit_checks f ma e ds st1 = Done st'"
    by (auto simp: bindR_Done_iff)
  note keep = visit_keeps [OF st1(1)]
  from Cons.IH [OF _ st1(2)] Cons.prems(1) keep
  have rest: "w \<in> set (fst st')" "set (snd st1) \<subseteq> set (snd st')" "(c, q) \<in> set ds \<longrightarrow> c \<in> set (snd st')" by auto
  moreover have "c \<in> set (snd st1)" if "d = (c, q)"
    using visit_mixed [where ma = ma, OF u refl Cons.prems(1)] st1(1) that by simp
  ultimately show ?case using keep by auto
qed simp

lemma rounds_mixed:
  assumes u: "\<And>r. uncast_ungep f e q [] [] = Done r \<Longrightarrow> r = (w, [w])" and refl: "ma (ed_fun e) w w" and c: "(c, q) \<in> set cs"
  shows "w \<in> set (fst st) \<Longrightarrow> stack_rounds r f ma e cs st = Done st' \<Longrightarrow> c \<in> set (snd st')"
proof (induction r arbitrary: st)
  case (Suc r)
  then obtain st1 where st1: "visit_checks f ma e cs st = Done st1"
      "(if length (snd st1) = length (snd st) then Done st1 else stack_rounds r f ma e cs st1) = Done st'"
    by (auto simp: bindR_Done_iff)
  from visits_mixed [where ma = ma, OF u refl Suc.prems(1) st1(1)] c have "w \<in> set (fst st1)" "c \<in> set (snd st1)" by auto
  with Suc.IH st1(2) show ?case by (auto split: if_splits)
qed simp

text \<open>
  C31: a check on a pointer that comes, through address computations and casts, from a phi whose
  first incoming value comes from a stack variable is removed, marker and all, whatever the other
  incoming values are: a pointer into the heap among them is then accessed without a check.
\<close>

theorem mixed_phi_unchecked:
  assumes "leads_to e q (VInst i)" "find_inst e i = Some x" "i_op x = Phi ((v, b) # others)"
    and "leads_to e v (VInst a)" "find_inst e a = Some y" "is_alloca (i_op y)"
    and "ma (ed_fun e) (VInst a) (VInst a)" "(c, q) \<in> set cs"
    and "ranked rank R e" "(card (phis e) + 1) * Suc R \<le> f"
  shows "\<exists>cs' e'. delete_carm_check_on_stack_variables f ma (parse_ldr_str_instructions (ed_fun e)) (cs, e) =
      Done (cs', e') \<and> c \<notin> fst ` set cs' \<and> c \<notin> i_id ` set (insts (ed_fun e'))"
proof -
  let ?ps = "parse_ldr_str_instructions (ed_fun e)"
  obtain st where st: "stack_rounds (Suc (length cs)) f ma e cs (map VInst (p_allocas ?ps), []) = Done st"
    by (rule removal_returns [OF assms(9,10)])
  have "VInst a \<in> set (map VInst (p_allocas ?ps))"
    using find_inst_in [OF assms(5)] assms(6) by (auto simp: parse_ldr_str_instructions_def insts_where_def)
  then have "c \<in> set (snd st)"
    using rounds_mixed [where ma = ma, OF uncast_mixed [OF assms(1-6)] assms(7,8) _ st] by simp
  with st show ?thesis
    by (auto simp: delete_carm_check_on_stack_variables_def insts_erase_all split: prod.split)
qed

text \<open>A byte is stored through a phi of the addresses of a stack variable and of a heap block; the marker has number 9.\<close>

definition mixed_phi :: "(val \<times> ident) list \<Rightarrow> edit" where
  "mixed_phi incoming = \<lparr>ed_decls = [], ed_globals = [],
     ed_fun = \<lparr>f_name = ''f'', f_ret = TVoid, f_args = [TInt 1],
       f_blocks = [\<lparr>b_id = 10, b_insts =
           [\<lparr>i_id = 1, i_ty = VoidPointer8Type, i_op = Alloca (TInt 8)\<rparr>,
            \<lparr>i_id = 2, i_ty = VoidPointer8Type, i_op = Call (VFun ''malloc'') [VInt (TInt 64) 1]\<rparr>,
            \<lparr>i_id = 3, i_ty = TVoid, i_op = CondBr (VArg 0) 11 12\<rparr>]\<rparr>,
         \<lparr>b_id = 11, b_insts = [\<lparr>i_id = 4, i_ty = TVoid, i_op = Br 13\<rparr>]\<rparr>,
         \<lparr>b_id = 12, b_insts = [\<lparr>i_id = 5, i_ty = TVoid, i_op = Br 13\<rparr>]\<rparr>,
         \<lparr>b_id = 13, b_insts =
           [\<lparr>i_id = 6, i_ty = VoidPointer8Type, i_op = Phi incoming\<rparr>,
            \<lparr>i_id = 9, i_ty = TVoid, i_op = Call (VFun CARM_DEREF_DUMMY) [VInst 6]\<rparr>,
            \<lparr>i_id = 7, i_ty = TVoid, i_op = Store (VInt (TInt 8) 0) (VInst 6)\<rparr>,
            \<lparr>i_id = 8, i_ty = TVoid, i_op = Ret None\<rparr>]\<rparr>]\<rparr>,
     ed_next = 14\<rparr>"

theorem mixed_phi_unchecked_witness:
  "\<exists>cs' e'. delete_carm_check_on_stack_variables 9 (\<lambda>F v w. v = w)
      (parse_ldr_str_instructions (ed_fun (mixed_phi [(VInst 1, 11), (VInst 2, 12)])))
      ([(9, VInst 6)], mixed_phi [(VInst 1, 11), (VInst 2, 12)]) = Done (cs', e') \<and>
    9 \<notin> fst ` set cs' \<and> 9 \<notin> i_id ` set (insts (ed_fun e'))"
proof (rule mixed_phi_unchecked [where q = "VInst 6" and i = 6 and v = "VInst 1" and a = 1 and b = 11 and others = "[(VInst 2, 12)]"
      and x = "\<lparr>i_id = 6, i_ty = VoidPointer8Type, i_op = Phi [(VInst 1, 11), (VInst 2, 12)]\<rparr>"
      and y = "\<lparr>i_id = 1, i_ty = VoidPointer8Type, i_op = Alloca (TInt 8)\<rparr>", OF leads_to.arrived _ _ leads_to.arrived])
  show "ranked (\<lambda>_. 0) 1 (mixed_phi [(VInst 1, 11), (VInst 2, 12)])"
    by (simp add: ranked_def mixed_phi_def insts_def)
  show "(card (phis (mixed_phi [(VInst 1, 11), (VInst 2, 12)])) + 1) * Suc 1 \<le> 9"
    by (simp add: phis_def mixed_phi_def insts_def)
qed (simp_all add: mixed_phi_def find_inst_def insts_def)

theorem stack_removal_ends_witness:
  "\<exists>cs' e'. delete_carm_check_on_stack_variables 9 (\<lambda>F v w. v = w)
      (parse_ldr_str_instructions (ed_fun (mixed_phi [(VInst 2, 12), (VInst 1, 11)])))
      ([(9, VInst 6)], mixed_phi [(VInst 2, 12), (VInst 1, 11)]) = Done (cs', e') \<and> set cs' \<subseteq> set [(9, VInst 6)]"
proof (rule stack_removal_ends)
  show "ranked (\<lambda>_. 0) 1 (mixed_phi [(VInst 2, 12), (VInst 1, 11)])"
    by (simp add: ranked_def mixed_phi_def insts_def)
  show "(card (phis (mixed_phi [(VInst 2, 12), (VInst 1, 11)])) + 1) * Suc 1 \<le> 9"
    by (simp add: phis_def mixed_phi_def insts_def)
qed

text \<open>A stack variable is written; its marker has number 9.\<close>

definition stack_store :: edit where
  "stack_store = \<lparr>ed_decls = [], ed_globals = [],
     ed_fun = \<lparr>f_name = ''f'', f_ret = TVoid, f_args = [],
       f_blocks = [\<lparr>b_id = 0, b_insts =
         [\<lparr>i_id = 1, i_ty = VoidPointer8Type, i_op = Alloca (TInt 8)\<rparr>,
          \<lparr>i_id = 9, i_ty = TVoid, i_op = Call (VFun CARM_DEREF_DUMMY) [VInst 1]\<rparr>,
          \<lparr>i_id = 2, i_ty = TVoid, i_op = Store (VInt (TInt 8) 0) (VInst 1)\<rparr>,
          \<lparr>i_id = 3, i_ty = TVoid, i_op = Ret None\<rparr>]\<rparr>]\<rparr>,
     ed_next = 10\<rparr>"

theorem removed_checks_on_stack_witness:
  "delete_carm_check_on_stack_variables 3 (\<lambda>F v w. v = w) (parse_ldr_str_instructions (ed_fun stack_store))
      ([(9, VInst 1)], stack_store) = Done ([], erase_all [9] stack_store) \<and>
   snd (9 :: ident, VInst 1) = VInst 1"
proof -
  have run: "delete_carm_check_on_stack_variables 3 (\<lambda>F v w. v = w) (parse_ldr_str_instructions (ed_fun stack_store))
      ([(9, VInst 1)], stack_store) = Done ([], erase_all [9] stack_store)"
    by code_simp
  have "stack_closed (\<lambda>F v w. v = w) stack_store (p_allocas (parse_ldr_str_instructions (ed_fun stack_store))) (\<lambda>v. v = VInst 1)"
    by (auto simp: stack_closed_def stack_store_def parse_ldr_str_instructions_def insts_where_def insts_def)
  note removed = removed_checks_on_stack [OF this _ run]
  have "snd (9 :: ident, VInst 1) = VInst 1"
    by (rule removed [THEN conjunct1, rule_format]) simp_all
  with run show ?thesis by blast
qed

end
