(* ===== verification/Libc_Props.thy ===== *)
theory Libc_Props
  imports Libc_Transform Checks_Props
begin

text \<open>
  What \<open>carm_libc_transform\<close> guarantees: a call whose operands have the types of the runtime's
  function becomes the call of that function in the same place; no call of a redirected library
  function is left.
\<close>

section \<open>One call\<close>

text \<open>Argument \<open>k\<close> of the runtime's function is operand \<open>k\<close> of the call, of the type it takes.\<close>

fun in_place :: "argconv \<Rightarrow> nat \<Rightarrow> ty \<Rightarrow> bool" where
  "in_place (AsIs j) k t \<longleftrightarrow> j = k"
| "in_place (BitTo j u) k t \<longleftrightarrow> j = k \<and> u = t"
| "in_place (IntTo j u) k t \<longleftrightarrow> j = k \<and> u = t \<and> (case t of TInt n \<Rightarrow> True | _ \<Rightarrow> False)"

fun all_in_place :: "argconv list \<Rightarrow> nat \<Rightarrow> ty list \<Rightarrow> bool" where
  "all_in_place [] k [] \<longleftrightarrow> True"
| "all_in_place (a # as) k (t # ts) \<longleftrightarrow> in_place a k t \<and> all_in_place as (Suc k) ts"
| "all_in_place as k ts \<longleftrightarrow> False"

definition plain_spec :: "call_spec \<Rightarrow> bool" where
  "plain_spec c \<longleftrightarrow> all_in_place (cs_args c) 0 (cs_params c) \<and> \<not> cs_vararg c \<and> cs_rest c = None"

definition plain_specs :: "call_spec list" where
  "plain_specs =
     [malloc_spec, local_malloc_spec, free_spec, memcpy_spec, memchr_spec, wmemchr_spec, wmemcpy_spec,
      memcmp_spec, wmemcmp_spec, strcmp_spec, strlen_spec, llvm_memcpy_spec, llvm_memove_spec, memset_spec,
      fwrite_spec, fread_spec, read_spec, fopen_spec, fclose_spec, llvmi_memset_spec, calloc_spec,
      realloc_spec, strcpy_spec, strncpy_spec, strdup_spec, strtol_spec, strtoul_spec]"

lemmas spec_defs = malloc_spec_def local_malloc_spec_def free_spec_def memcpy_spec_def memchr_spec_def
  wmemchr_spec_def wmemcpy_spec_def memcmp_spec_def wmemcmp_spec_def strcmp_spec_def strlen_spec_def
  llvm_memcpy_spec_def llvm_memove_spec_def memset_spec_def fwrite_spec_def fread_spec_def read_spec_def
  fopen_spec_def fclose_spec_def llvmi_memset_spec_def calloc_spec_def realloc_spec_def strcpy_spec_def
  strncpy_spec_def strdup_spec_def strtol_spec_def strtoul_spec_def

lemma plain_specs_plain: "c \<in> set plain_specs \<Longrightarrow> plain_spec c"
proof -
  have "list_all plain_spec plain_specs"
    by (simp add: plain_specs_def plain_spec_def spec_defs)
  then show "c \<in> set plain_specs \<Longrightarrow> plain_spec c" by (simp add: list_all_iff)
qed

lemma conv_in_place:
  assumes "in_place a k t" "k < length os" "type_of e (os ! k) = t"
  shows "conv_arg p os a e = Done (os ! k, e)"
  using assms by (cases a; cases t) (auto simp: operand_def create_bitcast_def castable_def create_cast_def create_intcast_def)

lemma conv_args_in_place:
  assumes "all_in_place as j ts" "j + length ts \<le> length os" "map (type_of e) (take (length ts) (drop j os)) = ts"
  shows "conv_args p os as e = Done (take (length ts) (drop j os), e)"
  using assms
proof (induction as j ts rule: all_in_place.induct)
  case (2 a as k t ts)
  have d: "drop k os = os ! k # drop (Suc k) os" using 2(3) by (simp add: Cons_nth_drop_Suc)
  have "conv_arg p os a e = Done (os ! k, e)"
    using 2(2-4) by (intro conv_in_place) (simp_all add: d)
  moreover have "conv_args p os as e = Done (take (length ts) (drop (Suc k) os), e)"
    using 2(2-4) by (intro 2(1)) (simp_all add: d)
  ultimately show ?case by (simp add: d)
qed simp_all

text \<open>The runtime's function is not declared yet, or as the pass declares it.\<close>

definition target_ok :: "call_spec \<Rightarrow> ty \<Rightarrow> edit \<Rightarrow> bool" where
  "target_ok c t e \<longleftrightarrow> (case find_decl (ed_decls e) (cs_target c) of
     None \<Rightarrow> True
   | Some d \<Rightarrow> fd_name d = cs_target c \<and> fd_ret d = t \<and> fd_args d = cs_params c \<and> \<not> fd_vararg d)"

definition new_type :: "call_spec \<Rightarrow> inst \<Rightarrow> ty" where
  "new_type c x = (case cs_ret c of None \<Rightarrow> i_ty x | Some t \<Rightarrow> t)"

definition new_call :: "call_spec \<Rightarrow> inst \<Rightarrow> ident \<Rightarrow> inst" where
  "new_call c x n = \<lparr>i_id = n, i_ty = new_type c x,
     i_op = Call (VFun (cs_target c)) (take (length (cs_params c)) (op_operands (i_op x)))\<rparr>"

lemma zip_own_types: "list_all (\<lambda>(t, v). g v = t) (zip (map g vs) vs)"
  by (induction vs) simp_all

lemma create_target:
  assumes ok: "target_ok c t e" and ty: "map (type_of e) as = cs_params c" "\<forall>v\<in>set as. \<forall>f. v \<noteq> VFun f"
  obtains D where "create_function (cs_params c) (cs_target c) as t i False e =
      Done (VInst (ed_next e), with_blocks (e\<lparr>ed_decls := D\<rparr>)
        (map (ins_blk i \<lparr>i_id = ed_next e, i_ty = t, i_op = Call (VFun (cs_target c)) as\<rparr>)
          (f_blocks (ed_fun e))) (ed_next e + 1))"
proof -
  obtain d D where g: "get_or_insert (cs_target c) t (cs_params c) False e = (d, e\<lparr>ed_decls := D\<rparr>)"
    and d: "fd_name d = cs_target c" "fd_ret d = t" "fd_args d = cs_params c" "\<not> fd_vararg d"
  proof (cases "find_decl (ed_decls e) (cs_target c)")
    case None
    then show thesis
      using that [of "\<lparr>fd_name = cs_target c, fd_ret = t, fd_args = cs_params c, fd_vararg = False, fd_empty = True\<rparr>"]
      by (simp add: get_or_insert_def Let_def)
  next
    case (Some d)
    then show thesis using ok that [of d "ed_decls e"] by (simp add: get_or_insert_def target_ok_def)
  qed
  have "type_of (e\<lparr>ed_decls := D\<rparr>) v = type_of e v" if "v \<in> set as" for v
    using ty(2) that by (cases v) (auto simp: find_inst_def)
  then have m: "map (type_of (e\<lparr>ed_decls := D\<rparr>)) as = cs_params c"
    using ty(1) map_cong [OF refl, of as] by metis
  have ps: "fd_args d = map (type_of (e\<lparr>ed_decls := D\<rparr>)) as" by (simp only: d(3) m)
  have "good_call (e\<lparr>ed_decls := D\<rparr>) d as"
    using d(4) zip_own_types [of "type_of (e\<lparr>ed_decls := D\<rparr>)" as] by (simp only: good_call_def ps length_map if_False simp_thms)
  then show thesis
    using that [of D] g d by (simp add: create_function_def create_call_def build_def insert_before_def
        with_blocks_def ins_blk_def [abs_def])
qed


definition redirect :: "call_spec \<Rightarrow> ident \<Rightarrow> ident \<Rightarrow> block \<Rightarrow> block" where
  "redirect c i n b = (if cs_result c = Unused then b else subst_blk (VInst i) (VInst n) b)"

lemma erase_lacks: "lacks i xs \<Longrightarrow> filter (\<lambda>y. i_id y \<noteq> i) xs = xs"
  by (induction xs) auto

lemma erase_lacks_all: "lacks_all i bs \<Longrightarrow> map (\<lambda>b. b\<lparr>b_insts := filter (\<lambda>y. i_id y \<noteq> i) (b_insts b)\<rparr>) bs = bs"
  by (induction bs) (simp_all add: erase_lacks)

lemma result_redirected:
  assumes ti: "type_of (with_blocks e bs m) (VInst i) = t" and same: "cs_result c = Unused \<or> type_of (with_blocks e bs m) (VInst n) = t"
  shows "use_result (cs_result c) i t (VInst n) (with_blocks e bs m) = Done (with_blocks e (map (redirect c i n) bs) m)"
proof (cases "cs_result c = Unused")
  case True
  then show ?thesis by (simp add: use_result_def redirect_def [abs_def])
next
  case False
  then have same: "type_of (with_blocks e bs m) (VInst i) = type_of (with_blocks e bs m) (VInst n)" using ti same by simp
  have "create_bitcast i (VInst n) t (with_blocks e bs m) = Done (VInst n, with_blocks e bs m)"
    using same ti by (simp only: create_bitcast_def create_cast_def castable_def simp_thms if_True)
  with replace_uses_blocks [OF same] False show ?thesis
    by (cases "cs_result c") (simp_all add: use_result_def redirect_def [abs_def])
qed

lemma erase_redirected:
  assumes lk: "lacks_all i bs" "lacks_all i cs" "lacks i xs" "lacks i ys" and x: "i_id x = i" "i_id y \<noteq> i"
  shows "map (\<lambda>b. b\<lparr>b_insts := filter (\<lambda>y. i_id y \<noteq> i) (b_insts b)\<rparr>)
      (map (redirect c i n) (bs @ \<lparr>b_id = h, b_insts = xs @ y # x # ys\<rparr> # cs)) =
    map (redirect c i n) (bs @ \<lparr>b_id = h, b_insts = xs @ y # ys\<rparr> # cs)"
proof -
  have all: "map (\<lambda>b. b\<lparr>b_insts := filter (\<lambda>y. i_id y \<noteq> i) (b_insts b)\<rparr>) (map (redirect c i n) zs) = map (redirect c i n) zs"
    if "lacks_all i zs" for zs using that by (intro erase_lacks_all) (cases "cs_result c = Unused"; simp add: redirect_def [abs_def])
  show ?thesis using lk x by (simp add: all del: map_map) (simp add: redirect_def subst_blk_def erase_lacks)
qed

text \<open>
  C33: a call whose operands have the types of the runtime's parameters becomes, in its place, the
  call of the runtime's function on the same operands, and every use of its result becomes a use
  of the new call's.
\<close>

theorem call_redirected:
  assumes spec: "c \<in> set plain_specs"
    and num: "numbered e" and blocks: "f_blocks (ed_fun e) = bs @ \<lparr>b_id = h, b_insts = xs @ x # ys\<rparr> # cs"
    and call: "i_op x = Call f as"
    and args: "map (type_of e) (take (length (cs_params c)) as) = cs_params c" "\<forall>v\<in>set as. \<forall>g. v \<noteq> VFun g"
    and target: "target_ok c (new_type c x) e" and ret: "cs_result c = Unused \<or> new_type c x = i_ty x"
  shows "\<exists>e'. retarget c [i_id x] e = Done e' \<and>
    f_blocks (ed_fun e') = map (redirect c (i_id x) (ed_next e)) (bs @ \<lparr>b_id = h, b_insts = xs @ new_call c x (ed_next e) # ys\<rparr> # cs)"
proof -
  let ?n = "ed_next e" and ?i = "i_id x" and ?k = "length (cs_params c)"
  have c: "all_in_place (cs_args c) 0 (cs_params c)" "\<not> cs_vararg c" "cs_rest c = None"
    using plain_specs_plain [OF spec] by (simp_all add: plain_spec_def)
  have "distinct (map i_id (concat (map b_insts (bs @ \<lparr>b_id = h, b_insts = xs @ x # ys\<rparr> # cs))))"
    using num by (simp add: numbered_def insts_def blocks)
  note lk = distinct_mid [OF this]
  have in_n: "?i < ?n" using num by (simp add: numbered_def insts_def blocks)
  have e: "e = with_blocks e (bs @ \<lparr>b_id = h, b_insts = xs @ x # ys\<rparr> # cs) ?n"
    using with_blocks_self [of e] by (simp add: blocks)
  have x: "find_inst e ?i = Some x" by (subst e) (simp add: find_inst_blocks find_lacks find_lacks_all lk)
  have len: "?k \<le> length as" using arg_cong [OF args(1), of length] by simp
  have ops: "take ?k (op_operands (i_op x)) = take ?k as" using len by (simp add: call)
  have conv: "conv_args ?i (op_operands (i_op x)) (cs_args c) e = Done (take ?k as, e)"
    using conv_args_in_place [OF c(1), of "op_operands (i_op x)" e] args(1) len by (simp add: call)
  obtain D where new: "create_function (cs_params c) (cs_target c) (take ?k as) (new_type c x) ?i False e =
      Done (VInst ?n, with_blocks (e\<lparr>ed_decls := D\<rparr>)
        (map (ins_blk ?i \<lparr>i_id = ?n, i_ty = new_type c x, i_op = Call (VFun (cs_target c)) (take ?k as)\<rparr>)
          (f_blocks (ed_fun e))) (?n + 1))"
    using create_target [OF target args(1)] args(2) by (metis in_set_takeD)
  let ?B = "bs @ \<lparr>b_id = h, b_insts = xs @ new_call c x ?n # x # ys\<rparr> # cs"
  let ?e1 = "with_blocks (e\<lparr>ed_decls := D\<rparr>) ?B (?n + 1)"
  have B: "map (ins_blk ?i \<lparr>i_id = ?n, i_ty = new_type c x, i_op = Call (VFun (cs_target c)) (take ?k as)\<rparr>)
      (f_blocks (ed_fun e)) = ?B"
    using lk by (simp add: blocks ins_blk_def insert_append new_call_def ops)
  have ti: "type_of ?e1 (VInst ?i) = i_ty x"
    using lk in_n by (simp add: find_inst_blocks find_lacks find_lacks_all new_call_def)
  have "\<forall>y\<in>set (insts (ed_fun e)). i_id y < ?n" using num by (simp add: numbered_def)
  then have "lacks_all ?n bs" "lacks ?n xs" by (force simp: insts_def blocks lacks_all_def lacks_def)+
  then have tn: "type_of ?e1 (VInst ?n) = new_type c x"
    by (simp add: find_inst_blocks find_lacks find_lacks_all new_call_def)
  have use: "use_result (cs_result c) ?i (i_ty x) (VInst ?n) ?e1 =
      Done (with_blocks (e\<lparr>ed_decls := D\<rparr>) (map (redirect c ?i ?n) ?B) (?n + 1))"
    by (rule result_redirected [OF ti]) (use ret tn in metis)
  have one: "retarget_one c ?i e = Done (with_blocks (e\<lparr>ed_decls := D\<rparr>) (map (redirect c ?i ?n) ?B) (?n + 1))"
    unfolding retarget_one_def x option.case Let_def conv bindR.simps prod.case c(3) rest_operands_def append_Nil2
      new_type_def [symmetric]
    using c(2) new use by (simp add: B call branch_on_def)
  have "map (\<lambda>b. b\<lparr>b_insts := filter (\<lambda>y. i_id y \<noteq> ?i) (b_insts b)\<rparr>) (map (redirect c ?i ?n) ?B) =
      map (redirect c ?i ?n) (bs @ \<lparr>b_id = h, b_insts = xs @ new_call c x ?n # ys\<rparr> # cs)"
    by (rule erase_redirected [OF lk(1,2,3,4) refl]) (use in_n in \<open>simp add: new_call_def\<close>)
  then show ?thesis
    unfolding retarget_def retarget_each.simps one bindR.simps
    by (simp add: erase_all_def erase_def on_fun_def erase_from_def with_blocks_def)
qed

text \<open>A block calls \<open>malloc\<close> and returns the pointer.\<close>

definition malloc_caller :: edit where
  "malloc_caller = \<lparr>ed_decls = [], ed_globals = [],
     ed_fun = \<lparr>f_name = ''f'', f_ret = VoidPointer8Type, f_args = [TInt 64],
       f_blocks = [\<lparr>b_id = 0, b_insts =
         [\<lparr>i_id = 1, i_ty = VoidPointer8Type, i_op = Call (VFun ''malloc'') [VArg 0]\<rparr>,
          \<lparr>i_id = 2, i_ty = TVoid, i_op = Ret (Some (VInst 1))\<rparr>]\<rparr>]\<rparr>,
     ed_next = 3\<rparr>"

theorem call_redirected_witness:
  "\<exists>e'. retarget malloc_spec [1] malloc_caller = Done e' \<and>
    f_blocks (ed_fun e') = [\<lparr>b_id = 0, b_insts =
      [\<lparr>i_id = 3, i_ty = VoidPointer8Type, i_op = Call (VFun CARM_MALLOC) [VArg 0]\<rparr>,
       \<lparr>i_id = 2, i_ty = TVoid, i_op = Ret (Some (VInst 3))\<rparr>]\<rparr>]"
  using call_redirected [of malloc_spec malloc_caller "[]" 0 "[]"
      "\<lparr>i_id = 1, i_ty = VoidPointer8Type, i_op = Call (VFun ''malloc'') [VArg 0]\<rparr>"
      "[\<lparr>i_id = 2, i_ty = TVoid, i_op = Ret (Some (VInst 1))\<rparr>]" "[]" "VFun ''malloc''" "[VArg 0]"]
  by (simp add: malloc_caller_def plain_specs_def malloc_spec_def numbered_def insts_def target_ok_def
      new_type_def new_call_def redirect_def subst_blk_def find_decl_def subst_val_def)

section \<open>All calls\<close>

text \<open>The functions of the runtime that calls are redirected to.\<close>

definition carm_names :: "string list" where
  "carm_names = map cs_target
     (plain_specs @ [fprintf_spec, snprintf_spec, sprintf_spec, vsnprintf_spec TVoid, vsprintf_spec TVoid,
       vfprintf_spec TVoid, sscanf_spec])"

text \<open>
  What every edit of the pass keeps: an instruction is one of before, its callee unchanged, or
  it is new and calls nothing but the runtime.
\<close>

definition derived :: "edit \<Rightarrow> edit \<Rightarrow> bool" where
  "derived e e' \<longleftrightarrow> ed_next e \<le> ed_next e' \<and>
     (\<forall>y\<in>set (insts (ed_fun e')).
        (\<exists>x\<in>set (insts (ed_fun e)). i_id y = i_id x \<and> called_function (i_op y) = called_function (i_op x)) \<or>
        (ed_next e \<le> i_id y \<and> (\<forall>f. called_function (i_op y) = Some f \<longrightarrow> f \<in> set carm_names)))"

lemma derived_refl [simp, intro]: "derived e e"
  by (auto simp: derived_def)

lemma derived_trans:
  assumes "derived e1 e2" "derived e2 e3"
  shows "derived e1 e3"
proof -
  have n: "ed_next e1 \<le> ed_next e2" "ed_next e2 \<le> ed_next e3" using assms by (auto simp: derived_def)
  have "(\<exists>x\<in>set (insts (ed_fun e1)). i_id y = i_id x \<and> called_function (i_op y) = called_function (i_op x)) \<or>
      (ed_next e1 \<le> i_id y \<and> (\<forall>f. called_function (i_op y) = Some f \<longrightarrow> f \<in> set carm_names))"
    if "y \<in> set (insts (ed_fun e3))" for y
  proof (cases "\<exists>x\<in>set (insts (ed_fun e2)). i_id y = i_id x \<and> called_function (i_op y) = called_function (i_op x)")
    case True
    then obtain x where x: "x \<in> set (insts (ed_fun e2))" "i_id y = i_id x"
      "called_function (i_op y) = called_function (i_op x)" by blast
    with assms(1) show ?thesis unfolding derived_def by metis
  next
    case False
    with assms(2) that n show ?thesis unfolding derived_def by (meson order_trans)
  qed
  with n show ?thesis unfolding derived_def by simp
qed

lemma derived_build:
  assumes "\<And>f. called_function o1 = Some f \<Longrightarrow> f \<in> set carm_names"
  shows "derived e (snd (build p t o1 e))"
proof -
  let ?e = "snd (build p t o1 e)" and ?x = "\<lparr>i_id = ed_next e, i_ty = t, i_op = o1\<rparr>"
  have y: "y = ?x \<or> y \<in> set (insts (ed_fun e))" if "y \<in> set (insts (ed_fun ?e))" for y
    using that insts_insert_before(1) [of p ?x "ed_fun e"] by (auto simp: build_def)
  have new: "ed_next e \<le> i_id ?x \<and> (\<forall>f. called_function (i_op ?x) = Some f \<longrightarrow> f \<in> set carm_names)"
    using assms by simp
  have "ed_next e \<le> ed_next ?e" by (simp add: build_def)
  with y new show ?thesis unfolding derived_def by metis
qed

lemma derived_cast: "derived e (snd (create_cast p c v t e))"
  using derived_build [of "Cast c v" e p t] by (simp add: create_cast_def)

lemma called_map_op [simp]: "called_function (map_op (subst_val (VInst i) (VInst j)) o1) = called_function o1"
proof -
  have "subst_val (VInst i) (VInst j) (VFun f) = VFun f" for f by (simp add: subst_val_def)
  moreover have "(\<exists>f. subst_val (VInst i) (VInst j) v = VFun f) \<longleftrightarrow> (\<exists>f. v = VFun f)" for v by (auto simp: subst_val_def)
  ultimately show ?thesis
    by (cases o1; simp; metis called_function.simps val.exhaust)
qed

lemma derived_replace:
  assumes "replace_uses (VInst i) (VInst j) e = Done e'"
  shows "derived e e'"
  using assms by (force simp: derived_def replace_uses_def on_fun_def subst_uses_def map_insts_def insts_def
      split: if_splits)

lemma derived_erase_all: "derived e (erase_all is e)"
proof -
  have "ed_next (erase_all is e) = ed_next e" by (induction "is" arbitrary: e) (simp_all add: erase_all_def erase_def on_fun_def)
  then show ?thesis by (auto simp: derived_def insts_erase_all)
qed

lemma derived_conv_args: "conv_args p os as e = Done (vs, e') \<Longrightarrow> derived e e'"
proof (induction as arbitrary: e vs)
  case (Cons a as)
  then obtain v e1 ws where one: "conv_arg p os a e = Done (v, e1)" and rest: "conv_args p os as e1 = Done (ws, e')"
    by (auto simp: bindR_Done_iff)
  have "e1 = e \<or> (\<exists>k c t. e1 = snd (create_cast p c (os ! k) t e))"
    using one by (cases a) (auto simp: bindR_Done_iff operand_def create_bitcast_def create_intcast_def
        split: if_splits ty.splits, (metis snd_conv)+)
  then have "derived e e1" using derived_cast by auto
  with Cons.IH [OF rest] show ?case by (rule derived_trans [rotated])
qed simp

lemma derived_create_function:
  assumes ok: "create_function ts f as t p va e = Done (v, e')" and f: "f \<in> set carm_names"
  shows "derived e e' \<and> (\<exists>j. v = VInst j)"
proof -
  obtain d e1 where g: "get_or_insert f t ts va e = (d, e1)" by (cases "get_or_insert f t ts va e")
  have d: "fd_name d = f \<and> ed_fun e1 = ed_fun e \<and> ed_next e1 = ed_next e"
    using g
    by (auto simp: get_or_insert_def find_decl_def Let_def find_Some_iff split: option.splits)
  from ok g have e': "(v, e') = build p (fd_ret d) (Call (VFun f) as) e1"
    using d by (simp add: create_function_def create_call_def split: if_splits)
  then have "derived e1 e'"
    using derived_build [of "Call (VFun f) as" e1 p "fd_ret d"] f by (simp add: prod_eq_iff)
  moreover have "derived e e1" using d by (simp add: derived_def) blast
  ultimately show ?thesis using e' derived_trans by (auto simp: build_def)
qed

lemma derived_use_result:
  assumes "use_result u i t (VInst j) e = Done e'"
  shows "derived e e'"
proof (cases u)
  case ReplaceCast
  then obtain w e1 where c: "create_bitcast i (VInst j) t e = Done (w, e1)" and r: "replace_uses (VInst i) w e1 = Done e'"
    using assms by (auto simp: use_result_def bindR_Done_iff)
  then have w: "create_cast i BitCast (VInst j) t e = (w, e1)" by (simp add: create_bitcast_def split: if_splits)
  then obtain k where "w = VInst k" by (auto simp: create_cast_def build_def split: if_splits)
  moreover have "derived e e1" using derived_cast [of e i BitCast "VInst j" t] w by simp
  ultimately show ?thesis using derived_replace r derived_trans by blast
qed (use assms derived_replace in \<open>auto simp: use_result_def\<close>)

lemma derived_retarget_one:
  assumes ok: "retarget_one c i e = Done e'" and c: "cs_target c \<in> set carm_names"
  shows "derived e e'"
proof -
  obtain x as e1 v e2 e3 where x: "find_inst e i = Some x"
    and as: "conv_args i (op_operands (i_op x)) (cs_args c) e = Done (as, e1)"
    and v: "create_function (cs_params c) (cs_target c) (as @ rest_operands (cs_rest c) (op_operands (i_op x)))
        (case cs_ret c of None \<Rightarrow> i_ty x | Some t \<Rightarrow> t) i (cs_vararg c) e1 = Done (v, e2)"
    and u: "use_result (cs_result c) i (i_ty x) v e2 = Done e3" and e': "e' = branch_on (cs_branch c) i (i_op x) e3"
    using ok by (auto simp: retarget_one_def Let_def bindR_Done_iff split: option.splits prod.splits)
  note d1 = derived_conv_args [OF as]
  from derived_create_function [OF v c] obtain j where d2: "derived e1 e2" and j: "v = VInst j" by blast
  note d3 = derived_use_result [OF u [unfolded j]]
  have "derived e3 e'" by (cases "i_op x") (auto simp: e' branch_on_def intro!: derived_build)
  with d1 d2 d3 show ?thesis using derived_trans by blast
qed

lemma derived_retarget_each:
  "retarget_each c is e = Done e' \<Longrightarrow> cs_target c \<in> set carm_names \<Longrightarrow> derived e e'"
  by (induction c "is" e rule: retarget_each.induct)
    (auto simp: bindR_Done_iff intro: derived_trans derived_retarget_one)

text \<open>A stage of the pass deletes the calls it was given.\<close>

definition replaces :: "ident list \<Rightarrow> (edit \<Rightarrow> edit run) \<Rightarrow> bool" where
  "replaces is g \<longleftrightarrow> (\<forall>e e'. g e = Done e' \<longrightarrow>
     derived e e' \<and> (\<forall>y\<in>set (insts (ed_fun e')). i_id y \<notin> set is))"

lemma replaces_retarget: "cs_target c \<in> set carm_names \<Longrightarrow> replaces is (retarget c is)"
  unfolding replaces_def retarget_def bindR_Done_iff
  by (auto simp: insts_erase_all intro: derived_trans derived_retarget_each derived_erase_all)

lemma replaces_retarget_typed:
  "(\<And>t. cs_target (c t) \<in> set carm_names) \<Longrightarrow>
   replaces is (\<lambda>e. bindR (first_operand_type is k e) (\<lambda>t. retarget (c t) is e))"
  using replaces_retarget unfolding replaces_def by (fastforce simp: bindR_Done_iff)

lemma in_order_replaces:
  "list_all2 replaces ls gs \<Longrightarrow> in_order gs e = Done e' \<Longrightarrow>
   derived e e' \<and> (\<forall>is\<in>set ls. \<forall>y\<in>set (insts (ed_fun e')). i_id y < ed_next e \<longrightarrow> i_id y \<notin> set is)"
proof (induction ls gs arbitrary: e rule: list_all2_induct)
  case (Cons l ls g gs)
  then obtain e1 where g: "g e = Done e1" and rest: "in_order gs e1 = Done e'" by (auto simp: bindR_Done_iff)
  with Cons.hyps(1) have one: "derived e e1" "\<forall>y\<in>set (insts (ed_fun e1)). i_id y \<notin> set l"
    by (auto simp: replaces_def)
  note more = Cons.IH [OF rest]
  have n: "ed_next e \<le> ed_next e1" using one(1) by (simp add: derived_def)
  have "i_id y \<notin> set l" if "y \<in> set (insts (ed_fun e'))" "i_id y < ed_next e" for y
    using more that n one(2) by (auto simp: derived_def)
  with more n one(1) show ?case using derived_trans by fastforce
qed simp

text \<open>The kinds of calls the pass replaces, in its order.\<close>

definition replaced_kinds :: "kind list" where
  "replaced_kinds = [K_malloc, K_local_malloc, K_free, K_memcpy, K_memchr, K_wmemchr, K_wmemcpy, K_memcmp,
     K_wmemcmp, K_strcmp, K_strlen, K_llvm_memcpy, K_llvm_memove, K_memset, K_fwrite, K_fread,
     K_read, K_fopen, K_fprintf, K_fclose, K_llvmi_memset, K_calloc, K_realloc, K_strcpy,
     K_strncpy, K_snprintf, K_sprintf, K_vsnprintf, K_vsprintf, K_vfprintf, K_sscanf, K_strdup,
     K_strtol, K_strtoul]"

lemma replaced_kinds_all: "k \<in> set replaced_kinds \<longleftrightarrow> k \<noteq> K_carm_check \<and> k \<noteq> K_carm_loop"
  by (cases k) (simp_all add: replaced_kinds_def)

lemmas transform_defs = transform_malloc_functions_def transform_local_malloc_functions_def
 transform_free_functions_def transform_memcpy_functions_def transform_memchr_functions_def
 transform_wmemchr_functions_def transform_wmemcpy_functions_def
 transform_memcmp_functions_def transform_wmemcmp_functions_def
 transform_strcmp_functions_def transform_strlen_functions_def
 transform_llvm_memcpy_functions_def transform_llvm_memove_functions_def
 transform_memset_functions_def transform_fwrite_functions_def transform_fread_functions_def
 transform_read_functions_def transform_fopen_functions_def transform_fprintf_functions_def
 transform_fclose_functions_def transform_llvmi_memset_functions_def
 transform_calloc_functions_def transform_realloc_functions_def
 transform_strcpy_functions_def transform_strncpy_functions_def
 transform_snprintf_functions_def transform_sprintf_functions_def
 
 transform_sscanf_functions_def
 transform_strdup_functions_def transform_strtol_functions_def
 transform_strtoul_functions_def

lemma stages_replace:
  assumes "libc_runOnFunction e = Done e'"
  shows "\<exists>gs. in_order gs e = Done e' \<and> list_all2 replaces (map (parse_lib_functions e) replaced_kinds) gs"
proof -
  have t: "cs_target c \<in> set carm_names" if "c \<in> set plain_specs" for c
    using that by (simp add: carm_names_def)
  have v: "cs_target fprintf_spec \<in> set carm_names" "cs_target snprintf_spec \<in> set carm_names"
    "cs_target sprintf_spec \<in> set carm_names" "cs_target sscanf_spec \<in> set carm_names"
    by (simp_all add: carm_names_def)
  have w: "cs_target (vsnprintf_spec t) \<in> set carm_names" "cs_target (vsprintf_spec t) \<in> set carm_names"
    "cs_target (vfprintf_spec t) \<in> set carm_names" for t
    by (simp_all add: carm_names_def vsnprintf_spec_def vsprintf_spec_def vfprintf_spec_def)
  have va: "replaces is (transform_vsnprintf_functions is)" "replaces is (transform_vsprintf_functions is)"
    "replaces is (transform_vfprintf_functions is)" for "is"
    by (simp_all add: transform_vsnprintf_functions_def [abs_def] transform_vsprintf_functions_def [abs_def]
        transform_vfprintf_functions_def [abs_def] replaces_retarget_typed w)
  note r = va replaces_retarget [OF t] replaces_retarget [OF v(1)] replaces_retarget [OF v(2)]
    replaces_retarget [OF v(3)] replaces_retarget [OF v(4)]
  show ?thesis
    apply (rule exI)
    apply (rule conjI)
     apply (rule assms [unfolded libc_runOnFunction_def Let_def])
    apply (simp add: replaced_kinds_def transform_defs r plain_specs_def)
    done
qed

definition redirected :: "string \<Rightarrow> bool" where
  "redirected f \<longleftrightarrow> fmap f = 1 \<or> fmap f = 2 \<or>
     (case map_of listed (fmap f) of None \<Rightarrow> False | Some k \<Rightarrow> k \<noteq> K_carm_check \<and> k \<noteq> K_carm_loop)"

lemma index_in_less: "index_in s ts < length ts \<longleftrightarrow> s \<in> set ts"
  by (induction ts) auto

definition runtime_name :: "string \<Rightarrow> bool" where
  "runtime_name f \<longleftrightarrow> (take 3 f = ''_Z1'' \<or> take 3 f = ''_Z9'') \<and> f \<noteq> CARM_DEREF_DUMMY"

lemmas name_defs = CARM_STRDUP_def CARM_MALLOC_def CARM_MEMCPY_def CARM_WMEMCPY_def CARM_MEMCMP_def
  CARM_STRCMP_def CARM_WMEMCMP_def CARM_MEMSET_def CARM_CALLOC_def CARM_REALLOC_def CARM_STRLEN_def
  CARM_MEMCHR_def CARM_WMEMCHR_def CARM_FWRITE_def CARM_FREAD_def CARM_STRCPY_def CARM_STRNCPY_def
  CARM_VSNPRINTF_def CARM_VSPRINTF_def CARM_SNPRINTF_def CARM_SPRINTF_def CARM_VFPRINTF_def
  CARM_SSCANF_def CARM_FOPEN_def CARM_FCLOSE_def CARM_FREE_def CARM_LOCAL_MALLOC_def CARM_READ_def
  CARM_STRTOL_def CARM_STRTOUL_def CARM_FPRINTF_def CARM_DEREF_DUMMY_def

lemma carm_not_redirected:
  assumes "f \<in> set carm_names"
  shows "\<not> redirected f"
proof -
  have "list_all runtime_name carm_names"
    unfolding carm_names_def plain_specs_def
    by (simp add: spec_defs fprintf_spec_def snprintf_spec_def sprintf_spec_def vsnprintf_spec_def
        vsprintf_spec_def vfprintf_spec_def sscanf_spec_def runtime_name_def name_defs)
  moreover have "list_all (\<lambda>f. \<not> runtime_name f) fmap_names"
    by (simp add: fmap_names_def runtime_name_def CARM_DEREF_LOOP_DUMMY_def)
  ultimately have "f \<notin> set fmap_names" using assms by (auto simp: list_all_iff)
  then have "fmap f = 0" by (simp add: fmap_def index_in_less)
  then show ?thesis by (simp add: redirected_def listed_def)
qed

lemma parse_grows: "i \<in> set (c k) \<Longrightarrow> i \<in> set (parse_insts e xs l c k)"
proof (induction xs arbitrary: l c)
  case (Cons x xs)
  obtain r l' where r: "classify e x l = (r, l')" by (cases "classify e x l")
  show ?case
  proof (cases r)
    case (Some k')
    have "i \<in> set ((c(k' := c k' @ [i_id x])) k)" using Cons.prems by auto
    from Cons.IH [of "c(k' := c k' @ [i_id x])", OF this] show ?thesis
      by (simp only: parse_insts.simps r Some prod.case option.case)
  qed (use Cons r in simp)
qed simp

lemma parse_collects:
  assumes "x \<in> set xs" "\<And>l. \<exists>k\<in>K. fst (classify e x l) = Some k"
  shows "\<exists>k\<in>K. i_id x \<in> set (parse_insts e xs l c k)"
  using assms(1)
proof (induction xs arbitrary: l c)
  case (Cons y ys)
  show ?case
  proof (cases "y = x")
    case True
    obtain k l' where k: "k \<in> K" "classify e x l = (Some k, l')"
      using assms(2) [of l] by (cases "classify e x l") auto
    then have "i_id x \<in> set (parse_insts e ys l' (c(k := c k @ [i_id x])) k)"
      by (intro parse_grows) simp
    with k True show ?thesis by auto
  next
    case False
    with Cons show ?thesis by (cases "classify e y l"; cases "fst (classify e y l)") simp_all
  qed
qed simp

lemma classified:
  assumes "called_function (i_op x) = Some f" "redirected f" "find_decl (ed_decls e) f = Some d" "fd_empty d"
  shows "\<exists>k\<in>set replaced_kinds. fst (classify e x l) = Some k"
  using assms by (auto simp: classify_def redirected_def replaced_kinds_all listed_def split: option.splits)

text \<open>
  C32: when the pass has run over a function, no instruction is left that calls a redirected
  library function which the module only declares.
\<close>

theorem no_library_call_left:
  assumes num: "numbered e" and ok: "libc_runOnFunction e = Done e'"
    and y: "y \<in> set (insts (ed_fun e'))" "called_function (i_op y) = Some f" "redirected f"
  shows "\<forall>d. find_decl (ed_decls e) f = Some d \<longrightarrow> \<not> fd_empty d"
proof (intro allI impI notI)
  fix d assume d: "find_decl (ed_decls e) f = Some d" "fd_empty d"
  obtain gs where "in_order gs e = Done e'" "list_all2 replaces (map (parse_lib_functions e) replaced_kinds) gs"
    using stages_replace [OF ok] by blast
  from in_order_replaces [OF this(2,1)] have der: "derived e e'"
    and gone: "\<And>k. k \<in> set replaced_kinds \<Longrightarrow> i_id y < ed_next e \<Longrightarrow> i_id y \<notin> set (parse_lib_functions e k)"
    using y(1) by auto
  obtain x where x: "x \<in> set (insts (ed_fun e))" "i_id y = i_id x" "called_function (i_op x) = Some f"
    using der y carm_not_redirected unfolding derived_def by metis
  have "\<exists>k\<in>set replaced_kinds. i_id x \<in> set (parse_lib_functions e k)"
    unfolding parse_lib_functions_def using classified [OF x(3) y(3) d] by (intro parse_collects [OF x(1)])
  moreover have "i_id y < ed_next e" using num x by (simp add: numbered_def)
  ultimately show False using gone x(2) by auto
qed

text \<open>The caller of \<open>malloc\<close> in a module that declares it, and what the pass makes of it.\<close>

definition redirected_caller :: edit where
  "redirected_caller = \<lparr>ed_decls =
       [\<lparr>fd_name = ''malloc'', fd_ret = VoidPointer8Type, fd_args = [TInt 64], fd_vararg = False, fd_empty = True\<rparr>,
        \<lparr>fd_name = CARM_MALLOC, fd_ret = VoidPointer8Type, fd_args = [TInt 64], fd_vararg = False, fd_empty = True\<rparr>],
     ed_globals = [],
     ed_fun = (ed_fun malloc_caller)\<lparr>f_blocks := [\<lparr>b_id = 0, b_insts =
       [\<lparr>i_id = 3, i_ty = VoidPointer8Type, i_op = Call (VFun CARM_MALLOC) [VArg 0]\<rparr>,
        \<lparr>i_id = 2, i_ty = TVoid, i_op = Ret (Some (VInst 3))\<rparr>]\<rparr>]\<rparr>,
     ed_next = 4\<rparr>"

definition declares_malloc :: edit where
  "declares_malloc = malloc_caller\<lparr>ed_decls := [\<lparr>fd_name = ''malloc'', fd_ret = VoidPointer8Type,
     fd_args = [TInt 64], fd_vararg = False, fd_empty = True\<rparr>]\<rparr>"

theorem no_library_call_left_witness:
  "libc_runOnFunction declares_malloc = Done redirected_caller \<and> redirected ''malloc'' \<and>
   filter (\<lambda>y. called_function (i_op y) = Some ''malloc'') (insts (ed_fun redirected_caller)) = []"
proof -
  have run: "libc_runOnFunction declares_malloc = Done redirected_caller" by code_simp
  have lib: "redirected ''malloc''" by code_simp
  have num: "numbered declares_malloc"
    by (simp add: numbered_def declares_malloc_def malloc_caller_def insts_def)
  have "called_function (i_op y) \<noteq> Some ''malloc''" if "y \<in> set (insts (ed_fun redirected_caller))" for y
    using no_library_call_left [OF num run that _ lib]
    by (auto simp: declares_malloc_def find_decl_def)
  then show ?thesis using run lib by (simp add: filter_empty_conv)
qed

end
