(* ===== verification/Guard_Pass.thy ===== *)
theory Guard_Pass
  imports IR Carm_Config
begin

text \<open>
  \<open>carm_transform/src/CatPass.cpp\<close>: the pass that turns each marker before a load or store
  into the inlined dereference. A remote pointer's object number indexes the runtime's state
  table; an entry without exception bits holds the object's local address, otherwise the
  runtime is called. The markers of a function are a \<open>std::set\<close>, whose order is a parameter.
\<close>

section \<open>Names\<close>

definition CARM_DEREF_READ :: string where "CARM_DEREF_READ = ''_Z15carm_deref_readm''"
definition CARM_DEREF_WRITE :: string where "CARM_DEREF_WRITE = ''_Z16carm_deref_writem''"

abbreviation "VoidPointerType \<equiv> TPtr Int64Type"

text \<open>The global that holds the address of the state table.\<close>

definition obj_state_global :: val where
  "obj_state_global = VGlob ''carm_obj_state'' VoidPointerType"

section \<open>Finding the markers\<close>

text \<open>\<open>init_fmap\<close>: a name not in the table has number 0.\<close>

definition guard_fmap :: "string \<Rightarrow> nat" where
  "guard_fmap s = (if s = CARM_DEREF_DUMMY then 1 else if s = CARM_DEREF_LOOP_DUMMY then 2 else 0)"

definition is_marker :: "edit \<Rightarrow> inst \<Rightarrow> bool" where
  "is_marker e x =
     (case called_function (i_op x) of
        None \<Rightarrow> False
      | Some f \<Rightarrow> (case find_decl (ed_decls e) f of
                     None \<Rightarrow> False | Some d \<Rightarrow> fd_empty d \<and> guard_fmap f = 1))"

definition guard_parse :: "edit \<Rightarrow> (ident \<times> ident option) list" where
  "guard_parse e =
     map (\<lambda>x. (i_id x, map_option i_id (next_non_debug (i_id x) (ed_fun e))))
       (filter (is_marker e) (insts (ed_fun e)))"

section \<open>The code of a dereference\<close>

definition exception_bits :: "bool \<Rightarrow> u64" where
  "exception_bits mut =
     (let exceptions = kHotClear OR kPresentClear OR kEvacuationSet
      in if mut then exceptions OR kDirtyClear else exceptions)"

definition check_obj_state :: "val \<Rightarrow> ident \<Rightarrow> bool \<Rightarrow> edit \<Rightarrow> val \<times> edit" where
  "check_obj_state obj_state p mut e =
     create_bin p And obj_state (VInt Int64Type (exception_bits mut)) e"

definition get_data_addr_from_carm_obj_state :: "val \<Rightarrow> ident \<Rightarrow> edit \<Rightarrow> val \<times> edit" where
  "get_data_addr_from_carm_obj_state obj_state p e =
     create_bin p LShr obj_state (VInt Int64Type (of_nat kObjectDataAddrBitPos)) e"

text \<open>A phi at the front of a block; what follows it goes before the old front.\<close>

definition transform_nested_if :: "ident \<Rightarrow> bool \<Rightarrow> val \<Rightarrow> val \<Rightarrow> edit \<Rightarrow> (val \<times> edit) run" where
  "transform_nested_if p mut global_cached_ptr pointer e =
     (case create_bin p Xor pointer (VInt Int64Type CARM_PTR) e of (xorv, e) \<Rightarrow>
      case create_bin p LShr xorv (VInt Int64Type (of_nat OBJ_SIZE_LOG)) e of (index, e) \<Rightarrow>
      case build p VoidPointerType (Gep Int64Type global_cached_ptr [index]) e of (entry, e) \<Rightarrow>
      case build p Int64Type (Load Int64Type entry) e of (obj_state, e) \<Rightarrow>
      case check_obj_state obj_state p mut e of (conds, e) \<Rightarrow>
      case create_icmp p NE conds (VInt Int64Type 0) e of (cached, e) \<Rightarrow>
        bindR (split_if_then_else cached p e) (\<lambda>(then_term, else_term, e).
        bindR (create_function [Int64Type] (if mut then CARM_DEREF_WRITE else CARM_DEREF_READ)
                 [index] Int64Type then_term False e) (\<lambda>(addr, e).
        bindR (block_of then_term e) (\<lambda>then_bb. bindR (block_of else_term e) (\<lambda>else_bb.
        bindR (block_of p e) (\<lambda>merge. bindR (front merge e) (\<lambda>q.
          case get_data_addr_from_carm_obj_state obj_state else_term e of (data, e) \<Rightarrow>
          case build q Int64Type (Phi [(addr, then_bb), (data, else_bb)]) e of (pn, e) \<Rightarrow>
          case create_bin q And pointer (VInt Int64Type OBJ_SIZE_MASK) e of (off, e) \<Rightarrow>
            Done (create_bin q Add pn off e))))))))"

text \<open>The address of the state table, loaded at the start of the function.\<close>

definition load_cached_global_ptrs :: "edit \<Rightarrow> (val \<times> edit) run" where
  "load_cached_global_ptrs e =
     (case entry_first_non_phi (ed_fun e) of
        None \<Rightarrow> Aborted
      | Some x \<Rightarrow> Done (build (i_id x) VoidPointerType (Load VoidPointerType obj_state_global) e))"

section \<open>Replacing the access\<close>

definition pointer_type :: "edit \<Rightarrow> op \<Rightarrow> ty run" where
  "pointer_type e o1 =
     (case o1 of Load t p \<Rightarrow> Done (type_of e p) | Store v p \<Rightarrow> Done (type_of e p) | _ \<Rightarrow> Faulted)"

text \<open>The load or store at the new address, built before \<open>q\<close>.\<close>

definition new_access :: "ident \<Rightarrow> inst \<Rightarrow> val \<Rightarrow> edit \<Rightarrow> (val \<times> edit) run" where
  "new_access q x pn e =
     bindR (pointer_type e (i_op x)) (\<lambda>t.
       case create_cast q IntToPtr pn t e of (ptr, e) \<Rightarrow>
         (case i_op x of
            Load lt p \<Rightarrow> Done (build q (i_ty x) (Load (i_ty x) ptr) e)
          | Store v p \<Rightarrow> Done (build q TVoid (Store v ptr) e)
          | _ \<Rightarrow> Faulted))"

definition transform_check ::
    "val \<Rightarrow> ident \<times> ident option \<Rightarrow> edit \<Rightarrow> (ident \<times> edit) run" where
  "transform_check cache ci e =
     (case ci of
        (c, None) \<Rightarrow> Faulted
      | (c, Some acc) \<Rightarrow>
          (case (find_inst e c, find_inst e acc) of
             (Some ck, Some x) \<Rightarrow>
               (case op_operands (i_op ck) of
                  [] \<Rightarrow> Faulted
                | ptr # _ \<Rightarrow>
                    let mut = \<not> is_load (i_op x)
                    in bindR (create_pointercast c ptr Int64Type e) (\<lambda>(pointer, e).
                       case create_icmp c UGE pointer (VInt Int64Type CARM_PTR) e of (is_carm, e) \<Rightarrow>
                       bindR (split_if_then_else is_carm c e) (\<lambda>(then_term, else_term, e).
                       bindR (transform_nested_if then_term mut cache pointer e) (\<lambda>(addr, e).
                       bindR (block_of acc e) (\<lambda>merge. bindR (block_of then_term e) (\<lambda>then_bb.
                       bindR (block_of else_term e) (\<lambda>else_bb. bindR (front merge e) (\<lambda>q.
                         case build q Int64Type (Phi [(addr, then_bb), (pointer, else_bb)]) e of (pn, e) \<Rightarrow>
                           bindR (new_access q x pn e) (\<lambda>(new_inst, e).
                             bindR (replace_uses (VInst acc) new_inst e) (\<lambda>e. Done (acc, e)))))))))))
           | _ \<Rightarrow> Faulted))"

text \<open>All markers; the accesses that are replaced.\<close>

fun transform_function ::
    "val \<Rightarrow> (ident \<times> ident option) list \<Rightarrow> ident list \<Rightarrow> edit \<Rightarrow> (ident list \<times> edit) run" where
  "transform_function cache [] del e = Done (del, e)"
| "transform_function cache (c # cs) del e =
     bindR (transform_check cache c e) (\<lambda>(acc, e). transform_function cache cs (del @ [acc]) e)"

definition delete_dummy_functions :: "ident list \<Rightarrow> ident list \<Rightarrow> edit \<Rightarrow> edit" where
  "delete_dummy_functions cs del e = erase_all del (erase_all cs e)"

definition guard_runOnFunction ::
    "((ident \<times> ident option) list \<Rightarrow> (ident \<times> ident option) list) \<Rightarrow> edit \<Rightarrow> edit run" where
  "guard_runOnFunction order e =
     (if contains ''cxx_global_var_init'' (f_name (ed_fun e)) then Done e
      else let cs = order (guard_parse e)
           in bindR (load_cached_global_ptrs e) (\<lambda>(cache, e).
                bindR (transform_function cache cs [] e) (\<lambda>(del, e).
                  Done (delete_dummy_functions (map fst cs) del e))))"

end
