(* ===== verification/Guard_Emit.thy ===== *)
theory Guard_Emit
  imports IR_Edit Guard_Pass
begin

text \<open>
  What \<open>transform_check\<close> emits for one marker: the block of the marker is cut in two, with
  the code of the dereference between. Identifiers count on from \<open>n\<close> in the order the pass
  creates them.
\<close>

abbreviation num :: "u64 \<Rightarrow> val" where "num c \<equiv> VInt Int64Type c"

abbreviation ins :: "ident \<Rightarrow> ty \<Rightarrow> op \<Rightarrow> inst" where
  "ins i t o1 \<equiv> \<lparr>i_id = i, i_ty = t, i_op = o1\<rparr>"

definition deref_name :: "bool \<Rightarrow> string" where
  "deref_name mut = (if mut then CARM_DEREF_WRITE else CARM_DEREF_READ)"

definition guard_test :: "ident \<Rightarrow> val \<Rightarrow> inst list" where
  "guard_test n ptr =
     [ins n Int64Type (Cast PtrToInt ptr), ins (n + 1) Int1Type (ICmp UGE (VInst n) (num CARM_PTR)),
      ins (n + 7) TVoid (CondBr (VInst (n + 1)) (n + 3) (n + 4))]"

definition guard_lookup :: "ident \<Rightarrow> val \<Rightarrow> bool \<Rightarrow> block" where
  "guard_lookup n cache mut = \<lparr>b_id = n + 3, b_insts =
     [ins (n + 8) Int64Type (Bin Xor (VInst n) (num CARM_PTR)),
      ins (n + 9) Int64Type (Bin LShr (VInst (n + 8)) (num (of_nat OBJ_SIZE_LOG))),
      ins (n + 10) VoidPointerType (Gep Int64Type cache [VInst (n + 9)]),
      ins (n + 11) Int64Type (Load Int64Type (VInst (n + 10))),
      ins (n + 12) Int64Type (Bin And (VInst (n + 11)) (num (exception_bits mut))),
      ins (n + 13) Int1Type (ICmp NE (VInst (n + 12)) (num 0)),
      ins (n + 19) TVoid (CondBr (VInst (n + 13)) (n + 15) (n + 16))]\<rparr>"

definition guard_slow :: "ident \<Rightarrow> bool \<Rightarrow> block" where
  "guard_slow n mut = \<lparr>b_id = n + 15, b_insts =
     [ins (n + 20) Int64Type (Call (VFun (deref_name mut)) [VInst (n + 9)]), ins (n + 17) TVoid (Br (n + 14))]\<rparr>"

definition guard_fast :: "ident \<Rightarrow> block" where
  "guard_fast n = \<lparr>b_id = n + 16, b_insts =
     [ins (n + 21) Int64Type (Bin LShr (VInst (n + 11)) (num (of_nat kObjectDataAddrBitPos))),
      ins (n + 18) TVoid (Br (n + 14))]\<rparr>"

definition guard_join :: "ident \<Rightarrow> block" where
  "guard_join n = \<lparr>b_id = n + 14, b_insts =
     [ins (n + 22) Int64Type (Phi [(VInst (n + 20), n + 15), (VInst (n + 21), n + 16)]),
      ins (n + 23) Int64Type (Bin And (VInst n) (num OBJ_SIZE_MASK)),
      ins (n + 24) Int64Type (Bin Add (VInst (n + 22)) (VInst (n + 23))),
      ins (n + 5) TVoid (Br (n + 2))]\<rparr>"

definition guard_local :: "ident \<Rightarrow> block" where
  "guard_local n = \<lparr>b_id = n + 4, b_insts = [ins (n + 6) TVoid (Br (n + 2))]\<rparr>"

definition guard_merge :: "ident \<Rightarrow> inst" where
  "guard_merge n = ins (n + 25) Int64Type (Phi [(VInst (n + 24), n + 14), (VInst n, n + 4)])"

definition guard_access :: "ident \<Rightarrow> ty \<Rightarrow> inst \<Rightarrow> inst list" where
  "guard_access n pt acc =
     [ins (n + 26) pt (Cast IntToPtr (VInst (n + 25))),
      (case i_op acc of
         Load t p \<Rightarrow> ins (n + 27) (i_ty acc) (Load (i_ty acc) (VInst (n + 26)))
       | Store v p \<Rightarrow> ins (n + 27) TVoid (Store v (VInst (n + 26)))
       | _ \<Rightarrow> acc)]"

text \<open>The runtime's dereference functions are not declared yet, or as what they are.\<close>

definition deref_decl :: "bool \<Rightarrow> fdecl" where
  "deref_decl mut = \<lparr>fd_name = deref_name mut, fd_ret = Int64Type, fd_args = [Int64Type],
                     fd_vararg = False, fd_empty = True\<rparr>"

definition deref_declared :: "bool \<Rightarrow> edit \<Rightarrow> bool" where
  "deref_declared mut e \<longleftrightarrow>
     find_decl (ed_decls e) (deref_name mut) \<in> {None, Some (deref_decl mut)}"

text \<open>Instructions and blocks have numbers below \<open>n\<close>.\<close>

definition below :: "ident \<Rightarrow> block list \<Rightarrow> bool" where
  "below n bs \<longleftrightarrow> (\<forall>b\<in>set bs. b_id b < n \<and> (\<forall>x\<in>set (b_insts b). i_id x < n))"

lemma below_lacks [simp]: "below n bs \<Longrightarrow> n \<le> p \<Longrightarrow> lacks_all p bs"
  by (fastforce simp: below_def lacks_all_def lacks_def)

lemma below_simps [simp]:
  "below n []" "below n (bs @ cs) \<longleftrightarrow> below n bs \<and> below n cs"
  "below n (b # bs) \<longleftrightarrow> b_id b < n \<and> (\<forall>x\<in>set (b_insts b). i_id x < n) \<and> below n bs"
  by (auto simp: below_def)

lemma below_insts [simp]: "\<forall>x\<in>set xs. i_id x < n \<Longrightarrow> n \<le> p \<Longrightarrow> lacks p xs"
  by (fastforce simp: lacks_def)

lemma create_deref_call:
  assumes "deref_declared mut e" "type_of (with_blocks e bs k) v = Int64Type" "v = VInst j"
  shows "\<exists>D. create_function [Int64Type] (deref_name mut) [v] Int64Type p False (with_blocks e bs k) =
    Done (VInst k, with_blocks (e\<lparr>ed_decls := D\<rparr>)
      (map (ins_blk p (ins k Int64Type (Call (VFun (deref_name mut)) [v]))) bs) (k + 1))"
proof -
  obtain D where g: "get_or_insert (deref_name mut) Int64Type [Int64Type] False (with_blocks e bs k) =
      (deref_decl mut, with_blocks (e\<lparr>ed_decls := D\<rparr>) bs k)"
  proof (cases "find_decl (ed_decls e) (deref_name mut)")
    case None
    then show ?thesis
      using that [of "ed_decls e @ [deref_decl mut]"]
      by (cases e) (simp add: get_or_insert_def deref_decl_def with_blocks_def Let_def None)
  next
    case (Some d)
    then have "d = deref_decl mut" using assms(1) by (simp add: deref_declared_def)
    then show ?thesis
      using that [of "ed_decls e"] Some by (simp add: get_or_insert_def with_blocks_def)
  qed
  have "type_of (with_blocks (e\<lparr>ed_decls := D\<rparr>) bs k) v = Int64Type"
    using assms(2,3) by (simp add: find_inst_blocks)
  then have "create_call p (deref_decl mut) [v] (with_blocks (e\<lparr>ed_decls := D\<rparr>) bs k) =
      Done (VInst k, with_blocks (e\<lparr>ed_decls := D\<rparr>)
        (map (ins_blk p (ins k Int64Type (Call (VFun (deref_name mut)) [v]))) bs) (k + 1))"
    by (simp add: create_call_def good_call_def deref_decl_def build_blocks)
  then show ?thesis unfolding create_function_def g by auto
qed

lemma ins_blk_simp: "ins_blk p x \<lparr>b_id = h, b_insts = ys\<rparr> = \<lparr>b_id = h, b_insts = insert_before_in p x ys\<rparr>"
  by (simp add: ins_blk_def)

lemma find_append_lacks: "lacks p xs \<Longrightarrow> find (\<lambda>x. i_id x = p) xs = None"
  by (induction xs) auto

definition repred_insts :: "ident \<Rightarrow> ident \<Rightarrow> inst list \<Rightarrow> inst list" where
  "repred_insts h t = map (\<lambda>x. x\<lparr>i_op := repred_op h t (i_op x)\<rparr>)"

lemma repred_insts_simps:
  "repred_insts h t [] = []" "repred_insts h t (x # xs) = x\<lparr>i_op := repred_op h t (i_op x)\<rparr> # repred_insts h t xs"
  "repred_insts h t (xs @ ys) = repred_insts h t xs @ repred_insts h t ys"
  "lacks p (repred_insts h t xs) = lacks p xs"
  "(\<forall>x\<in>set (repred_insts h t xs). i_id x < n) = (\<forall>x\<in>set xs. i_id x < n)"
  by (simp_all add: repred_insts_def)

lemma repred_blk_simp: "repred h t \<lparr>b_id = k, b_insts = xs\<rparr> = \<lparr>b_id = k, b_insts = repred_insts h t xs\<rparr>"
  by (simp add: repred_def repred_insts_def)

lemmas emit_simps = create_bin_blocks create_icmp_blocks build_blocks ins_blk_simp insert_append
  find_inst_blocks find_lacks find_lacks_all find_append_lacks

lemmas guard_defs = guard_lookup_def guard_slow_def guard_fast_def guard_join_def


lemma join_emits:
  assumes below: "below n bs" "below n ds" "\<forall>x\<in>set xs. i_id x < n" "\<forall>x\<in>set zs. i_id x < n"
    and ids: "h < n"
    and declared: "deref_declared mut e"
    and L_def: "L = [\<lparr>b_id = h, b_insts = xs @ [ins n Int64Type o1, ins (n + 1) Int1Type o2, ins (n + 7) TVoid o3]\<rparr>,
      guard_lookup n cache mut]"
    and R_def: "R = [\<lparr>b_id = n + 4, b_insts = [ins (n + 6) TVoid (Br (n + 2))]\<rparr>, \<lparr>b_id = n + 2, b_insts = zs\<rparr>] @ ds"
    and thn_def: "thn = \<lparr>b_id = n + 15, b_insts = [ins (n + 17) TVoid (Br (n + 14))]\<rparr>"
    and els_def: "els = \<lparr>b_id = n + 16, b_insts = [ins (n + 18) TVoid (Br (n + 14))]\<rparr>"
    and J_def: "\<And>l. J l = \<lparr>b_id = n + 14, b_insts = l @ [ins (n + 5) TVoid (Br (n + 2))]\<rparr>"
    and G_def: "\<And>e ms k. G e ms k = with_blocks e (bs @ L @ ms @ R) k"
  shows "\<exists>D. bindR (create_function [Int64Type] (deref_name mut) [VInst (n + 9)] Int64Type (n + 17) False
        (G e [thn, els, J []] (n + 20))) (\<lambda>(addr, e).
      bindR (block_of (n + 17) e) (\<lambda>then_bb. bindR (block_of (n + 18) e) (\<lambda>else_bb.
        bindR (block_of (n + 5) e) (\<lambda>merge. bindR (front merge e) (\<lambda>q.
          case get_data_addr_from_carm_obj_state (VInst (n + 11)) (n + 18) e of (data, e) \<Rightarrow>
          case build q Int64Type (Phi [(addr, then_bb), (data, else_bb)]) e of (pn, e) \<Rightarrow>
          case create_bin q And (VInst n) (VInt Int64Type OBJ_SIZE_MASK) e of (off, e) \<Rightarrow>
            Done (create_bin q Add pn off e)))))) =
    Done (VInst (n + 24), G (e\<lparr>ed_decls := D\<rparr>) [guard_slow n mut, guard_fast n, guard_join n] (n + 25))"
proof -
  note defs = L_def R_def thn_def els_def J_def G_def guard_lookup_def guard_slow_def guard_fast_def
  note lk = below ids
  have t: "type_of (G e [thn, els, J []] (n + 20)) (VInst (n + 9)) = Int64Type"
    using lk by (simp add: emit_simps defs)
  obtain D where 8: "create_function [Int64Type] (deref_name mut) [VInst (n + 9)] Int64Type (n + 17) False
        (G e [thn, els, J []] (n + 20)) =
      Done (VInst (n + 20), G (e\<lparr>ed_decls := D\<rparr>) [guard_slow n mut, els, J []] (n + 21))"
  proof -
    obtain D where D: "create_function [Int64Type] (deref_name mut) [VInst (n + 9)] Int64Type (n + 17) False
        (G e [thn, els, J []] (n + 20)) =
      Done (VInst (n + 20), with_blocks (e\<lparr>ed_decls := D\<rparr>)
        (map (ins_blk (n + 17) (ins (n + 20) Int64Type (Call (VFun (deref_name mut)) [VInst (n + 9)])))
          (bs @ L @ [thn, els, J []] @ R)) (n + 20 + 1))"
      using create_deref_call [OF declared t [unfolded G_def] refl, of "n + 17"] by (auto simp: G_def)
    moreover have "map (ins_blk (n + 17) (ins (n + 20) Int64Type (Call (VFun (deref_name mut)) [VInst (n + 9)])))
          (bs @ L @ [thn, els, J []] @ R) = bs @ L @ [guard_slow n mut, els, J []] @ R"
      using lk by (simp add: emit_simps defs ac_simps)
    ultimately show ?thesis using that [of D] by (simp add: G_def ac_simps)
  qed
  let ?e = "e\<lparr>ed_decls := D\<rparr>"
  let ?M = "G ?e [guard_slow n mut, els, J []] (n + 21)"
  have 9: "block_of (n + 17) ?M = Done (n + 15)"
    using lk parent_blocks [of "n + 17" "bs @ L" "guard_slow n mut" "[els, J []] @ R"]
    by (simp add: block_of_def parent_def defs)
  have 10: "block_of (n + 18) ?M = Done (n + 16)"
    using lk parent_blocks [of "n + 18" "bs @ L @ [guard_slow n mut]" els "[J []] @ R"]
    by (simp add: block_of_def parent_def defs)
  have 11: "block_of (n + 5) ?M = Done (n + 14)"
    using lk parent_blocks [of "n + 5" "bs @ L @ [guard_slow n mut, els]" "J []" R]
    by (simp add: block_of_def parent_def defs)
  have nb: "k \<notin> b_id ` set bs" if "n \<le> k" for k using below(1) that by (auto simp: below_def)
  have 12: "front (n + 14) ?M = Done (n + 5)"
    using lk nb [of "n + 14"] find_block [of "J []" "bs @ L @ [guard_slow n mut, els]" R]
    by (simp add: front_def defs)
  have 13: "get_data_addr_from_carm_obj_state (VInst (n + 11)) (n + 18) ?M =
      (VInst (n + 21), G ?e [guard_slow n mut, guard_fast n, J []] (n + 22))"
    using lk by (simp add: get_data_addr_from_carm_obj_state_def emit_simps defs ac_simps)
  have 14: "build (n + 5) Int64Type (Phi [(VInst (n + 20), n + 15), (VInst (n + 21), n + 16)])
        (G ?e [guard_slow n mut, guard_fast n, J []] (n + 22)) =
      (VInst (n + 22), G ?e [guard_slow n mut, guard_fast n, J (take 1 (b_insts (guard_join n)))] (n + 23))"
    using lk by (simp add: emit_simps defs guard_join_def ac_simps)
  have 15: "create_bin (n + 5) And (VInst n) (num OBJ_SIZE_MASK)
        (G ?e [guard_slow n mut, guard_fast n, J (take 1 (b_insts (guard_join n)))] (n + 23)) =
      (VInst (n + 23), G ?e [guard_slow n mut, guard_fast n, J (take 2 (b_insts (guard_join n)))] (n + 24))"
    using lk by (simp add: emit_simps defs guard_join_def ac_simps)
  have 16: "create_bin (n + 5) Add (VInst (n + 22)) (VInst (n + 23))
        (G ?e [guard_slow n mut, guard_fast n, J (take 2 (b_insts (guard_join n)))] (n + 24)) =
      (VInst (n + 24), G ?e [guard_slow n mut, guard_fast n, guard_join n] (n + 25))"
    using lk by (simp add: emit_simps defs guard_join_def ac_simps)
  show ?thesis by (intro exI [of _ D]) (simp only: 8 9 10 11 12 13 14 15 16 bindR.simps prod.case)
qed


definition lookup_insts :: "ident \<Rightarrow> val \<Rightarrow> bool \<Rightarrow> inst list" where
  "lookup_insts n cache mut =
     [ins (n + 8) Int64Type (Bin Xor (VInst n) (num CARM_PTR)),
      ins (n + 9) Int64Type (Bin LShr (VInst (n + 8)) (num (of_nat OBJ_SIZE_LOG))),
      ins (n + 10) VoidPointerType (Gep Int64Type cache [VInst (n + 9)]),
      ins (n + 11) Int64Type (Load Int64Type (VInst (n + 10))),
      ins (n + 12) Int64Type (Bin And (VInst (n + 11)) (num (exception_bits mut))),
      ins (n + 13) Int1Type (ICmp NE (VInst (n + 12)) (num 0))]"

text \<open>The table look-up, one instruction after the other.\<close>

lemma lookup_emits:
  fixes e :: edit and mut :: bool
  assumes below: "below n bs" "below n ds" "\<forall>x\<in>set xs. i_id x < n" "\<forall>x\<in>set zs. i_id x < n" "h < n"
    and cache: "\<not> is_const cache"
    and hd: "hb = \<lparr>b_id = h, b_insts = xs @ [ins n Int64Type (Cast PtrToInt ptr),
      ins (n + 1) Int1Type (ICmp UGE (VInst n) (num CARM_PTR)),
      ins (n + 7) TVoid (CondBr (VInst (n + 1)) (n + 3) (n + 4))]\<rparr>"
    and cs: "cs = [\<lparr>b_id = n + 4, b_insts = [ins (n + 6) TVoid (Br (n + 2))]\<rparr>, \<lparr>b_id = n + 2, b_insts = zs\<rparr>] @ ds"
  defines "L \<equiv> \<lambda>i k. with_blocks e ((bs @ [hb]) @ \<lparr>b_id = n + 3, b_insts = take i (lookup_insts n cache mut) @ ins (n + 5) TVoid (Br (n + 2)) # []\<rparr> # cs) k"
  shows "create_bin (n + 5) Xor (VInst n) (num CARM_PTR) (L 0 (n + 8)) = (VInst (n + 8), L 1 (n + 9))"
    and "create_bin (n + 5) LShr (VInst (n + 8)) (num (of_nat OBJ_SIZE_LOG)) (L 1 (n + 9)) = (VInst (n + 9), L 2 (n + 10))"
    and "build (n + 5) VoidPointerType (Gep Int64Type cache [VInst (n + 9)]) (L 2 (n + 10)) = (VInst (n + 10), L 3 (n + 11))"
    and "build (n + 5) Int64Type (Load Int64Type (VInst (n + 10))) (L 3 (n + 11)) = (VInst (n + 11), L 4 (n + 12))"
    and "check_obj_state (VInst (n + 11)) (n + 5) mut (L 4 (n + 12)) = (VInst (n + 12), L 5 (n + 13))"
    and "create_icmp (n + 5) NE (VInst (n + 12)) (num 0) (L 5 (n + 13)) = (VInst (n + 13), L 6 (n + 14))"
  unfolding L_def lookup_insts_def using below
  by (simp_all add: check_obj_state_def emit_simps cs hd ac_simps)

lemma nested_if_emits:
  assumes below: "below n bs" "below n ds" "\<forall>x\<in>set xs. i_id x < n" "\<forall>x\<in>set zs. i_id x < n" "h < n"
    and declared: "deref_declared mut e" and cache: "\<not> is_const cache"
    and hd: "hb = \<lparr>b_id = h, b_insts = xs @ [ins n Int64Type (Cast PtrToInt ptr),
      ins (n + 1) Int1Type (ICmp UGE (VInst n) (num CARM_PTR)),
      ins (n + 7) TVoid (CondBr (VInst (n + 1)) (n + 3) (n + 4))]\<rparr>"
    and cs: "cs = [\<lparr>b_id = n + 4, b_insts = [ins (n + 6) TVoid (Br (n + 2))]\<rparr>, \<lparr>b_id = n + 2, b_insts = zs\<rparr>] @ ds"
    and r: "r = repred (n + 3) (n + 14)"
  shows "\<exists>D. transform_nested_if (n + 5) mut cache (VInst n)
      (with_blocks e (bs @ [hb, \<lparr>b_id = n + 3, b_insts = [ins (n + 5) TVoid (Br (n + 2))]\<rparr>] @ cs) (n + 8)) =
    Done (VInst (n + 24), with_blocks (e\<lparr>ed_decls := D\<rparr>)
      (map r bs @ [r hb, guard_lookup n cache mut, guard_slow n mut, guard_fast n, guard_join n] @ map r cs) (n + 25))"
proof -
  let ?br = "ins (n + 5) TVoid (Br (n + 2))"
  let ?look = "take 6 (lookup_insts n cache mut)"
  let ?E = "\<lambda>l k. with_blocks e ((bs @ [hb]) @ \<lparr>b_id = n + 3, b_insts = l @ ?br # []\<rparr> # cs) k"
  note lk = below and look = lookup_emits [OF below cache hd cs, where e = e and mut = mut]
  let ?thn = "\<lparr>b_id = n + 15, b_insts = [ins (n + 17) TVoid (Br (n + 14))]\<rparr>"
  let ?els = "\<lparr>b_id = n + 16, b_insts = [ins (n + 18) TVoid (Br (n + 14))]\<rparr>"
  let ?rest = "\<lambda>e ms k. with_blocks e (map r bs @ [r hb, guard_lookup n cache mut] @ ms @ map r cs) k"
  have 7: "split_if_then_else (VInst (n + 13)) (n + 5) (?E ?look (n + 14)) =
      Done (n + 17, n + 18, ?rest e [?thn, ?els, \<lparr>b_id = n + 14, b_insts = [] @ [?br]\<rparr>] (n + 20))"
    using lk by (subst split_if_then_else_at) (simp_all add: hd r guard_lookup_def lookup_insts_def ac_simps)
  have r1: "map r cs = [\<lparr>b_id = n + 4, b_insts = [ins (n + 6) TVoid (Br (n + 2))]\<rparr>,
        \<lparr>b_id = n + 2, b_insts = repred_insts (n + 3) (n + 14) zs\<rparr>] @ map r ds"
    by (simp add: cs r repred_blk_simp repred_insts_simps)
  have r2: "r hb = \<lparr>b_id = h, b_insts = repred_insts (n + 3) (n + 14) xs @
      [ins n Int64Type (Cast PtrToInt ptr), ins (n + 1) Int1Type (ICmp UGE (VInst n) (num CARM_PTR)),
       ins (n + 7) TVoid (CondBr (VInst (n + 1)) (n + 3) (n + 4))]\<rparr>"
    by (simp add: hd r repred_blk_simp repred_insts_simps)
  have r2': "[r hb, guard_lookup n cache mut] = [\<lparr>b_id = h, b_insts = repred_insts (n + 3) (n + 14) xs @
      [ins n Int64Type (Cast PtrToInt ptr), ins (n + 1) Int1Type (ICmp UGE (VInst n) (num CARM_PTR)),
       ins (n + 7) TVoid (CondBr (VInst (n + 1)) (n + 3) (n + 4))]\<rparr>, guard_lookup n cache mut]"
    by (simp add: r2)
  have b: "below n (map r bs)" "below n (map r ds)"
    using below by (auto simp: below_def r repred_def)
  have zx: "\<forall>x\<in>set (repred_insts (n + 3) (n + 14) xs). i_id x < n"
    "\<forall>x\<in>set (repred_insts (n + 3) (n + 14) zs). i_id x < n"
    using below by (simp_all add: repred_insts_simps)
  note je = join_emits [where cache = cache, OF b zx below(5) declared r2' r1 refl refl refl refl]
  from je
  obtain D where D: "bindR (create_function [Int64Type] (deref_name mut) [VInst (n + 9)] Int64Type (n + 17) False
        (?rest e [?thn, ?els, \<lparr>b_id = n + 14, b_insts = [] @ [?br]\<rparr>] (n + 20))) (\<lambda>(addr, e).
      bindR (block_of (n + 17) e) (\<lambda>then_bb. bindR (block_of (n + 18) e) (\<lambda>else_bb.
        bindR (block_of (n + 5) e) (\<lambda>merge. bindR (front merge e) (\<lambda>q.
          case get_data_addr_from_carm_obj_state (VInst (n + 11)) (n + 18) e of (data, e) \<Rightarrow>
          case build q Int64Type (Phi [(addr, then_bb), (data, else_bb)]) e of (pn, e) \<Rightarrow>
          case create_bin q And (VInst n) (VInt Int64Type OBJ_SIZE_MASK) e of (off, e) \<Rightarrow>
            Done (create_bin q Add pn off e)))))) =
    Done (VInst (n + 24), ?rest (e\<lparr>ed_decls := D\<rparr>) [guard_slow n mut, guard_fast n, guard_join n] (n + 25))"
    by blast
  have dn: "(if mut then CARM_DEREF_WRITE else CARM_DEREF_READ) = deref_name mut"
    by (simp add: deref_name_def)
  have s: "bs @ [hb, \<lparr>b_id = n + 3, b_insts = [?br]\<rparr>] @ cs =
      (bs @ [hb]) @ \<lparr>b_id = n + 3, b_insts = take 0 (lookup_insts n cache mut) @ ?br # []\<rparr> # cs"
    by simp
  show ?thesis
    unfolding transform_nested_if_def s look prod.case 7 bindR.simps dn D
    by (intro exI [of _ D]) simp
qed


definition ity :: "ident \<Rightarrow> inst list \<Rightarrow> ty option" where
  "ity i xs = map_option i_ty (find (\<lambda>x. i_id x = i) xs)"

lemma ity_simps:
  "ity i [] = None" "ity i (x # xs) = (if i_id x = i then Some (i_ty x) else ity i xs)"
  "ity i (xs @ ys) = (case ity i xs of None \<Rightarrow> ity i ys | Some t \<Rightarrow> Some t)"
proof -
  show "ity i (xs @ ys) = (case ity i xs of None \<Rightarrow> ity i ys | Some t \<Rightarrow> Some t)"
    by (induction xs) (simp_all add: ity_def)
qed (simp_all add: ity_def)

lemma ity_lacks: "lacks i xs \<Longrightarrow> ity i xs = None"
  by (induction xs) (simp_all add: ity_simps)

lemma ity_lacks_all: "lacks_all i bs \<Longrightarrow> ity i (concat (map b_insts bs)) = None"
  by (induction bs) (simp_all add: ity_simps ity_lacks)

lemma ity_repred: "ity i (repred_insts h t xs) = ity i xs"
  by (induction xs) (simp_all add: repred_insts_def ity_simps)

lemma ity_repred_blocks: "ity i (concat (map b_insts (map (repred h t) bs))) = ity i (concat (map b_insts bs))"
proof (induction bs)
  case (Cons b bs)
  have "b_insts (repred h t b) = repred_insts h t (b_insts b)" by (simp add: repred_def repred_insts_def)
  with Cons show ?case by (simp add: ity_simps ity_repred split: option.split)
qed simp

lemma ity_subst_blocks: "ity i (concat (map b_insts (map (subst_blk a w) bs))) = ity i (concat (map b_insts bs))"
proof (induction bs)
  case (Cons b bs)
  have "ity i (map (\<lambda>x. x\<lparr>i_op := map_op (subst_val a w) (i_op x)\<rparr>) xs) = ity i xs" for xs
    by (induction xs) (simp_all add: ity_simps)
  with Cons show ?case by (simp add: ity_simps subst_blk_def split: option.split)
qed simp

lemma type_of_ity: "type_of (with_blocks e bs k) (VInst i) = (case ity i (concat (map b_insts bs)) of None \<Rightarrow> TVoid | Some t \<Rightarrow> t)"
  by (auto simp: find_inst_blocks ity_def split: option.split)

text \<open>A value's type depends on the instructions' types only.\<close>

lemma type_of_same:
  assumes "\<And>i. v = VInst i \<Longrightarrow> ity i (concat (map b_insts bs)) = ity i (concat (map b_insts cs))"
    and "\<And>f. v \<noteq> VFun f"
  shows "type_of (with_blocks (e\<lparr>ed_decls := D\<rparr>) bs k) v = type_of (with_blocks e cs l) v"
proof (cases v)
  case (VInst i)
  with assms(1) show ?thesis by (simp only: type_of_ity)
qed (use assms(2) in simp_all)

lemma access_emits:
  fixes ck acc :: inst
  assumes below: "below n bs" "below n cs" "\<forall>x\<in>set xs. i_id x < n" "\<forall>x\<in>set ys. i_id x < n" "h < n"
      "i_id ck < n" "i_id acc < n"
    and ids: "lacks_all (i_id ck) bs" "lacks_all (i_id ck) cs" "lacks (i_id ck) xs" "lacks (i_id ck) ys"
      "lacks_all (i_id acc) bs" "lacks_all (i_id acc) cs" "lacks (i_id acc) xs" "lacks (i_id acc) ys" "i_id ck \<noteq> i_id acc"
    and W: "\<And>ms k. W ms k = with_blocks e (bs @ [\<lparr>b_id = h, b_insts = xs @ guard_test n ptr\<rparr>] @
       [guard_lookup n cache mut, guard_slow n mut, guard_fast n, guard_join n] @
       [guard_local n, \<lparr>b_id = n + 2, b_insts = ms @ ck # acc # ys\<rparr>] @ cs) k"
    and pt: "pointer_type (W [guard_merge n] (n + 26)) (i_op acc) = Done pt" "is_ptr pt"
  shows "bindR (block_of (i_id acc) (W [] (n + 25))) (\<lambda>merge. bindR (block_of (n + 5) (W [] (n + 25))) (\<lambda>then_bb.
      bindR (block_of (n + 6) (W [] (n + 25))) (\<lambda>else_bb. bindR (front merge (W [] (n + 25))) (\<lambda>q.
        case build q Int64Type (Phi [(VInst (n + 24), then_bb), (VInst n, else_bb)]) (W [] (n + 25)) of (pn, e) \<Rightarrow>
          bindR (new_access q acc pn e) (\<lambda>(new_inst, e).
            bindR (replace_uses (VInst (i_id acc)) new_inst e) (\<lambda>e. Done (i_id acc, e))))))) =
    bindR (replace_uses (VInst (i_id acc)) (VInst (n + 27)) (W (guard_merge n # guard_access n pt acc) (n + 28)))
      (\<lambda>e. Done (i_id acc, e))"
proof -
  let ?P = "bs @ [\<lparr>b_id = h, b_insts = xs @ guard_test n ptr\<rparr>]"
  let ?L = "guard_lookup n cache mut" and ?S = "guard_slow n mut" and ?F = "guard_fast n" and ?J = "guard_join n"
  let ?T = "\<lambda>ms. \<lparr>b_id = n + 2, b_insts = ms @ ck # acc # ys\<rparr>"
  note defs = W guard_lookup_def guard_slow_def guard_fast_def guard_join_def guard_local_def guard_test_def
  have nb: "k \<notin> b_id ` set bs" if "n \<le> k" for k using below(1) that by (auto simp: below_def)
  note lk = below ids
  have 1: "block_of (i_id acc) (W [] (n + 25)) = Done (n + 2)"
    using lk parent_blocks [of "i_id acc" "?P @ [?L, ?S, ?F, ?J, guard_local n]" "?T []" cs]
    by (simp add: block_of_def parent_def defs)
  have 2: "block_of (n + 5) (W [] (n + 25)) = Done (n + 14)"
    using lk parent_blocks [of "n + 5" "?P @ [?L, ?S, ?F]" ?J "[guard_local n, ?T []] @ cs"]
    by (simp add: block_of_def parent_def defs)
  have 3: "block_of (n + 6) (W [] (n + 25)) = Done (n + 4)"
    using lk parent_blocks [of "n + 6" "?P @ [?L, ?S, ?F, ?J]" "guard_local n" "[?T []] @ cs"]
    by (simp add: block_of_def parent_def defs)
  have 4: "front (n + 2) (W [] (n + 25)) = Done (i_id ck)"
    using lk nb [of "n + 2"] find_block [of "?T []" "?P @ [?L, ?S, ?F, ?J, guard_local n]" cs]
    by (simp add: front_def defs)
  have 5: "build (i_id ck) Int64Type (Phi [(VInst (n + 24), n + 14), (VInst n, n + 4)]) (W [] (n + 25)) =
      (VInst (n + 25), W [guard_merge n] (n + 26))"
    using lk by (simp add: emit_simps defs guard_merge_def ac_simps)
  have t25: "type_of (W [guard_merge n] (n + 26)) (VInst (n + 25)) = Int64Type"
    using lk by (simp add: emit_simps defs guard_merge_def)
  have 6: "create_cast (i_id ck) IntToPtr (VInst (n + 25)) pt (W [guard_merge n] (n + 26)) =
      (VInst (n + 26), W [guard_merge n, ins (n + 26) pt (Cast IntToPtr (VInst (n + 25)))] (n + 27))"
  proof -
    have "Int64Type \<noteq> pt" using pt(2) by auto
    then show ?thesis using lk t25
      by (subst W, subst create_cast_blocks) (simp_all add: emit_simps defs guard_merge_def ac_simps)
  qed
  have 7: "new_access (i_id ck) acc (VInst (n + 25)) (W [guard_merge n] (n + 26)) =
      Done (VInst (n + 27), W (guard_merge n # guard_access n pt acc) (n + 28))"
  proof -
    have "(\<exists>t p. i_op acc = Load t p) \<or> (\<exists>v p. i_op acc = Store v p)"
      using pt(1) by (cases "i_op acc") (simp_all add: pointer_type_def)
    then show ?thesis
      unfolding new_access_def pt(1) bindR.simps 6 prod.case using lk
      by (elim disjE exE) (simp_all add: guard_access_def guard_merge_def emit_simps defs ac_simps)
  qed
  show ?thesis by (simp only: 1 2 3 4 5 7 bindR.simps prod.case)
qed

definition guarded ::
    "ident \<Rightarrow> ident \<Rightarrow> val \<Rightarrow> val \<Rightarrow> bool \<Rightarrow> ty \<Rightarrow> inst list \<Rightarrow> inst \<Rightarrow> inst \<Rightarrow> inst list \<Rightarrow> block list" where
  "guarded n h ptr cache mut pt xs ck acc ys =
     [\<lparr>b_id = h, b_insts = xs @ guard_test n ptr\<rparr>, guard_lookup n cache mut, guard_slow n mut,
      guard_fast n, guard_join n, guard_local n,
      \<lparr>b_id = n + 2, b_insts = guard_merge n # guard_access n pt acc @ ck # acc # ys\<rparr>]"

lemmas guard_blocks = guard_test_def guard_lookup_def guard_slow_def guard_fast_def guard_join_def
  guard_local_def guard_merge_def guard_access_def

text \<open>The blocks around \<open>rest\<close>, the code after the join.\<close>

abbreviation framed ::
    "ident \<Rightarrow> ident \<Rightarrow> val \<Rightarrow> val \<Rightarrow> bool \<Rightarrow> block list \<Rightarrow> inst list \<Rightarrow> inst list \<Rightarrow> block list \<Rightarrow> block list" where
  "framed n h ptr cache mut bs xs rest cs \<equiv>
     bs @ [\<lparr>b_id = h, b_insts = xs @ guard_test n ptr\<rparr>] @
     [guard_lookup n cache mut, guard_slow n mut, guard_fast n, guard_join n] @
     [guard_local n, \<lparr>b_id = n + 2, b_insts = rest\<rparr>] @ cs"

text \<open>The test of the pointer and the cut of the block.\<close>

lemma test_emits:
  fixes ck acc :: inst
  assumes blocks: "f_blocks (ed_fun e) = bs @ \<lparr>b_id = h, b_insts = xs @ ck # acc # ys\<rparr> # cs"
    and n: "n = ed_next e"
    and below: "below n bs" "below n cs" "\<forall>x\<in>set xs. i_id x < n" "\<forall>x\<in>set ys. i_id x < n" "h < n"
      "i_id ck < n" "i_id acc < n"
    and ids: "lacks_all (i_id ck) bs" "lacks_all (i_id ck) cs" "lacks (i_id ck) xs" "lacks (i_id ck) ys"
      "i_id ck \<noteq> i_id acc"
    and ck: "i_op ck = Call (VFun CARM_DEREF_DUMMY) [ptr]"
    and ptr: "\<not> is_const ptr" "is_ptr (type_of e ptr)"
  defines "e1 \<equiv> with_blocks e
      (bs @ \<lparr>b_id = h, b_insts = xs @ ins n Int64Type (Cast PtrToInt ptr) # ck # acc # ys\<rparr> # cs) (n + 1)"
    and "e2 \<equiv> with_blocks e (bs @ \<lparr>b_id = h, b_insts = (xs @
      [ins n Int64Type (Cast PtrToInt ptr), ins (n + 1) Int1Type (ICmp UGE (VInst n) (num CARM_PTR))]) @
      ck # acc # ys\<rparr> # cs) (n + 2)"
  shows "create_pointercast (i_id ck) ptr Int64Type e = Done (VInst n, e1)"
    and "create_icmp (i_id ck) UGE (VInst n) (num CARM_PTR) e1 = (VInst (n + 1), e2)"
    and "split_if_then_else (VInst (n + 1)) (i_id ck) e2 =
      Done (n + 5, n + 6, with_blocks e (map (repred h (n + 2)) bs @
        [\<lparr>b_id = h, b_insts = repred_insts h (n + 2) xs @ guard_test n ptr\<rparr>,
         \<lparr>b_id = n + 3, b_insts = [ins (n + 5) TVoid (Br (n + 2))]\<rparr>] @
        [guard_local n, \<lparr>b_id = n + 2, b_insts = ck # repred_insts h (n + 2) (acc # ys)\<rparr>] @
        map (repred h (n + 2)) cs) (n + 8))"
proof -
  have e: "e = with_blocks e (bs @ \<lparr>b_id = h, b_insts = xs @ ck # acc # ys\<rparr> # cs) n"
    using with_blocks_self [of e] by (simp add: blocks n)
  have ty: "is_ptr (type_of (with_blocks e (bs @ \<lparr>b_id = h, b_insts = xs @ ck # acc # ys\<rparr> # cs) n) ptr)"
    using ptr(2) e by simp
  then have ne: "type_of (with_blocks e (bs @ \<lparr>b_id = h, b_insts = xs @ ck # acc # ys\<rparr> # cs) n) ptr \<noteq> Int64Type"
    by auto
  show "create_pointercast (i_id ck) ptr Int64Type e = Done (VInst n, e1)"
    unfolding e1_def using ids ptr(1) ty
    by (subst e) (simp add: create_pointercast_def create_cast_blocks emit_simps ty ne)
  show "create_icmp (i_id ck) UGE (VInst n) (num CARM_PTR) e1 = (VInst (n + 1), e2)"
    unfolding e1_def e2_def using ids below by (simp add: emit_simps)
  have np: "repred_op h (n + 2) (i_op ck) = i_op ck" by (simp add: ck)
  show "split_if_then_else (VInst (n + 1)) (i_id ck) e2 =
      Done (n + 5, n + 6, with_blocks e (map (repred h (n + 2)) bs @
        [\<lparr>b_id = h, b_insts = repred_insts h (n + 2) xs @ guard_test n ptr\<rparr>,
         \<lparr>b_id = n + 3, b_insts = [ins (n + 5) TVoid (Br (n + 2))]\<rparr>] @
        [guard_local n, \<lparr>b_id = n + 2, b_insts = ck # repred_insts h (n + 2) (acc # ys)\<rparr>] @
        map (repred h (n + 2)) cs) (n + 8))"
    unfolding e2_def using ids below
    by (subst split_if_then_else_at)
      (simp_all add: guard_local_def guard_test_def repred_insts_def np ac_simps
        del: add_2_eq_Suc add_2_eq_Suc' One_nat_def)
qed

text \<open>The old access keeps its place; its uses move to the new one.\<close>

lemma uses_move:
  fixes ck acc :: inst and mut :: bool and pt :: ty
  assumes below: "below n bs" "below n cs" "\<forall>x\<in>set xs. i_id x < n" "\<forall>x\<in>set ys. i_id x < n" "h < n"
      "i_id ck < n" "i_id acc < n"
    and ids: "lacks_all (i_id acc) bs" "lacks_all (i_id acc) cs" "lacks (i_id acc) xs" "lacks (i_id acc) ys"
      "i_id ck \<noteq> i_id acc"
    and ck: "i_op ck = Call (VFun CARM_DEREF_DUMMY) [ptr]"
    and ptr: "ptr \<noteq> VInst (i_id acc)" and cache: "cache \<noteq> VInst (i_id acc)"
    and acc: "i_op acc = Load t p \<or> i_op acc = Store v p \<and> i_ty acc = TVoid"
    and self: "p \<noteq> VInst (i_id acc)" "v \<noteq> VInst (i_id acc)"
  defines "s \<equiv> subst_blk (VInst (i_id acc)) (VInst (n + 27))"
  defines "F \<equiv> framed n h ptr cache mut bs xs ((guard_merge n # guard_access n pt acc) @ ck # acc # ys) cs"
  defines "G \<equiv> map s bs @ guarded n h ptr cache mut pt
        (b_insts (s \<lparr>b_id = h, b_insts = xs\<rparr>)) ck acc (b_insts (s \<lparr>b_id = h, b_insts = ys\<rparr>)) @ map s cs"
  shows "replace_uses (VInst (i_id acc)) (VInst (n + 27)) (with_blocks e F k) = Done (with_blocks e G k)"
    and "i < n \<Longrightarrow> ity i (concat (map b_insts G)) = ity i (concat (map b_insts F))"
proof -
  let ?a = "i_id acc"
  have "ity ?a (concat (map b_insts F)) = Some (i_ty acc)"
    using ids below(5-7) acc
    by (auto simp: F_def ity_simps ity_lacks ity_lacks_all guard_blocks simp del: map_map)
  moreover have "lacks_all (n + 27) bs" "lacks_all (n + 27) cs" "lacks (n + 27) xs" "lacks (n + 27) ys"
    using below_lacks [OF below(1), of "n + 27"] below_lacks [OF below(2), of "n + 27"]
      below_insts [OF below(3), of "n + 27"] below_insts [OF below(4), of "n + 27"] by simp_all
  then have "ity (n + 27) (concat (map b_insts F)) = Some (i_ty acc)"
    using below(5-7) acc
    by (auto simp: F_def ity_simps ity_lacks ity_lacks_all guard_blocks simp del: map_map)
  ultimately have t: "type_of (with_blocks e F k) (VInst ?a) = type_of (with_blocks e F k) (VInst (n + 27))"
    by (simp only: type_of_ity)
  have "ck\<lparr>i_op := map_op (subst_val (VInst ?a) w) (i_op ck)\<rparr> = ck" for w
    using ck ptr by (cases ck) (simp add: subst_val_def)
  moreover have "acc\<lparr>i_op := map_op (subst_val (VInst ?a) w) (i_op acc)\<rparr> = acc" for w
    using acc self by (cases acc) (auto simp: subst_val_def)
  ultimately have new: "map s F = G"
    using below(7) ptr cache acc self
    by (auto simp: F_def G_def s_def subst_blk_def subst_val_def guarded_def guard_blocks simp del: map_map)
  show "replace_uses (VInst ?a) (VInst (n + 27)) (with_blocks e F k) = Done (with_blocks e G k)"
    using t by (simp only: replace_uses_blocks new [unfolded s_def])
  show "ity i (concat (map b_insts G)) = ity i (concat (map b_insts F))"
    unfolding new [symmetric] s_def by (rule ity_subst_blocks)
qed

text \<open>The code one marker is turned into.\<close>

lemma check_emits:
  fixes ck acc :: inst
  assumes blocks: "f_blocks (ed_fun e) = bs @ \<lparr>b_id = h, b_insts = xs @ ck # acc # ys\<rparr> # cs"
    and n: "n = ed_next e"
    and below: "below n bs" "below n cs" "\<forall>x\<in>set xs. i_id x < n" "\<forall>x\<in>set ys. i_id x < n" "h < n"
      "i_id ck < n" "i_id acc < n"
    and ids: "lacks_all (i_id ck) bs" "lacks_all (i_id ck) cs" "lacks (i_id ck) xs" "lacks (i_id ck) ys"
      "lacks_all (i_id acc) bs" "lacks_all (i_id acc) cs" "lacks (i_id acc) xs" "lacks (i_id acc) ys" "i_id ck \<noteq> i_id acc"
    and ck: "i_op ck = Call (VFun CARM_DEREF_DUMMY) [ptr]"
    and ptr: "\<not> is_const ptr" "is_ptr (type_of e ptr)" "ptr \<noteq> VInst (i_id acc)"
    and cache: "\<not> is_const cache" "cache \<noteq> VInst (i_id acc)"
    and acc: "i_op acc = Load t p \<or> i_op acc = Store v p \<and> i_ty acc = TVoid"
    and self: "p \<noteq> VInst (i_id acc)" "v \<noteq> VInst (i_id acc)"
    and p: "\<And>i. p = VInst i \<Longrightarrow> i < n" "is_ptr (type_of e p)" "\<And>f. p \<noteq> VFun f"
    and mut: "mut = (\<not> is_load (i_op acc))" and declared: "deref_declared mut e"
  shows "\<exists>D bs' cs' xs' ys'. transform_check cache (i_id ck, Some (i_id acc)) e =
      Done (i_id acc, with_blocks (e\<lparr>ed_decls := D\<rparr>)
        (bs' @ guarded n h ptr cache mut (type_of e p) xs' ck acc ys' @ cs') (n + 28)) \<and>
    map b_id bs' = map b_id bs \<and> length xs' = length xs \<and>
    (\<forall>i<n. ity i (concat (map b_insts (bs' @ guarded n h ptr cache mut (type_of e p) xs' ck acc ys' @ cs'))) =
       ity i (insts (ed_fun e)))"
proof -
  let ?c = "i_id ck" and ?a = "i_id acc" and ?pt = "type_of e p"
  have e: "e = with_blocks e (bs @ \<lparr>b_id = h, b_insts = xs @ ck # acc # ys\<rparr> # cs) n"
    using with_blocks_self [of e] by (simp add: blocks n)
  have find: "find_inst e ?c = Some ck" "find_inst e ?a = Some acc"
    using ids by (subst e; simp add: emit_simps)+
  note test = test_emits [OF blocks n below ids(1-4,9) ck ptr(1,2)]
  let ?r1 = "repred h (n + 2)" and ?i1 = "repred_insts h (n + 2)"
  let ?r = "repred (n + 3) (n + 14)" and ?i = "repred_insts (n + 3) (n + 14)"
  let ?hb = "\<lparr>b_id = h, b_insts = ?i1 xs @ guard_test n ptr\<rparr>"
  let ?R = "[guard_local n, \<lparr>b_id = n + 2, b_insts = ck # ?i1 (acc # ys)\<rparr>] @ map ?r1 cs"
  let ?bs = "map ?r (map ?r1 bs)" and ?cs = "map ?r (map ?r1 cs)" and ?xs = "?i (?i1 xs)" and ?ys = "?i (?i1 ys)"
  let ?F = "\<lambda>ms. framed n h ptr cache mut ?bs ?xs (ms @ ck # acc # ?ys) ?cs"
  have bl: "below n (map ?r1 bs)" "below n (map ?r1 cs)" "\<forall>x\<in>set (?i1 xs). i_id x < n"
      "\<forall>x\<in>set (ck # ?i1 (acc # ys)). i_id x < n"
    using below by (auto simp: below_def repred_def repred_insts_simps)
  have nc: "repred_op b1 b2 (i_op ck) = i_op ck" "repred_op b1 b2 (i_op acc) = i_op acc" for b1 b2
    using ck acc by auto
  obtain D where D: "transform_nested_if (n + 5) mut cache (VInst n)
      (with_blocks e (map ?r1 bs @ [?hb, \<lparr>b_id = n + 3, b_insts = [ins (n + 5) TVoid (Br (n + 2))]\<rparr>] @ ?R) (n + 8)) =
    Done (VInst (n + 24), with_blocks (e\<lparr>ed_decls := D\<rparr>) (?F []) (n + 25))"
    using nested_if_emits [OF bl below(5) declared cache(1), of ?hb ptr ?R ?r]
    by (auto simp: guard_test_def guard_local_def repred_blk_simp repred_insts_simps nc)
  have bl2: "below n ?bs" "below n ?cs" "\<forall>x\<in>set ?xs. i_id x < n" "\<forall>x\<in>set ?ys. i_id x < n"
    using below by (auto simp: below_def repred_def repred_insts_def)
  have ids2: "lacks_all ?c ?bs" "lacks_all ?c ?cs" "lacks ?c ?xs" "lacks ?c ?ys"
      "lacks_all ?a ?bs" "lacks_all ?a ?cs" "lacks ?a ?xs" "lacks ?a ?ys"
    using ids by (simp_all add: repred_insts_simps del: map_map)
  have keep: "ity i (concat (map b_insts (?F ms))) = ity i (insts (ed_fun e))"
    if "i < n" "ms = [guard_merge n] \<or> ms = guard_merge n # guard_access n ?pt acc" for i ms
    using that acc by (auto simp: insts_def blocks ity_simps ity_repred ity_repred_blocks guard_blocks
      simp del: map_map split: option.split)
  have same: "type_of (with_blocks (e\<lparr>ed_decls := D\<rparr>) (?F [guard_merge n]) (n + 26)) p = ?pt"
  proof -
    have "type_of (with_blocks (e\<lparr>ed_decls := D\<rparr>) (?F [guard_merge n]) (n + 26)) p =
        type_of (with_blocks e (bs @ \<lparr>b_id = h, b_insts = xs @ ck # acc # ys\<rparr> # cs) n) p"
      using p keep [of _ "[guard_merge n]"] by (intro type_of_same) (auto simp: insts_def blocks)
    then show ?thesis using e by simp
  qed
  have "pointer_type (with_blocks (e\<lparr>ed_decls := D\<rparr>) (?F [guard_merge n]) (n + 26)) (i_op acc) = Done ?pt"
    using acc same by (auto simp: pointer_type_def)
  note ae = access_emits [OF bl2 below(5-7) ids2 ids(9) refl this p(2)]
  note mv = uses_move [OF bl2 below(5-7) ids2(5-8) ids(9) ck ptr(3) cache(2) acc self,
    where mut = mut and pt = ?pt]
  let ?s = "subst_blk (VInst ?a) (VInst (n + 27))"
  have opn: "op_operands (i_op ck) = [ptr, VFun CARM_DEREF_DUMMY]" by (simp add: ck)
  show ?thesis
  proof (intro exI conjI)
    show "transform_check cache (?c, Some ?a) e =
      Done (?a, with_blocks (e\<lparr>ed_decls := D\<rparr>) (map ?s ?bs @ guarded n h ptr cache mut ?pt
        (b_insts (?s \<lparr>b_id = h, b_insts = ?xs\<rparr>)) ck acc (b_insts (?s \<lparr>b_id = h, b_insts = ?ys\<rparr>)) @ map ?s ?cs) (n + 28))"
      unfolding transform_check_def
      by (simp only: find prod.case option.case opn list.case Let_def mut [symmetric] test D ae mv(1) bindR.simps)
    show "\<forall>i<n. ity i (concat (map b_insts (map ?s ?bs @ guarded n h ptr cache mut ?pt
        (b_insts (?s \<lparr>b_id = h, b_insts = ?xs\<rparr>)) ck acc (b_insts (?s \<lparr>b_id = h, b_insts = ?ys\<rparr>)) @ map ?s ?cs))) =
      ity i (insts (ed_fun e))"
      by (intro allI impI trans [OF mv(2) keep]) (assumption | rule disjI2 | rule refl)+
  qed (simp_all add: repred_def subst_blk_def repred_insts_def)
qed

end
