(* ===== verification/IR_Exec.thy ===== *)
theory IR_Exec
  imports IR Libc_Str
begin

text \<open>
  Execution of the instructions the passes emit, over the state of the runtime: words, and
  addresses in the runtime's state table, which is reached only through the global
  \<open>carm_obj_state\<close>. Calls and all other instructions are parameters of the machine.
\<close>

datatype dval = W u64 | Tab u64

type_synonym regs = "ident \<Rightarrow> dval option"

record 'e machine =
  mc_args :: "dval list"
  mc_glob :: "string \<Rightarrow> u64"
  mc_call :: "string \<Rightarrow> dval list \<Rightarrow> 'e rt \<Rightarrow> (dval \<times> 'e rt) run"
  mc_other :: "op \<Rightarrow> dval list \<Rightarrow> 'e rt \<Rightarrow> (dval \<times> 'e rt) run"

record 'e conf =
  c_blk :: ident
  c_prev :: ident
  c_rem :: "inst list"
  c_env :: regs
  c_st :: "'e rt"

section \<open>Values\<close>

definition clip :: "ty \<Rightarrow> u64 \<Rightarrow> u64" where
  "clip t x = (case t of TInt n \<Rightarrow> take_bit n x | _ \<Rightarrow> x)"

fun bin_word :: "binop \<Rightarrow> u64 \<Rightarrow> u64 \<Rightarrow> u64 option" where
  "bin_word And a b = Some (a AND b)"
| "bin_word Xor a b = Some (a XOR b)"
| "bin_word Add a b = Some (a + b)"
| "bin_word Sub a b = Some (a - b)"
| "bin_word Mul a b = Some (a * b)"
| "bin_word LShr a b = Some (drop_bit (unat b) a)"
| "bin_word (BinOther s) a b = None"

fun icmp_word :: "icmp \<Rightarrow> u64 \<Rightarrow> u64 \<Rightarrow> bool option" where
  "icmp_word NE a b = Some (a \<noteq> b)"
| "icmp_word UGE a b = Some (b \<le> a)"
| "icmp_word (PredOther s) a b = None"

definition bin_val :: "binop \<Rightarrow> ty \<Rightarrow> dval option \<Rightarrow> dval option \<Rightarrow> dval option" where
  "bin_val b t v w = (case (v, w) of
     (Some (W x), Some (W y)) \<Rightarrow> map_option (\<lambda>z. W (clip t z)) (bin_word b x y) | _ \<Rightarrow> None)"

definition icmp_val :: "icmp \<Rightarrow> dval option \<Rightarrow> dval option \<Rightarrow> dval option" where
  "icmp_val c v w = (case (v, w) of
     (Some (W x), Some (W y)) \<Rightarrow> map_option (\<lambda>z. W (if z then 1 else 0)) (icmp_word c x y) | _ \<Rightarrow> None)"

definition cast_val :: "castop \<Rightarrow> ty \<Rightarrow> dval option \<Rightarrow> dval option" where
  "cast_val c t v = (case v of
     Some (W x) \<Rightarrow> (case c of SExt \<Rightarrow> None | CastOther s \<Rightarrow> None | _ \<Rightarrow> Some (W (clip t x)))
   | _ \<Rightarrow> None)"

fun eval :: "'e machine \<Rightarrow> regs \<Rightarrow> val \<Rightarrow> dval option" where
  "eval M r (VInst i) = r i"
| "eval M r (VArg n) = (if n < length (mc_args M) then Some (mc_args M ! n) else None)"
| "eval M r (VInt t c) = Some (W (clip t c))"
| "eval M r (VNull t) = Some (W 0)"
| "eval M r (VGlob g t) = Some (W (mc_glob M g))"
| "eval M r (VCastC c v t) = cast_val c t (eval M r v)"
| "eval M r (VBinC b v w t) = bin_val b t (eval M r v) (eval M r w)"
| "eval M r (VICmpC c v w) = icmp_val c (eval M r v) (eval M r w)"
| "eval M r _ = None"

text \<open>Every instruction a value refers to has a number below \<open>n\<close>.\<close>

fun val_below :: "ident \<Rightarrow> val \<Rightarrow> bool" where
  "val_below n (VInst i) \<longleftrightarrow> i < n"
| "val_below n (VCastC c v t) \<longleftrightarrow> val_below n v"
| "val_below n (VBinC b v w t) \<longleftrightarrow> val_below n v \<and> val_below n w"
| "val_below n (VICmpC c v w) \<longleftrightarrow> val_below n v \<and> val_below n w"
| "val_below n v \<longleftrightarrow> True"

lemma eval_below: "val_below n v \<Longrightarrow> \<forall>j<n. r j = r' j \<Longrightarrow> eval M r v = eval M r' v"
  by (induction n v rule: val_below.induct) simp_all

lemma val_below_mono: "val_below n v \<Longrightarrow> n \<le> m \<Longrightarrow> val_below m v"
  by (induction n v rule: val_below.induct) simp_all

section \<open>Memory\<close>

definition bytes_of :: "ty \<Rightarrow> nat" where
  "bytes_of t = (if is_ptr t then 8 else (bits t + 7) div 8)"

text \<open>Types whose values are whole bytes and fit a word.\<close>

definition plain :: "ty \<Rightarrow> bool" where
  "plain t \<longleftrightarrow> is_ptr t \<or> 0 < bits t \<and> bits t \<le> 64 \<and> bits t mod 8 = 0"

fun load_le :: "memory \<Rightarrow> ptr \<Rightarrow> nat \<Rightarrow> u64" where
  "load_le m a 0 = 0"
| "load_le m a (Suc n) = ucast (m a) OR push_bit 8 (load_le m (a + 1) n)"

fun store_le :: "memory \<Rightarrow> ptr \<Rightarrow> nat \<Rightarrow> u64 \<Rightarrow> memory" where
  "store_le m a 0 x = m"
| "store_le m a (Suc n) x = store_le (m(a := ucast x)) (a + 1) n (drop_bit 8 x)"

text \<open>The global that holds the address of the table, and the table's entries.\<close>

definition load_from :: "'e machine \<Rightarrow> regs \<Rightarrow> ty \<Rightarrow> val \<Rightarrow> 'e rt \<Rightarrow> dval run" where
  "load_from M r t p s =
     (if (\<exists>u. p = VGlob ''carm_obj_state'' u) then Done (Tab 0)
      else case eval M r p of
             Some (W a) \<Rightarrow> if plain t then Done (W (load_le (mem s) a (bytes_of t))) else Faulted
           | Some (Tab i) \<Rightarrow> if i < TOTAL_OBJECTS then Done (W (obj_state s i)) else Faulted
           | None \<Rightarrow> Faulted)"

text \<open>The type of the value a store writes.\<close>

definition val_ty :: "func \<Rightarrow> val \<Rightarrow> ty" where
  "val_ty F v = type_of \<lparr>ed_decls = [], ed_globals = [], ed_fun = F, ed_next = 0\<rparr> v"

section \<open>Steps\<close>

definition of_opt :: "'a option \<Rightarrow> 'a run" where
  "of_opt x = (case x of None \<Rightarrow> Faulted | Some y \<Rightarrow> Done y)"

fun eval_all :: "'e machine \<Rightarrow> regs \<Rightarrow> val list \<Rightarrow> dval list run" where
  "eval_all M r [] = Done []"
| "eval_all M r (v # vs) =
     bindR (of_opt (eval M r v)) (\<lambda>x. bindR (eval_all M r vs) (\<lambda>xs. Done (x # xs)))"

text \<open>The value and the state after an instruction that is not a terminator and not a phi.\<close>

definition exec_op :: "func \<Rightarrow> 'e machine \<Rightarrow> regs \<Rightarrow> ty \<Rightarrow> op \<Rightarrow> 'e rt \<Rightarrow> (dval \<times> 'e rt) run" where
  "exec_op F M r t o1 s =
     (case o1 of
        Load lt p \<Rightarrow> bindR (load_from M r t p s) (\<lambda>v. Done (v, s))
      | Store v p \<Rightarrow>
          (case (eval M r v, eval M r p) of
             (Some (W x), Some (W a)) \<Rightarrow>
               if plain (val_ty F v)
               then Done (W 0, s\<lparr>mem := store_le (mem s) a (bytes_of (val_ty F v)) x\<rparr>) else Faulted
           | _ \<Rightarrow> Faulted)
      | Gep gt p is \<Rightarrow>
          (case (eval M r p, is) of
             (Some (Tab j), [k]) \<Rightarrow>
               (case eval M r k of Some (W i) \<Rightarrow> Done (Tab (j + i), s) | _ \<Rightarrow> Faulted)
           | _ \<Rightarrow> bindR (eval_all M r (p # is)) (\<lambda>xs. mc_other M o1 xs s))
      | Cast c v \<Rightarrow> bindR (of_opt (cast_val c t (eval M r v))) (\<lambda>v. Done (v, s))
      | Bin b v w \<Rightarrow> bindR (of_opt (bin_val b t (eval M r v) (eval M r w))) (\<lambda>v. Done (v, s))
      | ICmp c v w \<Rightarrow> bindR (of_opt (icmp_val c (eval M r v) (eval M r w))) (\<lambda>v. Done (v, s))
      | Call (VFun f) as \<Rightarrow> bindR (eval_all M r as) (\<lambda>xs. mc_call M f xs s)
      | _ \<Rightarrow> bindR (eval_all M r (op_operands o1)) (\<lambda>xs. mc_other M o1 xs s))"

text \<open>The phis of a block, all read before any is written.\<close>

fun phi_values :: "'e machine \<Rightarrow> regs \<Rightarrow> ident \<Rightarrow> inst list \<Rightarrow> (ident \<times> dval) list run" where
  "phi_values M r prev [] = Done []"
| "phi_values M r prev (x # xs) =
     (case i_op x of
        Phi vs \<Rightarrow>
          (case find (\<lambda>(v, b). b = prev) vs of
             None \<Rightarrow> Faulted
           | Some (v, b) \<Rightarrow> bindR (of_opt (eval M r v)) (\<lambda>y.
               bindR (phi_values M r prev xs) (\<lambda>ys. Done ((i_id x, y) # ys))))
      | _ \<Rightarrow> Done [])"

definition goto_block :: "func \<Rightarrow> 'e machine \<Rightarrow> ident \<Rightarrow> 'e conf \<Rightarrow> 'e conf run" where
  "goto_block F M b c =
     (case find (\<lambda>x. b_id x = b) (f_blocks F) of
        None \<Rightarrow> Faulted
      | Some B \<Rightarrow>
          bindR (phi_values M (c_env c) (c_blk c) (b_insts B)) (\<lambda>vs.
            Done (c\<lparr>c_blk := b, c_prev := c_blk c,
                    c_rem := dropWhile (\<lambda>x. is_phi (i_op x)) (b_insts B),
                    c_env := c_env c ++ map_of vs\<rparr>)))"

definition step :: "func \<Rightarrow> 'e machine \<Rightarrow> 'e conf \<Rightarrow> 'e conf run" where
  "step F M c =
     (case c_rem c of
        [] \<Rightarrow> Faulted
      | x # xs \<Rightarrow>
          (case i_op x of
             Br b \<Rightarrow> goto_block F M b c
           | CondBr v t f \<Rightarrow>
               (case eval M (c_env c) v of
                  Some (W w) \<Rightarrow> goto_block F M (if w \<noteq> 0 then t else f) c
                | _ \<Rightarrow> Faulted)
           | o1 \<Rightarrow>
               if is_term o1 then Faulted
               else bindR (exec_op F M (c_env c) (i_ty x) o1 (c_st c)) (\<lambda>(v, s).
                      Done (c\<lparr>c_rem := xs, c_env := (c_env c)(i_id x \<mapsto> v), c_st := s\<rparr>))))"

fun steps :: "nat \<Rightarrow> func \<Rightarrow> 'e machine \<Rightarrow> 'e conf \<Rightarrow> 'e conf run" where
  "steps 0 F M c = Done c"
| "steps (Suc n) F M c = bindR (step F M c) (steps n F M)"

text \<open>The machine's calls of the runtime's dereference functions are the model's.\<close>

definition runtime_calls :: "'e env_ops \<Rightarrow> 'e machine \<Rightarrow> bool" where
  "runtime_calls E M \<longleftrightarrow>
     (\<forall>i s. mc_call M ''_Z15carm_deref_readm'' [W i] s =
        bindR (carm_deref_read E i s) (\<lambda>(a, s). Done (W a, s))) \<and>
     (\<forall>i s. mc_call M ''_Z16carm_deref_writem'' [W i] s =
        bindR (carm_deref_write E i s) (\<lambda>(a, s). Done (W a, s)))"

lemma steps_add: "steps (m + n) F M c = bindR (steps m F M c) (steps n F M)"
proof (induction m arbitrary: c)
  case (Suc m)
  then show ?case by (cases "step F M c") simp_all
qed simp

lemma steps_trans:
  "steps m F M c = Done d \<Longrightarrow> steps n F M d = Done f \<Longrightarrow> steps (m + n) F M c = Done f"
  by (simp add: steps_add)

end
