(* ===== verification/Guard_Exec.thy ===== *)
theory Guard_Exec
  imports Guard_Emit IR_Exec Fast_Path
begin

text \<open>
  Running the code of one marker, block by block: for a remote pointer it computes what
  \<open>_ptrDeref\<close> computes, in the state \<open>_ptrDeref\<close> leaves; a local pointer is used as it is.
\<close>

definition at_block :: "ident \<Rightarrow> ident \<Rightarrow> inst list \<Rightarrow> regs \<Rightarrow> 'e rt \<Rightarrow> 'e conf" where
  "at_block b prev xs r s = \<lparr>c_blk = b, c_prev = prev, c_rem = xs, c_env = r, c_st = s\<rparr>"

lemma at_block_simps:
  "c_blk (at_block b pr xs r s) = b" "c_rem (at_block b pr xs r s) = xs"
  "c_env (at_block b pr xs r s) = r" "c_st (at_block b pr xs r s) = s"
  "(at_block b pr xs r s)\<lparr>c_rem := ys, c_env := r', c_st := s'\<rparr> = at_block b pr ys r' s'"
  "(at_block b pr xs r s)\<lparr>c_blk := b', c_prev := pr', c_rem := ys, c_env := r'\<rparr> = at_block b' pr' ys r' s"
  by (simp_all add: at_block_def)

lemma steps_numeral: "steps (numeral k) F M c = bindR (step F M c) (steps (pred_numeral k) F M)"
  by (simp add: numeral_eq_Suc)

lemma steps_1: "steps 1 F M c = step F M c" "steps (Suc 0) F M c = step F M c"
  by (cases "step F M c"; simp)+

lemma clip_64: "clip Int64Type x = x"
  by (simp add: clip_def take_bit_word_eq_self)

lemma clip_1: "clip Int1Type 1 = 1" "clip Int1Type 0 = 0"
  by (simp_all add: clip_def)

lemmas exec_simps = steps_numeral steps_1 step_def exec_op_def goto_block_def at_block_simps load_from_def
  of_opt_def cast_val_def bin_val_def icmp_val_def clip_64 clip_1

text \<open>Where control goes in a function that holds the code of one marker.\<close>

definition holds_guard ::
    "func \<Rightarrow> ident \<Rightarrow> ident \<Rightarrow> val \<Rightarrow> ident \<Rightarrow> bool \<Rightarrow> ty \<Rightarrow> inst list \<Rightarrow> inst \<Rightarrow> inst \<Rightarrow> inst list \<Rightarrow> bool" where
  "holds_guard F n h ptr c mut pt xs ck acc ys \<longleftrightarrow> h < n \<and> c < n \<and>
     (\<exists>bs cs. f_blocks F = bs @ guarded n h ptr (VInst c) mut pt xs ck acc ys @ cs \<and>
        (\<forall>b\<in>set bs. b_id b < n))"

lemma find_below: "\<forall>b\<in>set bs. b_id b < n \<Longrightarrow> n \<le> (k :: nat) \<Longrightarrow>
  find (\<lambda>b. b_id b = k) (bs @ cs) = find (\<lambda>b. b_id b = k) cs"
  by (induction bs) auto

lemma guard_blocks:
  assumes "holds_guard F n h ptr c mut pt xs ck acc ys"
  shows "find (\<lambda>b. b_id b = n + 3) (f_blocks F) = Some (guard_lookup n (VInst c) mut)"
    "find (\<lambda>b. b_id b = n + 4) (f_blocks F) = Some (guard_local n)"
    "find (\<lambda>b. b_id b = n + 15) (f_blocks F) = Some (guard_slow n mut)"
    "find (\<lambda>b. b_id b = n + 16) (f_blocks F) = Some (guard_fast n)"
    "find (\<lambda>b. b_id b = n + 14) (f_blocks F) = Some (guard_join n)"
    "find (\<lambda>b. b_id b = n + 2) (f_blocks F) =
       Some \<lparr>b_id = n + 2, b_insts = guard_merge n # guard_access n pt acc @ ck # acc # ys\<rparr>"
  using assms
  by (auto simp: holds_guard_def find_below guarded_def guard_lookup_def guard_slow_def guard_fast_def
      guard_join_def guard_local_def)

lemma run_test:
  assumes g: "holds_guard F n h ptr c mut pt xs ck acc ys" and p: "eval M r ptr = Some (W pv)"
  defines "r1 \<equiv> r(n \<mapsto> W pv, n + 1 \<mapsto> W (if CARM_PTR \<le> pv then 1 else 0))"
  shows "steps 3 F M (at_block h pr (guard_test n ptr) r s) = Done
     (if CARM_PTR \<le> pv then at_block (n + 3) h (b_insts (guard_lookup n (VInst c) mut)) r1 s
      else at_block (n + 4) h (b_insts (guard_local n)) r1 s)"
  using p guard_blocks(1,2) [OF g]
  by (simp add: guard_test_def exec_simps r1_def guard_lookup_def guard_local_def
    del: One_nat_def add_2_eq_Suc add_2_eq_Suc')


lemma run_lookup:
  assumes g: "holds_guard F n h ptr c mut pt xs ck acc ys"
    and r: "r n = Some (W pv)" "r c = Some (Tab 0)" and i: "i = (pv XOR CARM_PTR) div OBJ_SIZE" "i < TOTAL_OBJECTS"
  shows "\<exists>r1. steps 7 F M (at_block (n + 3) pr (b_insts (guard_lookup n (VInst c) mut)) r s) = Done
     (if obj_state s i AND exception_bits mut \<noteq> 0
      then at_block (n + 15) (n + 3) (b_insts (guard_slow n mut)) r1 s
      else at_block (n + 16) (n + 3) (b_insts (guard_fast n)) r1 s) \<and>
    r1 (n + 9) = Some (W i) \<and> r1 (n + 11) = Some (W (obj_state s i)) \<and> (\<forall>j\<le>n. r1 j = r j)"
proof -
  have c: "c < n" using g by (simp add: holds_guard_def)
  have d: "drop_bit (unat (of_nat OBJ_SIZE_LOG :: u64)) (pv XOR CARM_PTR) = i"
    by (simp add: i(1) OBJ_SIZE_LOG_def OBJ_SIZE_def drop_bit_eq_div)
  show ?thesis
    by (intro exI [of _ "r(n + 8 \<mapsto> W (pv XOR CARM_PTR), n + 9 \<mapsto> W i, n + 10 \<mapsto> Tab i,
        n + 11 \<mapsto> W (obj_state s i), n + 12 \<mapsto> W (obj_state s i AND exception_bits mut),
        n + 13 \<mapsto> W (if obj_state s i AND exception_bits mut \<noteq> 0 then 1 else 0))"])
     (use r c guard_blocks(3,4) [OF g] i(2) in \<open>simp add: guard_lookup_def exec_simps guard_slow_def guard_fast_def d
        del: keep_sums drop_bit_xor\<close>)
qed

lemma run_slow:
  assumes g: "holds_guard F n h ptr c mut pt xs ck acc ys" and calls: "runtime_calls E M"
    and r: "r (n + 9) = Some (W i)"
    and op: "(if mut then carm_deref_write E i s else carm_deref_read E i s) = Done (a, s')"
  shows "steps 2 F M (at_block (n + 15) pr (b_insts (guard_slow n mut)) r s) =
    bindR (phi_values M (r(n + 20 \<mapsto> W a)) (n + 15) (b_insts (guard_join n))) (\<lambda>vs.
      Done (at_block (n + 14) (n + 15) (tl (b_insts (guard_join n))) (r(n + 20 \<mapsto> W a) ++ map_of vs) s'))"
proof -
  have "mc_call M (deref_name mut) [W i] s = Done (W a, s')"
    using calls op by (cases mut) (simp_all add: runtime_calls_def deref_name_def CARM_DEREF_READ_def CARM_DEREF_WRITE_def)
  then show ?thesis using r guard_blocks(5) [OF g]
    by (simp add: guard_slow_def guard_join_def exec_simps del: keep_sums)
qed

lemma run_fast:
  assumes g: "holds_guard F n h ptr c mut pt xs ck acc ys" and r: "r (n + 11) = Some (W x)"
  defines "r1 \<equiv> r(n + 21 \<mapsto> W (drop_bit kObjectDataAddrBitPos x))"
  shows "steps 2 F M (at_block (n + 16) pr (b_insts (guard_fast n)) r s) =
    bindR (phi_values M r1 (n + 16) (b_insts (guard_join n))) (\<lambda>vs.
      Done (at_block (n + 14) (n + 16) (tl (b_insts (guard_join n))) (r1 ++ map_of vs) s))"
proof -
  have "drop_bit (unat (of_nat kObjectDataAddrBitPos :: u64)) x = drop_bit kObjectDataAddrBitPos x"
    by (simp add: kObjectDataAddrBitPos_def)
  then show ?thesis using r guard_blocks(5) [OF g]
    by (simp add: guard_fast_def guard_join_def exec_simps r1_def del: keep_sums)
qed


text \<open>What follows the join of the two ways in: the original access and its marker are still there.\<close>

abbreviation after_guard :: "ident \<Rightarrow> ty \<Rightarrow> inst \<Rightarrow> inst \<Rightarrow> inst list \<Rightarrow> inst list" where
  "after_guard n pt ck acc ys \<equiv> guard_access n pt acc @ ck # acc # ys"

lemma guard_access_no_phi:
  "dropWhile (\<lambda>x. is_phi (i_op x)) (after_guard n pt ck acc ys) = after_guard n pt ck acc ys"
  "phi_values M r p (after_guard n pt ck acc ys) = Done []"
  by (simp_all add: guard_access_def)

lemma run_join:
  assumes g: "holds_guard F n h ptr c mut pt xs ck acc ys"
    and r: "r (n + 22) = Some (W d)" "r n = Some (W pv)"
  shows "\<exists>r1. steps 3 F M (at_block (n + 14) pr (tl (b_insts (guard_join n))) r s) =
      Done (at_block (n + 2) (n + 14) (after_guard n pt ck acc ys) r1 s) \<and>
    r1 (n + 25) = Some (W (d + (pv AND OBJ_SIZE_MASK))) \<and> (\<forall>j<n. r1 j = r j)"
  using r guard_blocks(6) [OF g]
  by (intro exI [of _ "r(n + 23 \<mapsto> W (pv AND OBJ_SIZE_MASK), n + 24 \<mapsto> W (d + (pv AND OBJ_SIZE_MASK)),
       n + 25 \<mapsto> W (d + (pv AND OBJ_SIZE_MASK)))"])
    (simp add: guard_join_def exec_simps guard_access_no_phi guard_merge_def
      del: keep_sums append.simps)

lemma run_local:
  assumes g: "holds_guard F n h ptr c mut pt xs ck acc ys" and r: "r n = Some (W pv)"
  shows "steps 1 F M (at_block (n + 4) pr (b_insts (guard_local n)) r s) =
      Done (at_block (n + 2) (n + 4) (after_guard n pt ck acc ys) (r(n + 25 \<mapsto> W pv)) s)"
  using r guard_blocks(6) [OF g]
  by (simp add: guard_local_def exec_simps guard_access_no_phi guard_merge_def del: keep_sums append.simps)


section \<open>The guard and the runtime's dereference\<close>

lemma remote_ge: "check_carm_object p \<Longrightarrow> CARM_PTR \<le> p"
proof -
  assume "check_carm_object p"
  then have b: "bit p 60" by (simp add: check_bit)
  have "p AND CARM_PTR = CARM_PTR" by (rule bit_eqI) (use b in \<open>auto simp: bit_simps\<close>)
  then show ?thesis by (metis word_and_le2)
qed

lemma offset_mask: "p AND OBJ_SIZE_MASK = (p XOR CARM_PTR) mod OBJ_SIZE"
proof -
  have m: "OBJ_SIZE_MASK = mask 12" by (simp add: OBJ_SIZE_MASK_def OBJ_SIZE_def mask_eq_exp_minus_1)
  have "take_bit 12 CARM_PTR = 0" by (simp add: CARM_PTR_def)
  moreover have "x mod OBJ_SIZE = take_bit 12 x" for x :: u64 by (simp add: OBJ_SIZE_def take_bit_eq_mod)
  ultimately show ?thesis by (simp add: m take_bit_eq_mask [symmetric] take_bit_xor)
qed

lemma exception_bits_eq: "exception_bits mut = ptr_exceptions (get_carm_ptr p (of_bool mut))" if "check_carm_object p"
  using that by (simp add: exception_bits_def ptr_exceptions_def get_carm_ptr_def Let_def)

lemma guard_reaches_remote:
  assumes g: "holds_guard F n h ptr c mut pt xs ck acc ys" and calls: "runtime_calls E M"
    and ev: "eval M r ptr = Some (W pv)" and c: "r c = Some (Tab 0)" and rem: "check_carm_object pv"
    and deref: "ptrDeref E (get_carm_ptr pv (of_bool mut)) s = Done (a, s')"
  shows "\<exists>k r1. steps k F M (at_block h pr (guard_test n ptr) r s) =
      Done (at_block (n + 2) (n + 14) (after_guard n pt ck acc ys) r1 s') \<and>
    r1 (n + 25) = Some (W a) \<and> (\<forall>j<n. r1 j = r j)"
proof -
  let ?i = "(pv XOR CARM_PTR) div OBJ_SIZE" and ?o = "pv AND OBJ_SIZE_MASK"
  let ?r1 = "r(n \<mapsto> W pv, n + 1 \<mapsto> W 1)"
  have cp: "cp_obj_index (get_carm_ptr pv x) = ?i" "cp_offset (get_carm_ptr pv x) = ?o"
    "cp_mut (get_carm_ptr pv x) = x" for x
    using rem by (simp_all add: get_carm_ptr_def Let_def offset_mask)
  have i: "?i < TOTAL_OBJECTS" using deref by (simp add: ptrDeref_def cp Let_def split: if_splits)
  have cn: "c < n" using g by (simp add: holds_guard_def)
  have 1: "steps 3 F M (at_block h pr (guard_test n ptr) r s) =
      Done (at_block (n + 3) h (b_insts (guard_lookup n (VInst c) mut)) ?r1 s)"
    using run_test [OF g ev, of pr s] remote_ge [OF rem] by simp
  obtain r2 where 2: "steps 7 F M (at_block (n + 3) h (b_insts (guard_lookup n (VInst c) mut)) ?r1 s) = Done
     (if obj_state s ?i AND exception_bits mut \<noteq> 0
      then at_block (n + 15) (n + 3) (b_insts (guard_slow n mut)) r2 s
      else at_block (n + 16) (n + 3) (b_insts (guard_fast n)) r2 s)"
    and r2: "r2 (n + 9) = Some (W ?i)" "r2 (n + 11) = Some (W (obj_state s ?i))" "\<forall>j\<le>n. r2 j = ?r1 j"
    using run_lookup [OF g, of ?r1 pv ?i M h s] c cn i by auto
  have "\<exists>r3 d b. steps 2 F M (if obj_state s ?i AND exception_bits mut \<noteq> 0
      then at_block (n + 15) (n + 3) (b_insts (guard_slow n mut)) r2 s
      else at_block (n + 16) (n + 3) (b_insts (guard_fast n)) r2 s) =
    Done (at_block (n + 14) b (tl (b_insts (guard_join n))) r3 s') \<and> r3 (n + 22) = Some (W d) \<and>
      a = d + ?o \<and> (\<forall>j\<le>n. r3 j = r2 j)"
  proof (cases "obj_state s ?i AND exception_bits mut = 0")
    case True
    then have "a = drop_bit kObjectDataAddrBitPos (obj_state s ?i) + ?o" "s' = s"
      using deref i by (auto simp: ptrDeref_def cp Let_def exception_bits_eq [OF rem, symmetric])
    moreover let ?d = "drop_bit kObjectDataAddrBitPos (obj_state s ?i)"
    have "steps 2 F M (at_block (n + 16) (n + 3) (b_insts (guard_fast n)) r2 s) =
      Done (at_block (n + 14) (n + 16) (tl (b_insts (guard_join n))) (r2(n + 21 \<mapsto> W ?d, n + 22 \<mapsto> W ?d)) s)"
      by (simp add: run_fast [where r = r2, OF g r2(2)] guard_join_def of_opt_def del: keep_sums)
    ultimately show ?thesis using True
      by (intro exI [of _ "r2(n + 21 \<mapsto> W ?d, n + 22 \<mapsto> W ?d)"] exI [of _ ?d] exI [of _ "n + 16"])
        (simp del: keep_sums)
  next
    case False
    then obtain d where d: "(if mut then carm_deref_write E ?i s else carm_deref_read E ?i s) = Done (d, s')" "a = d + ?o"
      using deref i by (auto simp: ptrDeref_def cp Let_def exception_bits_eq [OF rem, symmetric] bindR_Done_iff split: if_splits)
    have "steps 2 F M (at_block (n + 15) (n + 3) (b_insts (guard_slow n mut)) r2 s) =
      Done (at_block (n + 14) (n + 15) (tl (b_insts (guard_join n))) (r2(n + 20 \<mapsto> W d, n + 22 \<mapsto> W d)) s')"
      by (simp add: run_slow [where r = r2, OF g calls r2(1) d(1)] guard_join_def of_opt_def del: keep_sums)
    then show ?thesis using False
      by (intro exI [of _ "r2(n + 20 \<mapsto> W d, n + 22 \<mapsto> W d)"] exI [of _ d] exI [of _ "n + 15"])
        (simp add: d(2) del: keep_sums)
  qed
  then obtain r3 d b where 3: "steps 2 F M (if obj_state s ?i AND exception_bits mut \<noteq> 0
      then at_block (n + 15) (n + 3) (b_insts (guard_slow n mut)) r2 s
      else at_block (n + 16) (n + 3) (b_insts (guard_fast n)) r2 s) =
    Done (at_block (n + 14) b (tl (b_insts (guard_join n))) r3 s')" "r3 (n + 22) = Some (W d)"
      "a = d + ?o" "\<forall>j\<le>n. r3 j = r2 j" by blast
  have "r3 n = Some (W pv)" using 3(4) r2(3) by simp
  from run_join [OF g 3(2) this, of M b s']
  obtain r4 where 4: "steps 3 F M (at_block (n + 14) b (tl (b_insts (guard_join n))) r3 s') =
      Done (at_block (n + 2) (n + 14) (after_guard n pt ck acc ys) r4 s')"
    "r4 (n + 25) = Some (W (d + ?o))" "\<forall>j<n. r4 j = r3 j" by auto
  have "steps (3 + (7 + (2 + 3))) F M (at_block h pr (guard_test n ptr) r s) =
      Done (at_block (n + 2) (n + 14) (after_guard n pt ck acc ys) r4 s')"
    by (rule steps_trans [OF 1 steps_trans [OF 2 steps_trans [OF 3(1) 4(1)]]])
  moreover have "\<forall>j<n. r4 j = r j" using 4(3) 3(4) r2(3) by simp
  ultimately show ?thesis using 4(2) 3(3) by blast
qed

lemma guard_reaches_local:
  assumes g: "holds_guard F n h ptr c mut pt xs ck acc ys"
    and ev: "eval M r ptr = Some (W pv)" and loc: "pv < CARM_PTR"
  shows "\<exists>k r1. steps k F M (at_block h pr (guard_test n ptr) r s) =
      Done (at_block (n + 2) (n + 4) (after_guard n pt ck acc ys) r1 s) \<and>
    r1 (n + 25) = Some (W pv) \<and> (\<forall>j<n. r1 j = r j)"
proof -
  let ?r1 = "r(n \<mapsto> W pv, n + 1 \<mapsto> W 0)"
  have 1: "steps 3 F M (at_block h pr (guard_test n ptr) r s) =
      Done (at_block (n + 4) h (b_insts (guard_local n)) ?r1 s)"
    using run_test [OF g ev, of pr s] loc by simp
  have "steps (3 + 1) F M (at_block h pr (guard_test n ptr) r s) =
      Done (at_block (n + 2) (n + 4) (after_guard n pt ck acc ys) (?r1(n + 25 \<mapsto> W pv)) s)"
    by (rule steps_trans [OF 1]) (use run_local [OF g, of ?r1 pv M h s] in simp)
  then show ?thesis by (intro exI) auto
qed


section \<open>The access at the address\<close>

lemma run_load:
  assumes r: "r (n + 25) = Some (W a)" and acc: "i_op acc = Load t p" and pt: "is_ptr pt" and plain: "plain (i_ty acc)"
  shows "steps 2 F M (at_block b pr (after_guard n pt ck acc ys) r s) =
    Done (at_block b pr (ck # acc # ys)
      (r(n + 26 \<mapsto> W a, n + 27 \<mapsto> W (load_le (mem s) a (bytes_of (i_ty acc))))) s)"
proof -
  have "clip pt a = a" using pt by (cases pt) (simp_all add: clip_def)
  then show ?thesis using r acc plain by (simp add: guard_access_def exec_simps del: keep_sums)
qed

lemma run_store:
  assumes r: "r (n + 25) = Some (W a)" and acc: "i_op acc = Store v p" and pt: "is_ptr pt"
    and v: "val_below (n + 25) v" "eval M r v = Some (W x)" and plain: "plain (val_ty F v)"
  shows "\<exists>r'. steps 2 F M (at_block b pr (after_guard n pt ck acc ys) r s) =
    Done (at_block b pr (ck # acc # ys) r' (s\<lparr>mem := store_le (mem s) a (bytes_of (val_ty F v)) x\<rparr>)) \<and>
    (\<forall>j<n. r' j = r j)"
proof -
  have "clip pt a = a" using pt by (cases pt) (simp_all add: clip_def)
  moreover have "eval M (r(n + 26 \<mapsto> W a)) v = Some (W x)"
    using eval_below [OF v(1), of "r(n + 26 \<mapsto> W a)" r M] v(2) by simp
  ultimately show ?thesis using r acc plain
    by (intro exI [of _ "r(n + 26 \<mapsto> W a, n + 27 \<mapsto> W 0)"]) (simp add: guard_access_def exec_simps del: keep_sums)
qed

end
