(* ===== verification/Guard_Props.thy ===== *)
theory Guard_Props
  imports Guard_Exec
begin

text \<open>
  What the pass preserves: the code that replaces a marked load or store, run against the
  model of the runtime, reads and writes the program's memory.
\<close>

section \<open>Functions with a marked access\<close>

definition address_ok :: "edit \<Rightarrow> inst \<Rightarrow> val \<Rightarrow> bool" where
  "address_ok e acc p \<longleftrightarrow> is_ptr (type_of e p) \<and> val_below (ed_next e) p \<and> p \<noteq> VInst (i_id acc) \<and>
     (case p of VFun f \<Rightarrow> False | _ \<Rightarrow> True)"

definition access_ok :: "edit \<Rightarrow> inst \<Rightarrow> bool" where
  "access_ok e acc \<longleftrightarrow> (case i_op acc of
     Load t p \<Rightarrow> address_ok e acc p
   | Store v p \<Rightarrow> address_ok e acc p \<and> v \<noteq> VInst (i_id acc) \<and> val_below (ed_next e) v \<and> i_ty acc = TVoid
   | _ \<Rightarrow> False)"

text \<open>
  The block \<open>h\<close> has, after the instructions \<open>xs\<close>, a marker with the pointer \<open>ptr\<close> and the
  access it is for; instruction \<open>c\<close> loaded the address of the state table.
\<close>

definition marked ::
    "edit \<Rightarrow> ident \<Rightarrow> block list \<Rightarrow> ident \<Rightarrow> inst list \<Rightarrow> inst \<Rightarrow> inst \<Rightarrow> inst list \<Rightarrow> block list \<Rightarrow> val \<Rightarrow> bool" where
  "marked e c bs h xs ck acc ys cs ptr \<longleftrightarrow>
     f_blocks (ed_fun e) = bs @ \<lparr>b_id = h, b_insts = xs @ ck # acc # ys\<rparr> # cs \<and>
     c < ed_next e \<and> c \<noteq> i_id acc \<and> i_op ck = Call (VFun CARM_DEREF_DUMMY) [ptr] \<and>
     \<not> is_const ptr \<and> is_ptr (type_of e ptr) \<and> ptr \<noteq> VInst (i_id acc) \<and> access_ok e acc \<and>
     deref_declared (\<not> is_load (i_op acc)) e"

definition block_insts :: "func \<Rightarrow> ident \<Rightarrow> inst list" where
  "block_insts F h = (case find (\<lambda>b. b_id b = h) (f_blocks F) of None \<Rightarrow> [] | Some b \<Rightarrow> b_insts b)"

lemma lacks_ids: "lacks p xs \<longleftrightarrow> p \<notin> i_id ` set xs"
  by (auto simp: lacks_def)

lemma lacks_all_ids: "lacks_all p bs \<longleftrightarrow> lacks p (concat (map b_insts bs))"
  by (auto simp: lacks_all_def lacks_def)

lemma distinct_lacks:
  assumes d: "distinct (map i_id (concat (map b_insts (bs @ \<lparr>b_id = h, b_insts = xs @ ck # acc # ys\<rparr> # cs))))"
  shows "lacks_all (i_id ck) bs" "lacks_all (i_id ck) cs" "lacks (i_id ck) xs" "lacks (i_id ck) ys"
    "lacks_all (i_id acc) bs" "lacks_all (i_id acc) cs" "lacks (i_id acc) xs" "lacks (i_id acc) ys" "i_id ck \<noteq> i_id acc"
proof -
  obtain A C where AC: "A = concat (map b_insts bs)" "C = concat (map b_insts cs)" by simp
  have "distinct (map i_id A @ map i_id xs @ i_id ck # i_id acc # map i_id ys @ map i_id C)"
    using d by (simp add: AC)
  then show "lacks_all (i_id ck) bs" "lacks_all (i_id ck) cs" "lacks (i_id ck) xs" "lacks (i_id ck) ys"
    "lacks_all (i_id acc) bs" "lacks_all (i_id acc) cs" "lacks (i_id acc) xs" "lacks (i_id acc) ys" "i_id ck \<noteq> i_id acc"
    unfolding lacks_all_ids lacks_ids AC [symmetric] by auto
qed

lemma access_cases:
  assumes "access_ok e acc"
  obtains p v where "(\<exists>t. i_op acc = Load t p) \<or> i_op acc = Store v p \<and> i_ty acc = TVoid"
    "address_ok e acc p" "v \<noteq> VInst (i_id acc)"
proof (cases "i_op acc")
  case (Load t p)
  with assms show thesis by (intro that [of p "VNull TVoid"]) (simp_all add: access_ok_def)
next
  case (Store v p)
  with assms show thesis by (intro that [of p v]) (simp_all add: access_ok_def)
qed (use assms in \<open>simp_all add: access_ok_def\<close>)

lemma marked_emits:
  assumes num: "numbered e" and m: "marked e c bs h xs ck acc ys cs ptr" and mut: "mut = (\<not> is_load (i_op acc))"
  obtains e' xs' ys' pt where
    "transform_check (VInst c) (i_id ck, Some (i_id acc)) e = Done (i_id acc, e')" "is_ptr pt"
    "holds_guard (ed_fun e') (ed_next e) h ptr c mut pt xs' ck acc ys'"
    "drop (length xs) (block_insts (ed_fun e') h) = guard_test (ed_next e) ptr"
    "f_args (ed_fun e') = f_args (ed_fun e)" "\<And>i. i < ed_next e \<Longrightarrow> ity i (insts (ed_fun e')) = ity i (insts (ed_fun e))"
proof -
  let ?n = "ed_next e"
  have b: "f_blocks (ed_fun e) = bs @ \<lparr>b_id = h, b_insts = xs @ ck # acc # ys\<rparr> # cs"
    using m by (simp add: marked_def)
  have below: "below ?n bs" "below ?n cs" "\<forall>x\<in>set xs. i_id x < ?n" "\<forall>x\<in>set ys. i_id x < ?n" "h < ?n"
      "i_id ck < ?n" "i_id acc < ?n"
  proof -
    have x: "\<forall>x\<in>set (concat (map b_insts (f_blocks (ed_fun e)))). i_id x < ?n"
        "\<forall>k\<in>set (f_blocks (ed_fun e)). b_id k < ?n"
      using num by (simp_all add: numbered_def insts_def)
    then show "below ?n bs" "below ?n cs" unfolding below_def b by auto
    show "\<forall>x\<in>set xs. i_id x < ?n" "\<forall>x\<in>set ys. i_id x < ?n" "h < ?n"
      "i_id ck < ?n" "i_id acc < ?n" using x unfolding b by simp_all
  qed
  have ids: "distinct (map i_id (concat (map b_insts (bs @ \<lparr>b_id = h, b_insts = xs @ ck # acc # ys\<rparr> # cs))))"
    using num by (simp add: numbered_def insts_def b)
  note lk = distinct_lacks [OF ids]
  have hb: "h \<notin> b_id ` set bs" using num by (auto simp: numbered_def b)
  obtain p v where acc: "(\<exists>t. i_op acc = Load t p) \<or> i_op acc = Store v p \<and> i_ty acc = TVoid"
    and p: "address_ok e acc p" "v \<noteq> VInst (i_id acc)"
  proof -
    have "access_ok e acc" using m by (simp add: marked_def)
    then show thesis using that by (rule access_cases)
  qed
  from acc obtain t where acc': "i_op acc = Load t p \<or> i_op acc = Store v p \<and> i_ty acc = TVoid" by blast
  have pp: "\<And>i. p = VInst i \<Longrightarrow> i < ?n" "is_ptr (type_of e p)" "\<And>f. p \<noteq> VFun f" "p \<noteq> VInst (i_id acc)"
    using p(1) by (auto simp: address_ok_def)
  have mm: "i_op ck = Call (VFun CARM_DEREF_DUMMY) [ptr]" "\<not> is_const ptr" "is_ptr (type_of e ptr)"
      "ptr \<noteq> VInst (i_id acc)" "\<not> is_const (VInst c)" "VInst c \<noteq> VInst (i_id acc)" "deref_declared mut e" "c < ?n"
    using m by (simp_all add: marked_def mut)
  obtain D bs' cs' xs' ys' where E: "transform_check (VInst c) (i_id ck, Some (i_id acc)) e =
      Done (i_id acc, with_blocks (e\<lparr>ed_decls := D\<rparr>)
        (bs' @ guarded ?n h ptr (VInst c) mut (type_of e p) xs' ck acc ys' @ cs') (?n + 28))"
    and same: "map b_id bs' = map b_id bs" "length xs' = length xs"
      "\<forall>i<?n. ity i (concat (map b_insts (bs' @ guarded ?n h ptr (VInst c) mut (type_of e p) xs' ck acc ys' @ cs'))) =
       ity i (insts (ed_fun e))"
    using check_emits [OF b refl below lk mm(1-6) acc' pp(4) p(2) pp(1-3) mut mm(7)] by blast
  have ids': "\<forall>b\<in>set bs'. b_id b < ?n"
  proof -
    have "\<forall>k\<in>set (map b_id bs). k < ?n" using below(1) by (auto simp: below_def)
    then show ?thesis unfolding same(1) [symmetric] by simp
  qed
  have hb': "h \<notin> b_id ` set bs'" using hb same(1) by (metis set_map)
  show thesis
  proof (rule that [OF E pp(2)])
    show "holds_guard (ed_fun (with_blocks (e\<lparr>ed_decls := D\<rparr>)
        (bs' @ guarded ?n h ptr (VInst c) mut (type_of e p) xs' ck acc ys' @ cs') (?n + 28))) ?n h ptr c mut (type_of e p) xs' ck acc ys'"
      using ids' below(5) mm(8) by (auto simp: holds_guard_def)
    show "drop (length xs) (block_insts (ed_fun (with_blocks (e\<lparr>ed_decls := D\<rparr>)
        (bs' @ guarded ?n h ptr (VInst c) mut (type_of e p) xs' ck acc ys' @ cs') (?n + 28))) h) = guard_test ?n ptr"
      using find_block [of "\<lparr>b_id = h, b_insts = xs' @ guard_test ?n ptr\<rparr>" bs'] hb' same(2)
      by (simp add: block_insts_def guarded_def)
  qed (use same(3) in \<open>simp_all add: insts_def\<close>)
qed


section \<open>Bytes of the program's memory\<close>

fun view_le :: "(ptr \<Rightarrow> u8 option) \<Rightarrow> ptr \<Rightarrow> nat \<Rightarrow> u64 option" where
  "view_le m a 0 = Some 0"
| "view_le m a (Suc n) = (case (m a, view_le m (a + 1) n) of
     (Some b, Some x) \<Rightarrow> Some (ucast b OR push_bit 8 x) | _ \<Rightarrow> None)"

lemma view_le_load:
  "view_le v p n = Some w \<Longrightarrow> (\<And>k b. k < n \<Longrightarrow> v (p + of_nat k) = Some b \<Longrightarrow> m (a + of_nat k) = b) \<Longrightarrow>
   load_le m a n = w"
proof (induction n arbitrary: p a w)
  case (Suc n)
  from Suc.prems(1) obtain b x where bx: "v p = Some b" "view_le v (p + 1) n = Some x" "w = ucast b OR push_bit 8 x"
    by (auto split: option.splits)
  have "load_le m (a + 1) n = x"
  proof (rule Suc.IH [OF bx(2)])
    fix k b assume k: "k < n" "v (p + 1 + of_nat k) = Some b"
    then show "m (a + 1 + of_nat k) = b" using Suc.prems(2) [of "Suc k" b] by (simp add: ac_simps)
  qed
  moreover have "m a = b" using Suc.prems(2) [of 0 b] bx(1) by simp
  ultimately show ?case using bx(3) by simp
qed simp

lemma view_le_known: "view_le v p n = Some w \<Longrightarrow> 0 < n \<Longrightarrow> \<exists>b. v p = Some b"
  by (cases n) (auto split: option.splits)

text \<open>An access of \<open>n\<close> bytes stays in one object, or in local memory.\<close>

definition one_object :: "ptr \<Rightarrow> nat \<Rightarrow> bool" where
  "one_object p n \<longleftrightarrow>
     (if check_carm_object p then unat (off_of p) + n \<le> 4096 \<and> unat (p XOR CARM_PTR) + n \<le> 2 ^ 60
      else unat p + n \<le> 2 ^ 60)"

lemma local_below: "\<not> check_carm_object p \<Longrightarrow> one_object p n \<Longrightarrow> 0 < n \<Longrightarrow> p < CARM_PTR"
  by (simp add: one_object_def word_less_unat CARM_PTR_def)

text \<open>Where the guard's code leads, and what the address it computes is good for.\<close>

lemma guard_address:
  assumes g: "holds_guard F n h ptr c mut pt xs ck acc ys" and calls: "runtime_calls E M"
    and laws: "env_laws E V" and inv: "rt_inv V s"
    and ev: "eval M r ptr = Some (W pv)" and c: "r c = Some (Tab 0)"
    and one: "one_object pv w" "0 < w" and known: "view V s pv = Some b"
  obtains k q r1 s' A where
    "steps k F M (at_block h pr (guard_test n ptr) r s) = Done (at_block (n + 2) q (after_guard n pt ck acc ys) r1 s')"
    "r1 (n + 25) = Some (W A)" "\<forall>j<n. r1 j = r j" "evolves V s s'"
    "if check_carm_object pv then resident V s' (obj_of pv) (A - off_of pv) else A = pv \<and> s' = s"
    "check_carm_object pv \<and> mut \<longrightarrow> Object_View.marked V s' (obj_of pv)"
proof (cases "check_carm_object pv")
  case True
  let ?cp = "get_carm_ptr pv (of_bool mut)"
  have at: "at_ptr ?cp pv" by (rule at_get [OF True])
  obtain A s' where run: "ptrDeref E ?cp s = Done (A + off_of pv, s')" "evolves V s s'" "resident V s' (obj_of pv) A"
      "mut \<longrightarrow> Object_View.marked V s' (obj_of pv)"
  proof -
    have cp: "cp_obj_index ?cp = obj_of pv" "cp_offset ?cp = off_of pv" "cp_mut ?cp = of_bool mut"
      using at True by (simp_all add: at_ptr_def)
    have "accessible V s (cp_obj_index ?cp)" using view_accessible [OF True, of V s] known cp by simp
    from ptrDeref_rule [OF laws inv this] show thesis unfolding cp by (auto intro: that)
  qed
  from guard_reaches_remote [OF g calls ev c True run(1), of pr] run(2-4) True show thesis
    by (auto intro: that)
next
  case False
  from guard_reaches_local [OF g ev local_below [OF False one], of pr s] evolves_refl [OF inv] False show thesis
    by (auto intro: that)
qed

lemma address_bytes:
  assumes "if check_carm_object p then resident V s (obj_of p) (A - off_of p) else A = p"
    and one: "one_object p w" and k: "k < w" and v: "view V s (p + of_nat k) = Some b"
  shows "mem s (A + of_nat k) = b"
proof -
  have kb: "unat (of_nat k :: u64) = k" if "unat q + w \<le> 2 ^ 60" for q :: u64
    using that k by (simp add: unat_of_nat take_bit_nat_eq_self)
  show ?thesis
  proof (cases "check_carm_object p")
    case True
    with one have o: "unat (off_of p) + w \<le> 4096" "unat (p XOR CARM_PTR) + w \<le> 2 ^ 60" by (simp_all add: one_object_def)
    have "view V s (p + of_nat k) = Some (mem s (A - off_of p + off_of p + of_nat k))"
      using assms(1) True o k kb [OF o(2)]
      by (intro resident_read) (simp_all add: word_less_unat unat_room)
    with v show ?thesis by simp
  next
    case False
    with one have o: "unat p + w \<le> 2 ^ 60" by (simp add: one_object_def)
    have "unat (p + of_nat k) < 2 ^ 60"
      using o k kb [OF o] unat_word_ariths(1) [of p "of_nat k"] by simp
    then have "\<not> check_carm_object (p + of_nat k)" by (simp add: check_bit not_bit_60)
    with v assms(1) False show ?thesis by (auto simp: view_def split: if_splits)
  qed
qed


lemma plain_bytes: "plain t \<Longrightarrow> 0 < bytes_of t \<and> bytes_of t \<le> 8"
  by (auto simp: plain_def bytes_of_def)

lemma store_le_out: "(\<And>k. k < n \<Longrightarrow> q \<noteq> a + of_nat k) \<Longrightarrow> store_le m a n x q = m q"
proof (induction n arbitrary: m a x)
  case (Suc n)
  have "store_le (m(a := ucast x)) (a + 1) n (drop_bit 8 x) q = (m(a := ucast x)) q"
  proof (rule Suc.IH)
    fix k assume "k < n"
    with Suc.prems [of "Suc k"] show "q \<noteq> a + 1 + of_nat k" by (simp add: ac_simps)
  qed
  then show ?case using Suc.prems [of 0] by simp
qed simp

lemma store_le_in: "n \<le> 8 \<Longrightarrow> k < n \<Longrightarrow> store_le m a n x (a + of_nat k) = ucast (drop_bit (8 * k) x)"
proof (induction n arbitrary: m a x k)
  case (Suc n)
  show ?case
  proof (cases k)
    case 0
    have "a \<noteq> a + 1 + of_nat j" if "j < n" for j
    proof -
      have "unat (1 + of_nat j :: u64) = Suc j" using that Suc.prems(1)
        by (simp add: unat_word_ariths unat_of_nat take_bit_nat_eq_self)
      then have "(1 + of_nat j :: u64) \<noteq> 0" by (metis nat.distinct(1) unat_0)
      then show ?thesis by (simp add: add.assoc)
    qed
    then have "store_le (m(a := ucast x)) (a + 1) n (drop_bit 8 x) a = (m(a := ucast x)) a"
      by (intro store_le_out) simp
    with 0 show ?thesis by simp
  next
    case (Suc j)
    have "store_le (m(a := ucast x)) (a + 1) n (drop_bit 8 x) (a + 1 + of_nat j) = ucast (drop_bit (8 * j) (drop_bit 8 x))"
      by (rule Suc.IH) (use Suc.prems Suc in simp_all)
    moreover have "a + of_nat k = a + 1 + of_nat j" using Suc by (simp add: ac_simps)
    ultimately show ?thesis using Suc by (simp add: ac_simps)
  qed
qed simp

lemma marked_load:
  assumes g: "holds_guard F n h ptr c False pt xs ck acc ys" and pt: "is_ptr pt"
    and load: "i_op acc = Load t p" "plain (i_ty acc)" and calls: "runtime_calls E M"
    and laws: "env_laws E V" and inv: "rt_inv V s"
    and ev: "eval M r ptr = Some (W pv)" and c: "r c = Some (Tab 0)"
    and one: "one_object pv (bytes_of (i_ty acc))" and known: "view_le (view V s) pv (bytes_of (i_ty acc)) = Some w"
  shows "\<exists>k q r' s'. steps k F M (at_block h pr (guard_test n ptr) r s) = Done (at_block (n + 2) q (ck # acc # ys) r' s') \<and>
    r' (n + 27) = Some (W w) \<and> rt_inv V s' \<and> view V s \<subseteq>\<^sub>m view V s'"
proof -
  let ?w = "bytes_of (i_ty acc)"
  have w: "0 < ?w" using plain_bytes [OF load(2)] by simp
  obtain b where b: "view V s pv = Some b" using view_le_known [OF known w] by blast
  obtain k q r1 s' A where run: "steps k F M (at_block h pr (guard_test n ptr) r s) =
      Done (at_block (n + 2) q (after_guard n pt ck acc ys) r1 s')" "r1 (n + 25) = Some (W A)"
    and s': "evolves V s s'"
      "if check_carm_object pv then resident V s' (obj_of pv) (A - off_of pv) else A = pv \<and> s' = s"
    by (rule guard_address [OF g calls laws inv ev c one w b])
  have "load_le (mem s') A ?w = w"
    by (rule view_le_load [OF known], rule address_bytes [OF _ one])
      (use s'(2) in \<open>auto intro: evolves_view [OF s'(1)] split: if_splits\<close>)
  then have "steps (k + 2) F M (at_block h pr (guard_test n ptr) r s) =
      Done (at_block (n + 2) q (ck # acc # ys) (r1(n + 26 \<mapsto> W A, n + 27 \<mapsto> W w)) s')"
    using steps_trans [OF run(1) run_load [where r = r1, OF run(2) load(1) pt load(2)]] by simp
  moreover have "rt_inv V s' \<and> view V s \<subseteq>\<^sub>m view V s'" using s'(1) by (simp add: evolves_def)
  moreover have "(r1(n + 26 \<mapsto> W A, n + 27 \<mapsto> W w)) (n + 27) = Some (W w)" by simp
  ultimately show ?thesis by blast
qed

lemma view_le_all: "view_le v p n = Some w \<Longrightarrow> k < n \<Longrightarrow> \<exists>b. v (p + of_nat k) = Some b"
proof (induction n arbitrary: p w k)
  case (Suc n)
  then obtain b x where "v p = Some b" "view_le v (p + 1) n = Some x" by (auto split: option.splits)
  with Suc show ?case by (cases k) (auto simp: add.assoc [symmetric])
qed simp

lemma small_range: "n \<le> 8 \<Longrightarrow> (k :: u64) < of_nat n \<longleftrightarrow> unat k < n"
  by (simp add: word_less_nat_alt unat_of_nat take_bit_nat_eq_self)

text \<open>Storing a word at the address.\<close>

lemma store_writes:
  assumes laws: "env_laws E V" and inv: "rt_inv V s" and n: "n \<le> 8"
    and A: "if check_carm_object p then resident V s (obj_of p) (A - off_of p) else A = p"
    and mk: "check_carm_object p \<Longrightarrow> Object_View.marked V s (obj_of p)"
    and one: "one_object p n" and known: "\<And>k. k < n \<Longrightarrow> \<exists>b. view V s (p + of_nat k) = Some b"
  shows "writes V s (s\<lparr>mem := store_le (mem s) A n x\<rparr>) p (of_nat n) (\<lambda>k. ucast (drop_bit (8 * unat k) x))"
proof -
  have out: "store_le (mem s) A n x q = mem s q" if "\<not> within A (of_nat n) q" for q
    by (rule store_le_out) (use that n in \<open>auto simp: within_def small_range unat_of_nat take_bit_nat_eq_self\<close>)
  have inn: "store_le (mem s) A n x (A + k) = ucast (drop_bit (8 * unat k) x)" if "k < of_nat n" for k
    using store_le_in [OF n, of "unat k" "mem s" A x] that n by (simp add: small_range)
  show ?thesis
  proof (cases "check_carm_object p")
    case True
    have u: "unat (of_nat n :: u64) = n" using n by (simp add: unat_of_nat take_bit_nat_eq_self)
    from one True have o: "unat (off_of p) + n \<le> 4096" "unat (p XOR CARM_PTR) + n \<le> 2 ^ 60"
      by (simp_all add: one_object_def)
    show ?thesis
    proof (rule resident_writes [OF laws inv True])
      show "resident V s (obj_of p) (A - off_of p)" using A True by simp
      show "Object_View.marked V s (obj_of p)" by (rule mk [OF True])
      show "of_nat n \<le> room p" using o(1) by (simp add: word_le_nat_alt unat_room u)
      show "unat (p XOR CARM_PTR) + unat (of_nat n :: u64) \<le> 2 ^ 60" using o(2) by (simp add: u)
    qed (simp_all add: out inn)
  next
    case False
    have "local_range V p (of_nat n)"
      unfolding local_range_def
    proof (intro allI impI)
      fix k :: u64 assume "k < of_nat n"
      then have k: "unat k < n" using n by (simp add: small_range)
      with one False have "unat (p + k) < 2 ^ 60"
        using unat_word_ariths(1) [of p k] by (simp add: one_object_def)
      then have "\<not> check_carm_object (p + k)" by (simp add: check_bit not_bit_60)
      with known [OF k] show "\<not> check_carm_object (p + k) \<and> \<not> v_heap V (p + k)"
        by (auto simp: view_def split: if_splits)
    qed
    with False A show ?thesis
      using local_writes [OF inv, of p "of_nat n" "store_le (mem s) A n x"] out inn laws
      by (simp add: env_laws_def)
  qed
qed

lemma marked_store:
  assumes g: "holds_guard F n h ptr c True pt xs ck acc ys" and pt: "is_ptr pt"
    and store: "i_op acc = Store v p" "plain (val_ty F v)" "val_below n v" and calls: "runtime_calls E M"
    and laws: "env_laws E V" and inv: "rt_inv V s"
    and ev: "eval M r ptr = Some (W pv)" "eval M r v = Some (W x)" and c: "r c = Some (Tab 0)"
    and one: "one_object pv (bytes_of (val_ty F v))" and known: "view_le (view V s) pv (bytes_of (val_ty F v)) = Some w"
  shows "\<exists>k q r' s'. steps k F M (at_block h pr (guard_test n ptr) r s) = Done (at_block (n + 2) q (ck # acc # ys) r' s') \<and>
    writes V s s' pv (of_nat (bytes_of (val_ty F v))) (\<lambda>k. ucast (drop_bit (8 * unat k) x))"
proof -
  let ?w = "bytes_of (val_ty F v)"
  have w: "0 < ?w" "?w \<le> 8" using plain_bytes [OF store(2)] by simp_all
  obtain b where b: "view V s pv = Some b" using view_le_known [OF known w(1)] by blast
  obtain k q r1 s' A where run: "steps k F M (at_block h pr (guard_test n ptr) r s) =
      Done (at_block (n + 2) q (after_guard n pt ck acc ys) r1 s')" "r1 (n + 25) = Some (W A)" "\<forall>j<n. r1 j = r j"
    and s': "evolves V s s'"
      "if check_carm_object pv then resident V s' (obj_of pv) (A - off_of pv) else A = pv \<and> s' = s"
      "check_carm_object pv \<and> True \<longrightarrow> Object_View.marked V s' (obj_of pv)"
    by (rule guard_address [OF g calls laws inv ev(1) c one w(1) b])
  have vb: "val_below (n + 25) v" "eval M r1 v = Some (W x)"
    using val_below_mono [OF store(3), of "n + 25"] eval_below [OF store(3) run(3), of M] ev(2) by simp_all
  obtain r' where st: "steps 2 F M (at_block (n + 2) q (after_guard n pt ck acc ys) r1 s') =
      Done (at_block (n + 2) q (ck # acc # ys) r' (s'\<lparr>mem := store_le (mem s') A ?w x\<rparr>))"
    using run_store [where r = r1, OF run(2) store(1) pt vb store(2)] by blast
  have known': "\<exists>b. view V s' (pv + of_nat k) = Some b" if "k < ?w" for k
    using view_le_all [OF known that] evolves_view [OF s'(1)] by blast
  have "writes V s' (s'\<lparr>mem := store_le (mem s') A ?w x\<rparr>) pv (of_nat ?w) (\<lambda>k. ucast (drop_bit (8 * unat k) x))"
    by (rule store_writes [OF laws evolves_inv [OF s'(1)] w(2) _ _ one known'])
      (use s'(2,3) in \<open>auto split: if_splits\<close>)
  with evolves_writes [OF s'(1)] steps_trans [OF run(1) st] show ?thesis by blast
qed


text \<open>The function's state where the marker stood, after the first \<open>k\<close> instructions of its block.\<close>

definition at_marker :: "func \<Rightarrow> ident \<Rightarrow> nat \<Rightarrow> ident \<Rightarrow> regs \<Rightarrow> 'e rt \<Rightarrow> 'e conf" where
  "at_marker F h k pr r s = at_block h pr (drop k (block_insts F h)) r s"

section \<open>What the pass preserves\<close>

text \<open>
  C4: the code that replaces a marked load reads, for a local and for a remote pointer, the
  bytes the program last wrote there, leaves them in the register that replaces the load, and
  keeps the coherence of the state table and the rest of the program's memory.
\<close>

theorem guarded_load:
  assumes "numbered e" "marked e c bs h xs ck acc ys cs ptr" "i_op acc = Load t p" "plain (i_ty acc)"
    and "runtime_calls E M" "env_laws E V" "rt_inv V s"
    and "eval M r ptr = Some (W pv)" "r c = Some (Tab 0)" "one_object pv (bytes_of (i_ty acc))"
    and "view_le (view V s) pv (bytes_of (i_ty acc)) = Some w"
  shows "\<exists>e' k b q zs r' s'. transform_check (VInst c) (i_id ck, Some (i_id acc)) e = Done (i_id acc, e') \<and>
    steps k (ed_fun e') M (at_marker (ed_fun e') h (length xs) pr r s) = Done (at_block b q (ck # acc # zs) r' s') \<and>
    r' (ed_next e + 27) = Some (W w) \<and> rt_inv V s' \<and> view V s \<subseteq>\<^sub>m view V s'"
proof -
  obtain e' xs' ys' pt where e': "transform_check (VInst c) (i_id ck, Some (i_id acc)) e = Done (i_id acc, e')"
    and pt: "is_ptr pt" and g: "holds_guard (ed_fun e') (ed_next e) h ptr c False pt xs' ck acc ys'"
    and d: "drop (length xs) (block_insts (ed_fun e') h) = guard_test (ed_next e) ptr"
    by (rule marked_emits [OF assms(1,2) refl]) (simp add: assms(3))
  have D: "at_marker (ed_fun e') h (length xs) pr r s = at_block h pr (guard_test (ed_next e) ptr) r s"
    by (simp add: at_marker_def d)
  from e' marked_load [OF g pt assms(3-11), of pr, folded D] show ?thesis by blast
qed

text \<open>
  C5: the code that replaces a marked store writes the bytes of the stored value to the
  program's memory at the pointer, local or remote, and nothing else.
\<close>

theorem guarded_store:
  assumes "numbered e" "marked e c bs h xs ck acc ys cs ptr" "i_op acc = Store v p" "plain (type_of e v)"
    and "runtime_calls E M" "env_laws E V" "rt_inv V s"
    and "eval M r ptr = Some (W pv)" "eval M r v = Some (W x)" "r c = Some (Tab 0)"
    and "one_object pv (bytes_of (type_of e v))"
    and "view_le (view V s) pv (bytes_of (type_of e v)) = Some w"
  shows "\<exists>e' k b q zs r' s'. transform_check (VInst c) (i_id ck, Some (i_id acc)) e = Done (i_id acc, e') \<and>
    steps k (ed_fun e') M (at_marker (ed_fun e') h (length xs) pr r s) = Done (at_block b q (ck # acc # zs) r' s') \<and>
    writes V s s' pv (of_nat (bytes_of (type_of e v))) (\<lambda>k. ucast (drop_bit (8 * unat k) x))"
proof -
  have vb: "val_below (ed_next e) v"
    using assms(2,3) by (simp add: marked_def access_ok_def)
  obtain e' xs' ys' pt where e': "transform_check (VInst c) (i_id ck, Some (i_id acc)) e = Done (i_id acc, e')"
    and pt: "is_ptr pt" and g: "holds_guard (ed_fun e') (ed_next e) h ptr c True pt xs' ck acc ys'"
    and d: "drop (length xs) (block_insts (ed_fun e') h) = guard_test (ed_next e) ptr"
    and args: "f_args (ed_fun e') = f_args (ed_fun e)"
    and ty: "\<And>i. i < ed_next e \<Longrightarrow> ity i (insts (ed_fun e')) = ity i (insts (ed_fun e))"
    by (rule marked_emits [OF assms(1,2) refl]) (simp add: assms(3))
  have vt: "val_ty (ed_fun e') v = type_of e v"
  proof (cases v)
    case (VInst i)
    have "type_of e2 (VInst i) = (case ity i (insts (ed_fun e2)) of None \<Rightarrow> TVoid | Some t \<Rightarrow> t)" for e2
      by (simp add: find_inst_def ity_def split: option.split)
    with ty [of i] vb VInst show ?thesis by (simp only: val_ty_def edit.simps val_below.simps)
  qed (use args assms(9) in \<open>simp_all add: val_ty_def\<close>)
  have D: "at_marker (ed_fun e') h (length xs) pr r s = at_block h pr (guard_test (ed_next e) ptr) r s"
    by (simp add: at_marker_def d)
  have "plain (val_ty (ed_fun e') v)" "one_object pv (bytes_of (val_ty (ed_fun e') v))"
    "view_le (view V s) pv (bytes_of (val_ty (ed_fun e') v)) = Some w"
    using assms(4,11,12) by (simp_all only: vt)
  from e' marked_store [OF g pt assms(3) this(1) vb assms(5-10) this(2,3), of pr, folded D, unfolded vt]
  show ?thesis by blast
qed

text \<open>
  C6: from the marker of an access the emitted code reaches the new access with the address
  that \<open>_ptrDeref\<close> computes for the pointer, in the state \<open>_ptrDeref\<close> leaves; a local
  pointer is used as it is, and the state is unchanged.
\<close>

theorem guard_equals_ptrDeref:
  assumes "numbered e" "marked e c bs h xs ck acc ys cs ptr" "runtime_calls E M"
    and "eval M r ptr = Some (W pv)" "r c = Some (Tab 0)" "check_carm_object pv \<or> pv < CARM_PTR"
    and "(if check_carm_object pv then ptrDeref E (get_carm_ptr pv (of_bool (\<not> is_load (i_op acc)))) s
          else Done (pv, s)) = Done (a, s')"
  shows "\<exists>e' k b q pt zs r'. transform_check (VInst c) (i_id ck, Some (i_id acc)) e = Done (i_id acc, e') \<and>
    steps k (ed_fun e') M (at_marker (ed_fun e') h (length xs) pr r s) =
      Done (at_block b q (guard_access (ed_next e) pt acc @ zs) r' s') \<and>
    r' (ed_next e + 25) = Some (W a) \<and> (\<forall>j<ed_next e. r' j = r j)"
proof -
  obtain e' xs' ys' pt where e': "transform_check (VInst c) (i_id ck, Some (i_id acc)) e = Done (i_id acc, e')"
    and g: "holds_guard (ed_fun e') (ed_next e) h ptr c (\<not> is_load (i_op acc)) pt xs' ck acc ys'"
    and d: "drop (length xs) (block_insts (ed_fun e') h) = guard_test (ed_next e) ptr"
    by (rule marked_emits [OF assms(1,2) refl])
  have D: "at_marker (ed_fun e') h (length xs) pr r s = at_block h pr (guard_test (ed_next e) ptr) r s"
    by (simp add: at_marker_def d)
  show ?thesis
  proof (cases "check_carm_object pv")
    case True
    with assms(7) have "ptrDeref E (get_carm_ptr pv (of_bool (\<not> is_load (i_op acc)))) s = Done (a, s')" by simp
    from e' guard_reaches_remote [OF g assms(3-5) True this, of pr, folded D] show ?thesis by blast
  next
    case False
    with assms(6,7) have "pv < CARM_PTR" "a = pv" "s' = s" by simp_all
    from e' guard_reaches_local [OF g assms(4) this(1), of pr s, folded D] this(2,3) show ?thesis by blast
  qed
qed

section \<open>A function with a marked load and a marked store\<close>

definition demo :: "op \<Rightarrow> ty \<Rightarrow> edit" where
  "demo o1 t = \<lparr>ed_decls = [], ed_globals = [],
     ed_fun = \<lparr>f_name = ''f'', f_ret = TVoid, f_args = [TPtr (TInt 16), TInt 16],
       f_blocks = [\<lparr>b_id = 4, b_insts =
         [ins 0 VoidPointerType (Load VoidPointerType obj_state_global),
          ins 1 TVoid (Call (VFun CARM_DEREF_DUMMY) [VArg 0]), ins 2 t o1, ins 3 TVoid (Ret None)]\<rparr>]\<rparr>,
     ed_next = 5\<rparr>"

definition demo_machine :: "'e env_ops \<Rightarrow> u64 \<Rightarrow> u64 \<Rightarrow> 'e machine" where
  "demo_machine E p x = \<lparr>mc_args = [W p, W x], mc_glob = (\<lambda>g. 0),
     mc_call = (\<lambda>f xs s. case xs of
       [W i] \<Rightarrow> bindR (if f = ''_Z15carm_deref_readm'' then carm_deref_read E i s else carm_deref_write E i s)
                 (\<lambda>(a, s). Done (W a, s))
     | _ \<Rightarrow> Faulted),
     mc_other = (\<lambda>o1 xs s. Faulted)\<rparr>"

lemma demo_calls: "runtime_calls E (demo_machine E p x)"
  by (simp add: runtime_calls_def demo_machine_def)

lemma demo_numbered: "numbered (demo o1 t)"
  by (simp add: numbered_def demo_def insts_def)

lemma demo_marked:
  "marked (demo (Load (TInt 16) (VArg 0)) (TInt 16)) 0 [] 4
     [ins 0 VoidPointerType (Load VoidPointerType obj_state_global)]
     (ins 1 TVoid (Call (VFun CARM_DEREF_DUMMY) [VArg 0])) (ins 2 (TInt 16) (Load (TInt 16) (VArg 0)))
     [ins 3 TVoid (Ret None)] [] (VArg 0)"
  "marked (demo (Store (VArg 1) (VArg 0)) TVoid) 0 [] 4
     [ins 0 VoidPointerType (Load VoidPointerType obj_state_global)]
     (ins 1 TVoid (Call (VFun CARM_DEREF_DUMMY) [VArg 0])) (ins 2 TVoid (Store (VArg 1) (VArg 0)))
     [ins 3 TVoid (Ret None)] [] (VArg 0)"
  by (simp_all add: marked_def demo_def access_ok_def address_ok_def deref_declared_def find_decl_def)

abbreviation demo_state :: "sim rt" where
  "demo_state \<equiv> sim_far (\<lambda>_. 0) (\<lambda>i k. ucast (i + k))"

lemma view_le_2: "v p = Some a \<Longrightarrow> v (p + 1) = Some b \<Longrightarrow> view_le v p 2 = Some (ucast a OR push_bit 8 (ucast b))"
  by (simp add: numeral_2_eq_2)

lemma demo_bytes: "view_le (view sim_view demo_state) (CARM_PTR + 0x5007) 2 = Some 0x0d0c"
proof -
  have "view sim_view demo_state (CARM_PTR + 0x5007) = Some 12"
    using sim_far_view [of "0x5007" 2 0] by simp
  moreover have "view sim_view demo_state (CARM_PTR + 0x5007 + 1) = Some 13"
    using sim_far_view [of "0x5007" 2 1] by simp
  ultimately show ?thesis by (simp add: view_le_2)
qed

lemma demo_one: "one_object (CARM_PTR + 0x5007) 2"
  by (simp add: one_object_def off_of_def check_carm_object_def CARM_PTR_def OBJ_SIZE_def)

lemma demo_16: "plain (TInt 16)" "bytes_of (TInt 16) = 2"
  by (simp_all add: plain_def bytes_of_def)

lemma demo_args:
  "mc_args (demo_machine E p x) = [W p, W x]" "f_args (ed_fun (demo o1 t)) = [TPtr (TInt 16), TInt 16]"
  by (simp_all add: demo_machine_def demo_def)

lemma demo_next: "ed_next (demo o1 t) = 5"
  by (simp add: demo_def)

lemmas demo_facts = demo_calls sim_env_laws sim_far_inv demo_args demo_bytes demo_one demo_16 demo_next

theorem guarded_load_witness:
  "\<exists>e' k b q zs r' s'.
    transform_check (VInst 0) (1, Some 2) (demo (Load (TInt 16) (VArg 0)) (TInt 16)) = Done (2, e') \<and>
    steps k (ed_fun e') (demo_machine sim_ops (CARM_PTR + 0x5007) 0)
        (at_marker (ed_fun e') 4 1 0 [0 \<mapsto> Tab 0] demo_state) =
      Done (at_block b q (ins 1 TVoid (Call (VFun CARM_DEREF_DUMMY) [VArg 0]) # ins 2 (TInt 16) (Load (TInt 16) (VArg 0)) # zs) r' s') \<and>
    r' (5 + 27) = Some (W 0x0d0c) \<and> rt_inv sim_view s' \<and> view sim_view demo_state \<subseteq>\<^sub>m view sim_view s'"
  using guarded_load [OF demo_numbered demo_marked(1), where E = sim_ops and V = sim_view and s = demo_state
      and M = "demo_machine sim_ops (CARM_PTR + 0x5007) 0" and r = "[0 \<mapsto> Tab 0]" and pr = 0
      and pv = "CARM_PTR + 0x5007" and w = "0x0d0c" and t = "TInt 16" and p = "VArg 0"]
  by (simp add: demo_facts del: numeral_plus_numeral)

theorem guarded_store_witness:
  "\<exists>e' k b q zs r' s'.
    transform_check (VInst 0) (1, Some 2) (demo (Store (VArg 1) (VArg 0)) TVoid) = Done (2, e') \<and>
    steps k (ed_fun e') (demo_machine sim_ops (CARM_PTR + 0x5007) 0xbeef)
        (at_marker (ed_fun e') 4 1 0 [0 \<mapsto> Tab 0] demo_state) =
      Done (at_block b q (ins 1 TVoid (Call (VFun CARM_DEREF_DUMMY) [VArg 0]) # ins 2 TVoid (Store (VArg 1) (VArg 0)) # zs) r' s') \<and>
    writes sim_view demo_state s' (CARM_PTR + 0x5007) 2 (\<lambda>k. ucast (drop_bit (8 * unat k) (0xbeef :: u64)))"
  using guarded_store [OF demo_numbered demo_marked(2), where E = sim_ops and V = sim_view and s = demo_state
      and M = "demo_machine sim_ops (CARM_PTR + 0x5007) 0xbeef" and r = "[0 \<mapsto> Tab 0]" and pr = 0
      and pv = "CARM_PTR + 0x5007" and w = "0x0d0c" and v = "VArg 1" and x = "0xbeef" and p = "VArg 0"]
  by (simp add: demo_facts)

theorem guard_equals_ptrDeref_witness:
  "\<exists>e' k b q pt zs r'.
    transform_check (VInst 0) (1, Some 2) (demo (Store (VArg 1) (VArg 0)) TVoid) = Done (2, e') \<and>
    steps k (ed_fun e') (demo_machine sim_ops 0x7007 0xbeef) (at_marker (ed_fun e') 4 1 0 [0 \<mapsto> Tab 0] demo_state) =
      Done (at_block b q (guard_access 5 pt (ins 2 TVoid (Store (VArg 1) (VArg 0))) @ zs) r' demo_state) \<and>
    r' (5 + 25) = Some (W 0x7007) \<and> (\<forall>j<5. r' j = [0 \<mapsto> Tab 0] j)"
  using guard_equals_ptrDeref [OF demo_numbered demo_marked(2), where E = sim_ops and s = demo_state
      and M = "demo_machine sim_ops 0x7007 0xbeef" and r = "[0 \<mapsto> Tab 0]" and pr = 0
      and pv = "0x7007" and a = "0x7007" and s' = demo_state]
  by (simp add: demo_facts check_carm_object_def CARM_PTR_def fun_upd_same del: numeral_plus_numeral fun_upd_apply)

end
