(* ===== verification/Init_Pass.thy ===== *)
theory Init_Pass
  imports IR
begin

text \<open>
  \<open>carm_init/src/CatPass.cpp\<close>: the pass that makes the program's \<open>main\<close> the work function
  of the runtime. The body of \<open>main\<close> becomes \<open>do_work\<close>, with the argument count and vector
  asked of the runtime, no return value, and the start of the runtime as its first call; a
  new \<open>main\<close> only calls it. A program that defines \<open>do_work\<close> itself gets the start alone.
\<close>

section \<open>Names\<close>

definition CARM_INIT :: string where "CARM_INIT = ''_Z17init_carm_runtimev''"
definition CARM_GET_ARGS :: string where "CARM_GET_ARGS = ''_Z8get_argsv''"
definition CARM_GET_ARGC :: string where "CARM_GET_ARGC = ''_Z13get_arg_countv''"
definition CARM_WORK :: string where "CARM_WORK = ''_Z7do_workPv''"

section \<open>The start of the runtime\<close>

definition insertion_point :: "func \<Rightarrow> ident run" where
  "insertion_point F =
     (if f_blocks F = [] then Faulted
      else case entry_first_non_phi F of None \<Rightarrow> Aborted | Some x \<Rightarrow> Done (i_id x))"

definition init_runOnFunction :: "edit \<Rightarrow> edit run" where
  "init_runOnFunction e =
     bindR (insertion_point (ed_fun e)) (\<lambda>p.
       bindR (create_function [] CARM_INIT [] TVoid p False e) (\<lambda>(v, e). Done e))"

section \<open>Moving the body of main\<close>

fun is_ret :: "op \<Rightarrow> bool" where "is_ret (Ret r) = True" | "is_ret _ = False"

text \<open>A return gives way to one without value, under a new number.\<close>

fun void_rets :: "ident \<Rightarrow> inst list \<Rightarrow> inst list \<times> ident" where
  "void_rets n [] = ([], n)"
| "void_rets n (x # xs) =
     (if is_ret (i_op x)
      then case void_rets (n + 1) xs of (ys, m) \<Rightarrow> (\<lparr>i_id = n, i_ty = TVoid, i_op = Ret None\<rparr> # ys, m)
      else case void_rets n xs of (ys, m) \<Rightarrow> (x # ys, m))"

fun void_blocks :: "ident \<Rightarrow> block list \<Rightarrow> block list \<times> ident" where
  "void_blocks n [] = ([], n)"
| "void_blocks n (b # bs) =
     (case void_rets n (b_insts b) of (xs, n) \<Rightarrow>
        case void_blocks n bs of (cs, m) \<Rightarrow> (b\<lparr>b_insts := xs\<rparr> # cs, m))"

definition clone_function :: "edit \<Rightarrow> edit" where
  "clone_function e =
     (case void_blocks (ed_next e) (f_blocks (ed_fun e)) of (bs, n) \<Rightarrow>
        e\<lparr>ed_fun := \<lparr>f_name = CARM_WORK, f_ret = TVoid, f_args = [VoidPointer8Type], f_blocks = bs\<rparr>,
          ed_decls := ed_decls e @ [\<lparr>fd_name = CARM_WORK, fd_ret = TVoid, fd_args = [VoidPointer8Type],
                                     fd_vararg = False, fd_empty = False\<rparr>],
          ed_next := n\<rparr>)"

text \<open>The arguments of \<open>main\<close>: reading one it does not have is outside the vector.\<close>

definition transform_main_function :: "edit \<Rightarrow> edit run" where
  "transform_main_function e =
     bindR (insertion_point (ed_fun e)) (\<lambda>p.
       case f_args (ed_fun e) of
         t0 # t1 # _ \<Rightarrow>
           bindR (create_function [] CARM_GET_ARGC [] t0 p False e) (\<lambda>(carm_arg_count, e).
           bindR (create_function [] CARM_GET_ARGS [] t1 p False e) (\<lambda>(carm_args, e).
           bindR (replace_uses (VArg 0) carm_arg_count e) (\<lambda>e.
           bindR (replace_uses (VArg 1) carm_args e) (\<lambda>e.
             init_runOnFunction (clone_function e)))))
       | _ \<Rightarrow> Faulted)"

text \<open>The new \<open>main\<close>: its block, its return, and the call before it, in order of creation.\<close>

definition create_fake_main_for_noelle :: "module \<Rightarrow> module run" where
  "create_fake_main_for_noelle M =
     (let n = m_next M;
          main = \<lparr>f_name = ''main'', f_ret = Int32Type, f_args = [],
                  f_blocks = [\<lparr>b_id = n, b_insts =
                    [\<lparr>i_id = n + 1, i_ty = TVoid, i_op = Ret (Some (VInt Int32Type 0))\<rparr>]\<rparr>]\<rparr>;
          decl = \<lparr>fd_name = ''main'', fd_ret = Int32Type, fd_args = [], fd_vararg = False, fd_empty = False\<rparr>;
          e = edit_of (M\<lparr>m_decls := m_decls M @ [decl], m_next := n + 2\<rparr>) main
      in bindR (create_function [VoidPointer8Type] CARM_WORK [VNull VoidPointer8Type] TVoid (n + 1) False e)
           (\<lambda>(v, e). Done (M\<lparr>m_decls := ed_decls e, m_funs := m_funs M @ [ed_fun e], m_next := ed_next e\<rparr>)))"

section \<open>The pass\<close>

text \<open>
  The scan of \<open>runOnModule\<close>: the last \<open>main\<close> before a work function, and whether there is
  a work function.
\<close>

fun scan_functions :: "func list \<Rightarrow> func option \<Rightarrow> func option \<times> func option" where
  "scan_functions [] mf = (mf, None)"
| "scan_functions (F # Fs) mf =
     (if f_name F = ''main'' then scan_functions Fs (Some F)
      else if f_name F = CARM_WORK then (mf, Some F)
      else scan_functions Fs mf)"

definition replace_function :: "string \<Rightarrow> func list \<Rightarrow> func list \<Rightarrow> func list" where
  "replace_function f Gs Fs = concat (map (\<lambda>F. if f_name F = f then Gs else [F]) Fs)"

text \<open>Erasing a function that is still used is refused.\<close>

definition uses_function :: "string \<Rightarrow> func list \<Rightarrow> bool" where
  "uses_function f Fs = list_ex (\<lambda>F. list_ex (\<lambda>x. VFun f \<in> set (op_operands (i_op x))) (insts F)) Fs"

definition init_runOnModule :: "module \<Rightarrow> module run" where
  "init_runOnModule M =
     (case scan_functions (m_funs M) None of
        (mf, Some carm_work) \<Rightarrow>
          bindR (init_runOnFunction (edit_of M carm_work)) (\<lambda>e.
            Done (M\<lparr>m_decls := ed_decls e, m_next := ed_next e,
                   m_funs := replace_function CARM_WORK [ed_fun e] (m_funs M)\<rparr>))
      | (Some mf, None) \<Rightarrow>
          bindR (transform_main_function (edit_of M mf)) (\<lambda>e.
            let Fs = replace_function ''main'' [] (m_funs M) @ [ed_fun e]
            in if uses_function ''main'' Fs then Faulted
               else create_fake_main_for_noelle
                      (M\<lparr>m_decls := filter (\<lambda>d. fd_name d \<noteq> ''main'') (ed_decls e),
                         m_next := ed_next e, m_funs := Fs\<rparr>))
      | (None, None) \<Rightarrow> Faulted)"

end
