(* ===== verification/Loop_Checks.thy ===== *)
theory Loop_Checks
  imports IR Carm_Config
begin

text \<open>
  \<open>carm_loop_checks/src/CatPass.cpp\<close> and \<open>carm_profile_checks/src/CatPass.cpp\<close>: the passes that
  find address computations in loops whose offset is a linear function of induction variables,
  and put a marker before each that names the pointer, the step of the offset and its start.
  The second pass is the first with a filter on profiled instruction counts, the parameter
  \<open>hot\<close>. The loops and induction variables are those of NOELLE and the sizes of types those of
  LLVM's data layout: fields of the record \<open>noelle\<close>, with the orders in which the code
  iterates over its hash maps and over a set of addresses.
\<close>

section \<open>Facts about the function\<close>

definition CARM_DEREF_LOOP_CONST_DUMMY :: string where
  "CARM_DEREF_LOOP_CONST_DUMMY = ''carm_deref_loop_const''"

text \<open>An induction variable: its phi, whether its step is loop invariant, step and start.\<close>

record iv =
  iv_phi :: ident
  iv_step_invariant :: bool
  iv_step :: "val option"
  iv_start :: val

text \<open>
  One position of an address computation: whether the indexed type is a vector, the offsets of
  the fields when it is a structure, and its allocation size.
\<close>

record gep_step =
  gs_vector :: bool
  gs_struct :: "(nat \<Rightarrow> u64) option"
  gs_alloc :: u64

text \<open>Loops have numbers; \<open>n_loops\<close> lists those of the function.\<close>

record noelle =
  n_loops :: "nat list"
  n_level :: "nat \<Rightarrow> nat"
  n_known :: "nat \<Rightarrow> bool"
  n_ivs :: "nat \<Rightarrow> iv list"
  n_preheader :: "nat \<Rightarrow> ident option"
  n_innermost :: "ident \<Rightarrow> nat option"
  n_invariant :: "nat \<Rightarrow> val \<Rightarrow> bool"
  n_layout :: "ty \<Rightarrow> val list \<Rightarrow> gep_step list"
  n_var_order :: "(val \<times> u64) list \<Rightarrow> (val \<times> u64) list"
  n_gep_order :: "(ident \<times> nat) list \<Rightarrow> (ident \<times> nat) list"

text \<open>The counts of a profile.\<close>

record profile =
  h_invocations :: "nat \<Rightarrow> u64"
  h_self_instructions :: "ident \<Rightarrow> u64"

section \<open>Is the element written?\<close>

text \<open>
  The users of an instruction are followed through casts to a depth; the second component is
  the set of instructions seen.
\<close>

definition users :: "func \<Rightarrow> ident \<Rightarrow> inst list" where
  "users F i = filter (\<lambda>x. VInst i \<in> set (op_operands (i_op x))) (insts F)"

fun is_gep :: "op \<Rightarrow> bool" where "is_gep (Gep t p is) = True" | "is_gep _ = False"
fun is_cast :: "op \<Rightarrow> bool" where "is_cast (Cast c v) = True" | "is_cast _ = False"

definition calls_other :: "op \<Rightarrow> bool" where
  "calls_other o1 = (case called_function o1 of None \<Rightarrow> False | Some f \<Rightarrow> f \<noteq> CARM_DEREF_DUMMY)"

fun is_mutable :: "func \<Rightarrow> ident \<Rightarrow> ident \<Rightarrow> nat \<Rightarrow> ident list \<Rightarrow> bool \<times> ident list"
  and mutable_users :: "func \<Rightarrow> ident \<Rightarrow> ident \<Rightarrow> nat \<Rightarrow> inst list \<Rightarrow> ident list \<Rightarrow> bool \<times> ident list" where
  "is_mutable F orig_gep i 0 seen = (if i \<in> set seen then (False, seen) else (True, i # seen))"
| "is_mutable F orig_gep i (Suc depth) seen =
     (if i \<in> set seen then (False, seen) else mutable_users F orig_gep i depth (users F i) (i # seen))"
| "mutable_users F orig_gep i depth [] seen = (False, seen)"
| "mutable_users F orig_gep i depth (x # xs) seen =
     (if i_id x \<in> set seen then mutable_users F orig_gep i depth xs seen
      else if is_store (i_op x) \<or> is_gep (i_op x) \<and> orig_gep \<noteq> i then (True, seen)
      else if is_cast (i_op x)
      then (case is_mutable F orig_gep (i_id x) depth seen of
              (True, seen) \<Rightarrow> (True, seen)
            | (False, seen) \<Rightarrow> mutable_users F orig_gep i depth xs seen)
      else if is_call (i_op x) \<and> calls_other (i_op x) then (True, seen)
      else mutable_users F orig_gep i depth xs seen)"

section \<open>Candidates\<close>

text \<open>The address computation behind bit casts; the recursion follows operands.\<close>

fun return_gep :: "nat \<Rightarrow> edit \<Rightarrow> val \<Rightarrow> val run" where
  "return_gep 0 e ptr = OutOfFuel"
| "return_gep (Suc f) e ptr =
     (case ptr of
        VInst i \<Rightarrow>
          (case find_inst e i of
             None \<Rightarrow> Done ptr
           | Some x \<Rightarrow> (case i_op x of
               Cast c v \<Rightarrow> if c = BitCast then return_gep f e v else Done ptr
             | _ \<Rightarrow> Done ptr))
      | _ \<Rightarrow> Done ptr)"

lemma return_gep_more [fuel_mono]: "return_gep f e p \<le> return_gep (Suc f) e p"
proof (induction f arbitrary: p)
  case (Suc f)
  show ?case
    by (subst return_gep.simps(2) [of f], subst return_gep.simps(2) [of "Suc f"])
      (auto simp del: return_gep.simps split: val.split option.split op.split intro!: Suc)
qed simp

text \<open>The markers whose pointer is an instruction, with that instruction.\<close>

fun parse_markers :: "nat \<Rightarrow> edit \<Rightarrow> inst list \<Rightarrow> (ident \<times> ident) list run" where
  "parse_markers f e [] = Done []"
| "parse_markers f e (x # xs) =
     (if called_function (i_op x) = Some CARM_DEREF_DUMMY
      then (case op_operands (i_op x) of
              [] \<Rightarrow> Faulted
            | p # _ \<Rightarrow> bindR (return_gep f e p) (\<lambda>ptr.
                bindR (parse_markers f e xs) (\<lambda>cs.
                  Done (case ptr of VInst i \<Rightarrow> (i_id x, i) # cs | _ \<Rightarrow> cs))))
      else parse_markers f e xs)"

definition parse_carm_check_gep_instructions :: "nat \<Rightarrow> edit \<Rightarrow> (ident \<times> ident) list run" where
  "parse_carm_check_gep_instructions f e = parse_markers f e (insts (ed_fun e))"

definition min_ratio :: u64 where "min_ratio = 730"

definition hot_enough :: "profile option \<Rightarrow> nat \<Rightarrow> ident \<Rightarrow> bool" where
  "hot_enough hot l g =
     (case hot of
        None \<Rightarrow> True
      | Some h \<Rightarrow> h_invocations h l \<noteq> 0 \<and> min_ratio \<le> h_self_instructions h g div h_invocations h l)"

text \<open>A check's candidate: an address computation in a loop in which its pointer is invariant.\<close>

definition candidate :: "profile option \<Rightarrow> noelle \<Rightarrow> edit \<Rightarrow> ident \<Rightarrow> (ident \<times> nat) list" where
  "candidate hot N e i =
     (case (n_innermost N i, find_inst e i) of
        (Some l, Some x) \<Rightarrow>
          (case i_op x of
             Gep t p is \<Rightarrow> if hot_enough hot l i \<and> n_invariant N l p then [(i, l)] else []
           | _ \<Rightarrow> [])
      | _ \<Rightarrow> [])"

definition identify_candidate_geps ::
    "profile option \<Rightarrow> noelle \<Rightarrow> edit \<Rightarrow> (ident \<times> ident) list \<Rightarrow> (ident \<times> nat) list" where
  "identify_candidate_geps hot N e cs = remdups (concat (map (\<lambda>c. candidate hot N e (snd c)) cs))"

section \<open>Induction variables\<close>

type_synonym iv_map = "ident \<Rightarrow> iv option"

fun add_ivs :: "iv list \<Rightarrow> iv_map \<times> bool \<Rightarrow> iv_map \<times> bool" where
  "add_ivs [] st = st"
| "add_ivs (v # vs) st =
     (if iv_step_invariant v then add_ivs vs ((fst st)(iv_phi v \<mapsto> v), True) else add_ivs vs st)"

fun add_loops_to_instrument :: "noelle \<Rightarrow> nat \<Rightarrow> nat list \<Rightarrow> iv_map \<times> bool \<Rightarrow> iv_map \<times> bool" where
  "add_loops_to_instrument N nesting_level [] st = st"
| "add_loops_to_instrument N nesting_level (l # ls) st =
     (if nesting_level < n_level N l \<or> \<not> n_known N l then add_loops_to_instrument N nesting_level ls st
      else add_loops_to_instrument N nesting_level ls (add_ivs (n_ivs N l) st))"

definition analyze_loops :: "noelle \<Rightarrow> iv_map \<times> bool" where
  "analyze_loops N =
     (if n_loops N = [] then (\<lambda>_. None, False)
      else add_loops_to_instrument N 3 (n_loops N) (\<lambda>_. None, False))"

definition iv_of :: "iv_map \<Rightarrow> val \<Rightarrow> iv option" where
  "iv_of ivs v = (case v of VInst i \<Rightarrow> ivs i | _ \<Rightarrow> None)"

section \<open>The offset of an address computation\<close>

text \<open>\<open>sextOrTrunc\<close> of a constant of \<open>n\<close> bits to the 64 bits of an address.\<close>

definition sext_const :: "nat \<Rightarrow> u64 \<Rightarrow> u64" where
  "sext_const n c = (if n = 0 \<or> 64 \<le> n then c else if bit c (n - 1) then c OR NOT (mask n) else c AND mask n)"

fun add_variable :: "val \<Rightarrow> u64 \<Rightarrow> (val \<times> u64) list \<Rightarrow> (val \<times> u64) list" where
  "add_variable v k [] = [(v, k)]"
| "add_variable v k ((w, m) # vs) = (if w = v then (w, m + k) # vs else (w, m) # add_variable v k vs)"

text \<open>The factor of each variable, in order of first appearance, and the constant part.\<close>

fun collectOffset ::
    "(val \<times> gep_step) list \<Rightarrow> (val \<times> u64) list \<Rightarrow> u64 \<Rightarrow> ((val \<times> u64) list \<times> u64) option" where
  "collectOffset [] vars c = Some (vars, c)"
| "collectOffset ((v, s) # vs) vars c =
     (case v of
        VInt t k \<Rightarrow>
          if gs_vector s then None
          else (case gs_struct s of
                  Some off \<Rightarrow> collectOffset vs vars (c + off (unat k))
                | None \<Rightarrow> collectOffset vs vars (c + sext_const (bits t) k * gs_alloc s))
      | _ \<Rightarrow>
          if gs_struct s \<noteq> None \<or> gs_vector s then None
          else if gs_alloc s = 0 then collectOffset vs vars c
          else collectOffset vs (add_variable v (gs_alloc s) vars) c)"

definition calculate_offset_gep ::
    "iv_map \<Rightarrow> (val \<times> gep_step) list \<Rightarrow> ((val \<times> u64) list \<times> u64) option" where
  "calculate_offset_gep ivs ops =
     (case collectOffset ops [] 0 of
        None \<Rightarrow> None
      | Some (vars, c) \<Rightarrow> if list_all (\<lambda>(v, k). iv_of ivs v \<noteq> None) vars then Some (vars, c) else None)"

definition check_if_loop_nesting_level_is_equal :: "noelle \<Rightarrow> val \<Rightarrow> ident \<Rightarrow> bool" where
  "check_if_loop_nesting_level_is_equal N v g =
     (case v of
        VInst i \<Rightarrow> (case (n_innermost N i, n_innermost N g) of
                      (Some l0, Some l1) \<Rightarrow> n_level N l0 = n_level N l1
                    | _ \<Rightarrow> False)
      | _ \<Rightarrow> False)"

section \<open>Start and step before the loop\<close>

text \<open>The multiplications and additions are built at the end of the preheader.\<close>

definition terminator :: "ident \<Rightarrow> edit \<Rightarrow> ident run" where
  "terminator b e =
     (case find (\<lambda>x. b_id x = b) (f_blocks (ed_fun e)) of
        None \<Rightarrow> Faulted
      | Some x \<Rightarrow> if b_insts x \<noteq> [] \<and> is_term (i_op (last (b_insts x))) then Done (i_id (last (b_insts x))) else Faulted)"

text \<open>Operands of different types are refused.\<close>

definition create_mul :: "ident \<Rightarrow> val \<Rightarrow> val \<Rightarrow> edit \<Rightarrow> (val \<times> edit) run" where
  "create_mul p v w e = (if type_of e v = type_of e w then Done (create_bin p Mul v w e) else Faulted)"

text \<open>
  The step and start terms of each variable: zero and the variable itself when it belongs to a
  loop of another nesting level, otherwise its step and its start. The last result counts the
  former.
\<close>

fun interim ::
    "noelle \<Rightarrow> iv_map \<Rightarrow> ident \<Rightarrow> ident \<Rightarrow> (val \<times> u64) list \<Rightarrow> edit \<Rightarrow> (val list \<times> val list \<times> nat \<times> edit) run" where
  "interim N ivs g p [] e = Done ([], [], 0, e)"
| "interim N ivs g p ((v, k) # vs) e =
     (if \<not> check_if_loop_nesting_level_is_equal N v g
      then bindR (create_mul p (VInt Int64Type 0) v e) (\<lambda>(st, e).
           bindR (create_mul p (VInt Int64Type k) v e) (\<lambda>(sa, e).
           bindR (interim N ivs g p vs e) (\<lambda>(sts, sas, const_size, e).
             Done (st # sts, sa # sas, const_size + 1, e))))
      else case iv_of ivs v of
             None \<Rightarrow> Faulted
           | Some i \<Rightarrow>
               (case iv_step i of
                  None \<Rightarrow> Faulted
                | Some w \<Rightarrow>
                    bindR (create_mul p (VInt Int64Type k) w e) (\<lambda>(st, e).
                    bindR (create_mul p (VInt Int64Type k) (iv_start i) e) (\<lambda>(sa, e).
                    bindR (interim N ivs g p vs e) (\<lambda>(sts, sas, const_size, e).
                      Done (st # sts, sa # sas, const_size, e))))))"

fun sum_terms :: "ident \<Rightarrow> val \<Rightarrow> val list \<Rightarrow> edit \<Rightarrow> val \<times> edit" where
  "sum_terms p prev [] e = (prev, e)"
| "sum_terms p prev (v # vs) e = (case create_bin p Add v prev e of (add, e) \<Rightarrow> sum_terms p add vs e)"

record carm_gep =
  cg_gep :: ident
  cg_step :: val
  cg_start :: val
  cg_const :: bool

text \<open>One candidate; a constant part above an object's size is given up after the code is built.\<close>

definition check_gep :: "noelle \<Rightarrow> iv_map \<Rightarrow> ident \<times> nat \<Rightarrow> edit \<Rightarrow> (carm_gep list \<times> edit) run" where
  "check_gep N ivs gl e =
     (case gl of (g, l) \<Rightarrow>
        case find_inst e g of
          None \<Rightarrow> Faulted
        | Some x \<Rightarrow>
            (case i_op x of
               Gep t ptr is \<Rightarrow>
                 (case calculate_offset_gep ivs (zip is (n_layout N t is)) of
                    None \<Rightarrow> Done ([], e)
                  | Some (VariableOffsets, COffset) \<Rightarrow>
                      (case n_preheader N l of
                         None \<Rightarrow> Faulted
                       | Some ph \<Rightarrow>
                           bindR (terminator ph e) (\<lambda>p.
                           bindR (interim N ivs g p (n_var_order N VariableOffsets) e)
                             (\<lambda>(steps, starts, const_size, e).
                               case (steps, starts) of
                                 (step0 # steps, start0 # starts) \<Rightarrow>
                                   (case sum_terms p start0 starts e of (start_prev, e) \<Rightarrow>
                                    case sum_terms p step0 steps e of (step_prev, e) \<Rightarrow>
                                    case create_bin p Add start_prev (VInt Int64Type COffset) e of (start, e) \<Rightarrow>
                                      if int (unat OBJ_SIZE) < sint COffset then Done ([], e)
                                      else Done ([\<lparr>cg_gep = g, cg_step = step_prev, cg_start = start,
                                                    cg_const = (length VariableOffsets = const_size)\<rparr>], e))
                               | _ \<Rightarrow> Done ([], e)))))
             | _ \<Rightarrow> Faulted))"

fun check_gep_offsets :: "noelle \<Rightarrow> iv_map \<Rightarrow> (ident \<times> nat) list \<Rightarrow> edit \<Rightarrow> (carm_gep list \<times> edit) run" where
  "check_gep_offsets N ivs [] e = Done ([], e)"
| "check_gep_offsets N ivs (gl # gls) e =
     bindR (check_gep N ivs gl e) (\<lambda>(cs, e).
       bindR (check_gep_offsets N ivs gls e) (\<lambda>(ds, e). Done (cs @ ds, e)))"

section \<open>The markers\<close>

definition instrument_gep :: "carm_gep \<Rightarrow> edit \<Rightarrow> edit run" where
  "instrument_gep gp e =
     (case find_inst e (cg_gep gp) of
        None \<Rightarrow> Faulted
      | Some x \<Rightarrow>
          (case i_op x of
             Gep t ptr is \<Rightarrow>
               bindR (create_pointercast (cg_gep gp) ptr VoidPointer8Type e) (\<lambda>(a, e).
                 let mut = fst (is_mutable (ed_fun e) (cg_gep gp) (cg_gep gp) 3 [])
                 in bindR (create_function [VoidPointer8Type, Int64Type, Int64Type, Int64Type]
                       (if cg_const gp then CARM_DEREF_LOOP_CONST_DUMMY else CARM_DEREF_LOOP_DUMMY)
                       [a, cg_step gp, cg_start gp, VInt Int64Type (if mut then 1 else 0)] TVoid
                       (cg_gep gp) False e) (\<lambda>(v, e). Done e))
           | _ \<Rightarrow> Faulted))"

fun instrument_each :: "carm_gep list \<Rightarrow> edit \<Rightarrow> edit run" where
  "instrument_each [] e = Done e"
| "instrument_each (gp # gps) e = bindR (instrument_gep gp e) (instrument_each gps)"

text \<open>The set of candidates to instrument is iterated in the order of its addresses.\<close>

definition instrument_geps ::
    "(carm_gep list \<Rightarrow> carm_gep list) \<Rightarrow> noelle \<Rightarrow> iv_map \<Rightarrow> (ident \<times> nat) list \<Rightarrow> edit \<Rightarrow> edit run" where
  "instrument_geps order N ivs candidate_geps e =
     bindR (check_gep_offsets N ivs (n_gep_order N candidate_geps) e) (\<lambda>(gps, e).
       instrument_each (order gps) e)"

section \<open>The pass\<close>

definition loop_checks_runOnFunction ::
    "nat \<Rightarrow> (carm_gep list \<Rightarrow> carm_gep list) \<Rightarrow> profile option \<Rightarrow> noelle \<Rightarrow> edit \<Rightarrow> edit run" where
  "loop_checks_runOnFunction f order hot N e =
     (case analyze_loops N of
        (ivs, True) \<Rightarrow>
          bindR (parse_carm_check_gep_instructions f e) (\<lambda>carm_checks.
            instrument_geps order N ivs (identify_candidate_geps hot N e carm_checks) e)
      | (ivs, False) \<Rightarrow> Done e)"

text \<open>\<open>map_loops_function\<close>: the loops of the module, each with its function.\<close>

definition map_loops_function :: "(nat \<times> string) list \<Rightarrow> string \<Rightarrow> nat list" where
  "map_loops_function ls_list f = map fst (filter (\<lambda>(l, g). g = f) ls_list)"

definition loop_checks_visit ::
    "nat \<Rightarrow> (carm_gep list \<Rightarrow> carm_gep list) \<Rightarrow> profile option \<Rightarrow> (nat \<times> string) list \<Rightarrow> noelle \<Rightarrow> edit \<Rightarrow> edit run" where
  "loop_checks_visit f order hot ls_list N e =
     (if skipped (ed_fun e) \<or> contains ''cxx_global_var_init'' (f_name (ed_fun e)) then Done e
      else loop_checks_runOnFunction f order hot
             (N\<lparr>n_loops := map_loops_function ls_list (f_name (ed_fun e))\<rparr>) e)"

definition loop_checks_runOnModule ::
    "nat \<Rightarrow> (carm_gep list \<Rightarrow> carm_gep list) \<Rightarrow> profile option \<Rightarrow> (nat \<times> string) list \<Rightarrow> noelle \<Rightarrow> module \<Rightarrow> module run" where
  "loop_checks_runOnModule f order hot ls_list N M =
     (if ls_list = [] then Done M else run_module (loop_checks_visit f order hot ls_list N) M)"

text \<open>\<open>carm_profile_checks\<close>: the same with the filter.\<close>

definition profile_identify_candidate_geps ::
    "profile \<Rightarrow> noelle \<Rightarrow> edit \<Rightarrow> (ident \<times> ident) list \<Rightarrow> (ident \<times> nat) list" where
  "profile_identify_candidate_geps h = identify_candidate_geps (Some h)"

definition profile_runOnFunction ::
    "nat \<Rightarrow> (carm_gep list \<Rightarrow> carm_gep list) \<Rightarrow> profile \<Rightarrow> noelle \<Rightarrow> edit \<Rightarrow> edit run" where
  "profile_runOnFunction f order h = loop_checks_runOnFunction f order (Some h)"

definition profile_runOnModule ::
    "nat \<Rightarrow> (carm_gep list \<Rightarrow> carm_gep list) \<Rightarrow> profile \<Rightarrow> (nat \<times> string) list \<Rightarrow> noelle \<Rightarrow> module \<Rightarrow> module run" where
  "profile_runOnModule f order h = loop_checks_runOnModule f order (Some h)"

end
