(* ===== verification/Loop_Start.thy ===== *)
theory Loop_Start
  imports Loop_Checks IR_Edit Guard_Exec "HOL-Library.Multiset"
begin

text \<open>
  The start and the step that \<open>carm_loop_checks\<close> passes to a loop marker: the code it builds
  before the loop computes them, and in every iteration the offset of the address computation
  is the start plus the iteration's number times the step.
\<close>

section \<open>Values of a straight line of arithmetic\<close>

fun run_bins :: "'e machine \<Rightarrow> regs \<Rightarrow> inst list \<Rightarrow> regs option" where
  "run_bins M r [] = Some r"
| "run_bins M r (x # xs) =
     (case i_op x of
        Bin b v w \<Rightarrow> (case bin_val b (i_ty x) (eval M r v) (eval M r w) of
                        Some y \<Rightarrow> run_bins M (r(i_id x \<mapsto> y)) xs | None \<Rightarrow> None)
      | _ \<Rightarrow> None)"

lemma run_bins_append: "run_bins M r (xs @ ys) = Option.bind (run_bins M r xs) (\<lambda>r. run_bins M r ys)"
  by (induction xs arbitrary: r) (auto split: op.split option.split)

lemma steps_bins:
  "run_bins M r ds = Some r' \<Longrightarrow>
   steps (length ds) F M (at_block b pr (ds @ ys) r s) = Done (at_block b pr ys r' s)"
  by (induction ds arbitrary: r)
    (auto simp: step_def exec_op_def at_block_simps of_opt_def split: op.splits option.splits)

text \<open>Instructions inserted in order before \<open>p\<close>.\<close>

definition ins_seq :: "ident \<Rightarrow> inst list \<Rightarrow> block list \<Rightarrow> block list" where
  "ins_seq p ds bs = fold (\<lambda>d. map (ins_blk p d)) ds bs"

lemma ins_seq_at:
  "lacks_all p bs \<Longrightarrow> lacks_all p cs \<Longrightarrow> lacks p xs \<Longrightarrow> i_id t = p \<Longrightarrow> lacks p ys \<Longrightarrow> lacks p ds \<Longrightarrow>
   ins_seq p ds (bs @ \<lparr>b_id = h, b_insts = xs @ t # ys\<rparr> # cs) = bs @ \<lparr>b_id = h, b_insts = xs @ ds @ t # ys\<rparr> # cs"
proof (induction ds arbitrary: xs)
  case (Cons d ds)
  have "map (ins_blk p d) (bs @ \<lparr>b_id = h, b_insts = xs @ t # ys\<rparr> # cs) =
      bs @ \<lparr>b_id = h, b_insts = (xs @ [d]) @ t # ys\<rparr> # cs"
    using Cons.prems by (simp add: ins_blk_def insert_append)
  then show ?case using Cons.IH [of "xs @ [d]"] Cons.prems by (simp add: ins_seq_def)
qed (simp add: ins_seq_def)

text \<open>All numbers are below the next, and \<open>p\<close> is one of the instructions.\<close>

definition has_point :: "ident \<Rightarrow> edit \<Rightarrow> bool" where
  "has_point p e \<longleftrightarrow> (\<exists>x\<in>set (insts (ed_fun e)). i_id x = p) \<and> (\<forall>x\<in>set (insts (ed_fun e)). i_id x < ed_next e)"

text \<open>From \<open>e\<close> to \<open>e'\<close> arithmetic was inserted before \<open>p\<close>, which takes registers \<open>r\<close> to \<open>r'\<close>.\<close>

definition emitted :: "'e machine \<Rightarrow> ident \<Rightarrow> edit \<Rightarrow> edit \<Rightarrow> inst list \<Rightarrow> regs \<Rightarrow> regs \<Rightarrow> bool" where
  "emitted M p e e' ds r r' \<longleftrightarrow>
     e' = with_blocks e (ins_seq p ds (f_blocks (ed_fun e))) (ed_next e + length ds) \<and>
     (\<forall>d\<in>set ds. ed_next e \<le> i_id d) \<and> run_bins M r ds = Some r' \<and> (\<forall>i<ed_next e. r' i = r i)"

lemma emitted_refl [simp]: "emitted M p e e [] r r"
  by (simp add: emitted_def ins_seq_def with_blocks_def)

lemma emitted_trans:
  assumes "emitted M p e1 e2 ds r1 r2" "emitted M p e2 e3 fs r2 r3"
  shows "emitted M p e1 e3 (ds @ fs) r1 r3"
  using assms by (auto simp: emitted_def ins_seq_def run_bins_append add.assoc)

text \<open>A 64-bit value in the current registers.\<close>

definition holds :: "'e machine \<Rightarrow> edit \<Rightarrow> regs \<Rightarrow> val \<Rightarrow> u64 \<Rightarrow> bool" where
  "holds M e r v x \<longleftrightarrow> eval M r v = Some (W x) \<and> val_below (ed_next e) v \<and> type_of e v = Int64Type"

lemma find_insert_before:
  "i_id x \<noteq> i \<Longrightarrow> find (\<lambda>y. i_id y = i) (insert_before_in p x xs) = find (\<lambda>y. i_id y = i) xs"
  by (induction xs) auto

lemma find_map_ins:
  assumes "i_id x \<noteq> i"
  shows "find (\<lambda>y. i_id y = i) (concat (map b_insts (map (ins_blk p x) bs))) =
    find (\<lambda>y. i_id y = i) (concat (map b_insts bs))"
proof -
  have g: "find (\<lambda>y. i_id y = i) (b_insts (ins_blk p x b)) = find (\<lambda>y. i_id y = i) (b_insts b)" for b
    by (simp add: ins_blk_def find_insert_before [OF assms])
  show ?thesis by (induction bs) (simp_all add: find_append g cong: option.case_cong del: map_map)
qed

lemma find_ins_seq:
  "(\<forall>d\<in>set ds. i_id d \<noteq> i) \<Longrightarrow> find (\<lambda>y. i_id y = i) (concat (map b_insts (ins_seq p ds bs))) =
    find (\<lambda>y. i_id y = i) (concat (map b_insts bs))"
proof (induction ds arbitrary: bs)
  case (Cons d ds)
  have "ins_seq p (d # ds) bs = ins_seq p ds (map (ins_blk p d) bs)" by (simp add: ins_seq_def)
  then show ?case using Cons.IH [of "map (ins_blk p d) bs"] Cons.prems find_map_ins [of d i p bs] by simp
qed (simp add: ins_seq_def)

lemma emitted_type:
  assumes "emitted M p e e' ds r r'" "val_below (ed_next e) v"
  shows "type_of e' v = type_of e v"
proof (cases v)
  case (VInst i)
  with assms have i: "\<forall>d\<in>set ds. i_id d \<noteq> i" by (auto simp: emitted_def)
  have "find_inst e' i = find_inst e i"
    using assms(1) find_ins_seq [OF i] by (simp add: emitted_def find_inst_blocks) (simp add: find_inst_def insts_def)
  with VInst show ?thesis by simp
qed (use assms(1) in \<open>auto simp: emitted_def\<close>)

lemma emitted_holds:
  assumes "emitted M p e e' ds r r'" "holds M e r v x"
  shows "holds M e' r' v x"
proof -
  have "ed_next e \<le> ed_next e'" "\<forall>i<ed_next e. r' i = r i" using assms(1) by (auto simp: emitted_def)
  then show ?thesis
    using assms(2) emitted_type [OF assms(1)] eval_below [of "ed_next e" v r r' M] val_below_mono
    by (auto simp: holds_def)
qed

lemma emitted_next: "emitted M p e e' ds r r' \<Longrightarrow> ed_next e \<le> ed_next e'"
  by (simp add: emitted_def)

lemma type_of_new:
  assumes "has_point p e"
  shows "type_of (snd (build p t o1 e)) (VInst (ed_next e)) = t"
proof -
  let ?x = "\<lparr>i_id = ed_next e, i_ty = t, i_op = o1\<rparr>"
  have new: "find (\<lambda>y. i_id y = ed_next e) (insert_before_in p ?x xs) = Some ?x"
    if "\<exists>x\<in>set xs. i_id x = p" "\<forall>x\<in>set xs. i_id x < ed_next e" for xs
    using that by (induction xs) auto
  have old: "find (\<lambda>y. i_id y = ed_next e) (insert_before_in p ?x xs) = None"
    if "\<forall>x\<in>set xs. i_id x \<noteq> p" "\<forall>x\<in>set xs. i_id x < ed_next e" for xs
    using that by (induction xs) auto
  have "find (\<lambda>y. i_id y = ed_next e) (concat (map b_insts (map (ins_blk p ?x) bs))) = Some ?x"
    if "\<exists>b\<in>set bs. \<exists>x\<in>set (b_insts b). i_id x = p" "\<forall>b\<in>set bs. \<forall>x\<in>set (b_insts b). i_id x < ed_next e" for bs
    using that
  proof (induction bs)
    case (Cons b bs)
    have i: "b_insts (ins_blk p ?x b) = insert_before_in p ?x (b_insts b)" by (simp add: ins_blk_def)
    show ?case
    proof (cases "\<exists>x\<in>set (b_insts b). i_id x = p")
      case True
      with Cons.prems show ?thesis by (simp add: find_append i new del: map_map)
    next
      case False
      with Cons show ?thesis by (simp add: find_append i old del: map_map)
    qed
  qed simp
  from this [of "f_blocks (ed_fun e)"] assms
  have "find (\<lambda>y. i_id y = ed_next e) (concat (map b_insts (map (ins_blk p ?x) (f_blocks (ed_fun e))))) = Some ?x"
    by (auto simp: has_point_def insts_def)
  then show ?thesis
    using build_blocks [of p t o1 e "f_blocks (ed_fun e)" "ed_next e"]
    by (simp add: with_blocks_self find_inst_blocks del: map_map)
qed

lemma has_point_build: "has_point p e \<Longrightarrow> has_point p (snd (build p t o1 e))"
proof -
  assume hp: "has_point p e"
  then show ?thesis
    using insts_insert_before [where p = p and x = "\<lparr>i_id = ed_next e, i_ty = t, i_op = o1\<rparr>" and F = "ed_fun e"]
    by (fastforce simp: has_point_def build_def)
qed

text \<open>One operation on two known values.\<close>

lemma bin_holds:
  assumes "has_point p e" "holds M e r v x" "holds M e r w y" "bin_word b x y = Some z"
    and c: "create_bin p b v w e = (u, e')"
  shows "\<exists>ds r'. emitted M p e e' ds r r' \<and> holds M e' r' u z \<and> has_point p e'"
proof (cases "is_const v \<and> is_const w")
  case True
  then have u: "u = VBinC b v w Int64Type" "e' = e" using c assms(2) by (auto simp: create_bin_def holds_def)
  have "holds M e r u z" using assms(2-4) by (simp add: u holds_def bin_val_def clip_64)
  with u assms(1) show ?thesis by (metis emitted_refl)
next
  case False
  then have b: "build p Int64Type (Bin b v w) e = (u, e')" using c assms(2) by (auto simp: create_bin_def holds_def)
  let ?d = "\<lparr>i_id = ed_next e, i_ty = Int64Type, i_op = Bin b v w\<rparr>"
  have u: "u = VInst (ed_next e)" using b by (simp add: build_def)
  have e': "e' = with_blocks e (ins_seq p [?d] (f_blocks (ed_fun e))) (ed_next e + 1)"
    using b build_blocks [of p Int64Type "Bin b v w" e "f_blocks (ed_fun e)" "ed_next e"]
    by (simp add: with_blocks_self ins_seq_def)
  have r: "run_bins M r [?d] = Some (r(ed_next e \<mapsto> W z))"
    using assms(2-4) by (simp add: holds_def bin_val_def clip_64)
  have "emitted M p e e' [?d] r (r(ed_next e \<mapsto> W z))"
    using r by (simp add: emitted_def e')
  moreover have "holds M e' (r(ed_next e \<mapsto> W z)) u z"
    using type_of_new [OF assms(1), of Int64Type "Bin b v w"] b by (simp add: holds_def u e')
  moreover have "has_point p e'" using has_point_build [OF assms(1), of Int64Type "Bin b v w"] b by simp
  ultimately show ?thesis by blast
qed

section \<open>The terms of the variables\<close>

text \<open>
  The operand of a variable's start and step terms: at the level of the address computation the
  start and the step of the induction variable, at another level the variable itself and zero.
\<close>

definition iv_operands :: "noelle \<Rightarrow> iv_map \<Rightarrow> ident \<Rightarrow> val \<Rightarrow> val \<times> val option" where
  "iv_operands N ivs g v =
     (if check_if_loop_nesting_level_is_equal N v g
      then case iv_of ivs v of Some i \<Rightarrow> (iv_start i, iv_step i) | None \<Rightarrow> (v, None)
      else (v, None))"

text \<open>Before the loop, variable \<open>v\<close> starts at \<open>A v\<close> and grows by \<open>D v\<close>.\<close>

definition iv_values ::
    "noelle \<Rightarrow> iv_map \<Rightarrow> ident \<Rightarrow> 'e machine \<Rightarrow> ident \<Rightarrow> regs \<Rightarrow> (val \<Rightarrow> u64) \<Rightarrow> (val \<Rightarrow> u64) \<Rightarrow> val \<Rightarrow> bool" where
  "iv_values N ivs g M n r A D v \<longleftrightarrow>
     (case iv_operands N ivs g v of (a, d) \<Rightarrow>
        eval M r a = Some (W (A v)) \<and> val_below n a \<and>
        (case d of None \<Rightarrow> D v = 0 | Some w \<Rightarrow> eval M r w = Some (W (D v)) \<and> val_below n w))"

lemma mul_holds:
  assumes "has_point p e" "create_mul p (VInt Int64Type k) w e = Done (u, e')"
    and "eval M r w = Some (W x)" "val_below (ed_next e) w"
  shows "\<exists>ds r'. emitted M p e e' ds r r' \<and> holds M e' r' u (k * x) \<and> has_point p e'"
proof (rule bin_holds [OF assms(1)])
  show "holds M e r (VInt Int64Type k) k" by (simp add: holds_def clip_64)
  show "holds M e r w x" using assms(2-4) by (simp add: holds_def create_mul_def split: if_splits)
  show "create_bin p Mul (VInt Int64Type k) w e = (u, e')" using assms(2) by (simp add: create_mul_def split: if_splits)
qed simp

lemma iv_values_emitted:
  assumes "iv_values N ivs g M (ed_next e) r A D v" "emitted M p e e' ds r r'"
  shows "iv_values N ivs g M (ed_next e') r' A D v"
proof -
  have "eval M r' a = eval M r a" "val_below (ed_next e') a" if "val_below (ed_next e) a" for a
    using assms(2) eval_below [OF that, of r r' M] val_below_mono [OF that] by (auto simp: emitted_def)
  with assms(1) show ?thesis by (auto simp: iv_values_def split: prod.splits option.splits)
qed

lemma interim_holds:
  assumes "interim N ivs g p vs e = Done (sts, sas, c, e')" "has_point p e"
    and "\<forall>(v, k)\<in>set vs. iv_values N ivs g M (ed_next e) r A D v"
  shows "\<exists>ds r'. emitted M p e e' ds r r' \<and> has_point p e' \<and>
    list_all2 (\<lambda>u (v, k). holds M e' r' u (k * D v)) sts vs \<and>
    list_all2 (\<lambda>u (v, k). holds M e' r' u (k * A v)) sas vs \<and>
    c = length (filter (\<lambda>(v, k). \<not> check_if_loop_nesting_level_is_equal N v g) vs)"
  using assms
proof (induction vs arbitrary: e r sts sas c)
  case Nil
  then show ?case by (intro exI [of _ "[]"] exI [of _ r]) auto
next
  case (Cons vk vs)
  obtain v k where vk: "vk = (v, k)" by (cases vk)
  let ?same = "check_if_loop_nesting_level_is_equal N v g"
  have val: "iv_values N ivs g M (ed_next e) r A D v" using Cons.prems(3) by (simp add: vk)
  obtain w1 k1 x1 w2 st sa e1 e2 stl sal c' where
    m: "create_mul p (VInt Int64Type k1) w1 e = Done (st, e1)" "create_mul p (VInt Int64Type k) w2 e1 = Done (sa, e2)"
    and rest: "interim N ivs g p vs e2 = Done (stl, sal, c', e')"
    and out: "sts = st # stl" "sas = sa # sal" "c = (if ?same then c' else c' + 1)"
    and w: "eval M r w1 = Some (W x1)" "k1 * x1 = k * D v" "val_below (ed_next e) w1"
      "eval M r w2 = Some (W (A v))" "val_below (ed_next e) w2"
  proof (cases ?same)
    case False
    from Cons.prems(1) obtain st sa e1 e2 stl sal c' where
      "create_mul p (VInt Int64Type 0) v e = Done (st, e1)" "create_mul p (VInt Int64Type k) v e1 = Done (sa, e2)"
      "interim N ivs g p vs e2 = Done (stl, sal, c', e')" "sts = st # stl" "sas = sa # sal" "c = c' + 1"
      using False by (auto simp: vk bindR_Done_iff)
    moreover from val False have "eval M r v = Some (W (A v))" "val_below (ed_next e) v" "D v = 0"
      by (simp_all add: iv_values_def iv_operands_def)
    ultimately show ?thesis using False that [of 0 v st e1 v sa e2 stl sal c' "A v"] by simp
  next
    case True
    from Cons.prems(1) obtain i w st sa e1 e2 stl sal where
      i: "iv_of ivs v = Some i" "iv_step i = Some w" and
      "create_mul p (VInt Int64Type k) w e = Done (st, e1)" "create_mul p (VInt Int64Type k) (iv_start i) e1 = Done (sa, e2)"
      "interim N ivs g p vs e2 = Done (stl, sal, c, e')" "sts = st # stl" "sas = sa # sal"
      using True by (auto simp: vk bindR_Done_iff split: option.splits)
    moreover from val True i have "eval M r (iv_start i) = Some (W (A v))" "val_below (ed_next e) (iv_start i)"
      "eval M r w = Some (W (D v))" "val_below (ed_next e) w"
      by (simp_all add: iv_values_def iv_operands_def)
    ultimately show ?thesis using True that [of k w st e1 "iv_start i" sa e2 stl sal c "D v"] by simp
  qed
  from mul_holds [OF Cons.prems(2) m(1) w(1,3)] obtain d1 r1 where
    1: "emitted M p e e1 d1 r r1" "holds M e1 r1 st (k * D v)" "has_point p e1" by (auto simp: w(2))
  have w2: "eval M r1 w2 = Some (W (A v))" "val_below (ed_next e1) w2"
    using 1(1) w(4,5) eval_below [OF w(5), of r r1 M] val_below_mono [OF w(5)] by (auto simp: emitted_def)
  from mul_holds [OF 1(3) m(2) w2] obtain d2 r2 where
    2: "emitted M p e1 e2 d2 r1 r2" "holds M e2 r2 sa (k * A v)" "has_point p e2" by blast
  note e2 = emitted_trans [OF 1(1) 2(1)]
  have "\<forall>(v, k)\<in>set vs. iv_values N ivs g M (ed_next e2) r2 A D v"
    using Cons.prems(3) iv_values_emitted [OF _ e2] by auto
  from Cons.IH [OF rest 2(3) this] obtain d3 r3 where
    3: "emitted M p e2 e' d3 r2 r3" "has_point p e'"
      "list_all2 (\<lambda>u (v, k). holds M e' r3 u (k * D v)) stl vs"
      "list_all2 (\<lambda>u (v, k). holds M e' r3 u (k * A v)) sal vs"
      "c' = length (filter (\<lambda>(v, k). \<not> check_if_loop_nesting_level_is_equal N v g) vs)" by blast
  have "holds M e' r3 st (k * D v)" "holds M e' r3 sa (k * A v)"
    using emitted_holds [OF 3(1)] emitted_holds [OF 2(1) 1(2)] 2(2) by blast+
  with 3 show ?case
    by (intro exI [of _ "(d1 @ d2) @ d3"] exI [of _ r3] conjI emitted_trans [OF e2]) (simp_all add: vk out)
qed

text \<open>The sum of terms.\<close>

lemma sum_holds:
  assumes "sum_terms p prev us e = (u, e')" "has_point p e" "holds M e r prev x"
    and "list_all2 (holds M e r) us xs"
  shows "\<exists>ds r'. emitted M p e e' ds r r' \<and> has_point p e' \<and> holds M e' r' u (x + sum_list xs)"
  using assms
proof (induction us arbitrary: prev e r x xs)
  case Nil
  then show ?case by (intro exI [of _ "[]"] exI [of _ r]) auto
next
  case (Cons v vs)
  then obtain y ys where xs: "xs = y # ys" and y: "holds M e r v y" and ys: "list_all2 (holds M e r) vs ys"
    by (auto simp: list_all2_Cons1)
  obtain a e1 where a: "create_bin p Add v prev e = (a, e1)" by (cases "create_bin p Add v prev e")
  from bin_holds [OF Cons.prems(2) y Cons.prems(3) _ a] obtain d1 r1 where
    1: "emitted M p e e1 d1 r r1" "holds M e1 r1 a (y + x)" "has_point p e1" by auto
  have "list_all2 (holds M e1 r1) vs ys" using ys emitted_holds [OF 1(1)] by (rule list_all2_mono)
  from Cons.IH [OF _ 1(3,2) this] Cons.prems(1) obtain d2 r2 where
    "emitted M p e1 e' d2 r1 r2" "has_point p e'" "holds M e' r2 u (y + x + sum_list ys)" by (auto simp: a)
  then show ?case
    by (intro exI [of _ "d1 @ d2"] exI [of _ r2] conjI emitted_trans [OF 1(1)]) (simp_all add: xs ac_simps)
qed

section \<open>The offset\<close>

text \<open>The byte offset of an address computation, as LLVM defines it, on 64-bit indices.\<close>

fun gep_offset :: "(val \<Rightarrow> u64) \<Rightarrow> (val \<times> gep_step) list \<Rightarrow> u64" where
  "gep_offset \<sigma> [] = 0"
| "gep_offset \<sigma> ((v, s) # vs) =
     (case v of
        VInt t k \<Rightarrow> (case gs_struct s of Some off \<Rightarrow> off (unat k) | None \<Rightarrow> sext_const (bits t) k * gs_alloc s)
      | _ \<Rightarrow> \<sigma> v * gs_alloc s) + gep_offset \<sigma> vs"

definition linear :: "(val \<Rightarrow> u64) \<Rightarrow> (val \<times> u64) list \<Rightarrow> u64" where
  "linear \<sigma> vars = sum_list (map (\<lambda>(v, k). k * \<sigma> v) vars)"

lemma linear_add: "linear \<sigma> (add_variable v k vars) = k * \<sigma> v + linear \<sigma> vars"
  by (induction v k vars rule: add_variable.induct) (auto simp: linear_def algebra_simps)

lemma collect_linear:
  "collectOffset ops vars c = Some (vars', c') \<Longrightarrow>
   linear \<sigma> vars' + c' = linear \<sigma> vars + c + gep_offset \<sigma> ops"
proof (induction ops vars c rule: collectOffset.induct)
  case (2 v s vs vars c)
  then show ?case
    by (cases v) (auto simp: linear_add algebra_simps split: if_splits option.splits)
qed simp

lemma linear_affine: "linear (\<lambda>v. A v + j * D v) vars = linear A vars + j * linear D vars"
  by (induction vars) (auto simp: linear_def algebra_simps)

lemma linear_perm: "mset us = mset vs \<Longrightarrow> linear \<sigma> us = linear \<sigma> vs"
  unfolding linear_def sum_mset_sum_list [symmetric] mset_map by simp

section \<open>One marker\<close>

fun is_int :: "val \<Rightarrow> bool" where "is_int (VInt t k) = True" | "is_int _ = False"

lemma add_variable_keys: "fst ` set (add_variable v k vars) \<subseteq> insert v (fst ` set vars)"
  by (induction v k vars rule: add_variable.induct) auto

lemma collect_keys:
  "collectOffset ops vars c = Some (vars', c') \<Longrightarrow>
   fst ` set vars' \<subseteq> fst ` set vars \<union> {v \<in> fst ` set ops. \<not> is_int v}"
proof (induction ops arbitrary: vars c)
  case (Cons o1 ops)
  obtain v s where o1: "o1 = (v, s)" by (cases o1)
  show ?case
  proof (cases "is_int v")
    case True
    with Cons show ?thesis by (cases v) (auto simp: o1 split: if_splits option.splits)
  next
    case False
    then have "collectOffset (o1 # ops) vars c =
        (if gs_struct s \<noteq> None \<or> gs_vector s then None
         else if gs_alloc s = 0 then collectOffset ops vars c
         else collectOffset ops (add_variable v (gs_alloc s) vars) c)" by (cases v) (simp_all add: o1)
    with Cons.prems obtain us where us: "collectOffset ops us c = Some (vars', c')"
      "us = vars \<or> us = add_variable v (gs_alloc s) vars" by (auto split: if_splits)
    have "fst ` set us \<subseteq> insert v (fst ` set vars)" using us(2) add_variable_keys by blast
    with Cons.IH [OF us(1)] False show ?thesis by (auto simp: o1)
  qed
qed simp

lemma terms_list: "list_all2 (\<lambda>u (v, k). P u (k * f v)) us vs \<Longrightarrow> list_all2 P us (map (\<lambda>(v, k). k * f v) vs)"
  by (simp add: list_all2_conv_all_nth split_def)

lemma sum_terms_holds:
  assumes "sum_terms p u0 us e = (u, e')" "has_point p e"
    and "list_all2 (\<lambda>u (v, k). holds M e r u (k * f v)) (u0 # us) vs"
  shows "\<exists>ds r'. emitted M p e e' ds r r' \<and> has_point p e' \<and> holds M e' r' u (linear f vs)"
proof -
  obtain y ys where v: "map (\<lambda>(v, k). k * f v) vs = y # ys" and y: "holds M e r u0 y" "list_all2 (holds M e r) us ys"
    using terms_list [OF assms(3)] by (auto simp: list_all2_Cons1)
  then have "linear f vs = y + sum_list ys" by (simp add: linear_def)
  with sum_holds [OF assms(1,2) y] show ?thesis by simp
qed

lemma list_holds:
  "emitted M p e e' ds r r' \<Longrightarrow> list_all2 (\<lambda>u (v, k). holds M e r u (k * f v)) us vs \<Longrightarrow>
   list_all2 (\<lambda>u (v, k). holds M e' r' u (k * f v)) us vs"
  by (erule list_all2_mono) (auto intro: emitted_holds)

text \<open>What the code for one candidate computes.\<close>

text \<open>A run that leaves a marker, step by step.\<close>

lemma check_gep_run:
  assumes run: "check_gep N ivs (g, l) e = Done ([cg], e')"
    and gep: "find_inst e g = Some x" "i_op x = Gep ty ptr idx"
    and ph: "n_preheader N l = Some h" "terminator h e = Done p"
  obtains vars c step0 steps1 start0 starts1 const_size e1 start_prev e2 step_prev e3 start where
    "collectOffset (zip idx (n_layout N ty idx)) [] 0 = Some (vars, c)"
    "interim N ivs g p (n_var_order N vars) e = Done (step0 # steps1, start0 # starts1, const_size, e1)"
    "sum_terms p start0 starts1 e1 = (start_prev, e2)" "sum_terms p step0 steps1 e2 = (step_prev, e3)"
    "create_bin p Add start_prev (VInt Int64Type c) e3 = (start, e')"
    "cg = \<lparr>cg_gep = g, cg_step = step_prev, cg_start = start, cg_const = (length vars = const_size)\<rparr>"
proof -
  let ?ops = "zip idx (n_layout N ty idx)"
  obtain vars c where calc: "calculate_offset_gep ivs ?ops = Some (vars, c)"
    using run gep by (auto simp: check_gep_def split: option.splits)
  obtain stl sal const_size e1 where i: "interim N ivs g p (n_var_order N vars) e = Done (stl, sal, const_size, e1)"
    and rest: "(case (stl, sal) of
        (step0 # steps1, start0 # starts1) \<Rightarrow>
          (case sum_terms p start0 starts1 e1 of (start_prev, e) \<Rightarrow>
           case sum_terms p step0 steps1 e of (step_prev, e) \<Rightarrow>
           case create_bin p Add start_prev (VInt Int64Type c) e of (start, e) \<Rightarrow>
             if int (unat OBJ_SIZE) < sint c then Done ([], e)
             else Done ([\<lparr>cg_gep = g, cg_step = step_prev, cg_start = start, cg_const = (length vars = const_size)\<rparr>], e))
      | _ \<Rightarrow> Done ([], e1)) = Done ([cg], e')"
    using run gep ph calc unfolding check_gep_def by (auto simp: bindR_Done_iff)
  from rest obtain step0 steps1 start0 starts1 where l: "stl = step0 # steps1" "sal = start0 # starts1"
    by (cases stl; cases sal) auto
  obtain start_prev e2 where s1: "sum_terms p start0 starts1 e1 = (start_prev, e2)" by (cases "sum_terms p start0 starts1 e1")
  obtain step_prev e3 where s2: "sum_terms p step0 steps1 e2 = (step_prev, e3)" by (cases "sum_terms p step0 steps1 e2")
  obtain start e4 where s3: "create_bin p Add start_prev (VInt Int64Type c) e3 = (start, e4)"
    by (cases "create_bin p Add start_prev (VInt Int64Type c) e3")
  have e4: "e4 = e'" and cg: "cg = \<lparr>cg_gep = g, cg_step = step_prev, cg_start = start, cg_const = (length vars = const_size)\<rparr>"
    using rest by (auto simp: l s1 s2 s3 split: if_splits)
  have "collectOffset ?ops [] 0 = Some (vars, c)"
    using calc by (auto simp: calculate_offset_gep_def split: option.splits if_splits)
  with that i s1 s2 s3 cg show thesis unfolding l e4 by blast
qed

lemma collected_values:
  assumes "collectOffset (zip idx lay) [] 0 = Some (vars, c)" "set vs = set vars"
    and "\<forall>v\<in>set idx. is_int v \<or> iv_values N ivs g M n r A D v"
  shows "\<forall>(v, k)\<in>set vs. iv_values N ivs g M n r A D v"
proof clarify
  fix v k assume "(v, k) \<in> set vs"
  then have "v \<in> fst ` set vars" by (force simp: assms(2))
  then have "v \<in> fst ` set ([] :: (val \<times> u64) list) \<union> {v \<in> fst ` set (zip idx lay). \<not> is_int v}"
    by (rule subsetD [OF collect_keys [OF assms(1)]])
  then have "v \<in> fst ` set (zip idx lay)" "\<not> is_int v" by simp_all
  then show "iv_values N ivs g M n r A D v" using assms(3) by (auto dest: set_zip_leftD)
qed

text \<open>When every variable belongs to another loop, nothing moves.\<close>

lemma invariant_linear:
  assumes "\<forall>(v, k)\<in>set vs. iv_values N ivs g M n r A D v"
    and "length (filter (\<lambda>(v, k). \<not> check_if_loop_nesting_level_is_equal N v g) vs) = length vs"
  shows "linear D vs = 0"
proof -
  have "\<forall>x\<in>set vs. case x of (v, k) \<Rightarrow> \<not> check_if_loop_nesting_level_is_equal N v g"
    using assms(2) by (metis (lifting) length_filter_less less_irrefl_nat)
  then have "\<forall>(v, k)\<in>set vs. D v = 0" using assms(1) by (force simp: iv_values_def iv_operands_def)
  then have "map (\<lambda>(v, k). k * D v) vs = map (\<lambda>_. 0) vs" by auto
  then show ?thesis by (simp only: linear_def sum_list_0)
qed

lemma check_gep_holds:
  assumes run: "check_gep N ivs (g, l) e = Done ([cg], e')"
    and gep: "find_inst e g = Some x" "i_op x = Gep ty ptr idx"
    and ph: "n_preheader N l = Some h" "terminator h e = Done p" "has_point p e"
    and order: "\<And>vs. mset (n_var_order N vs) = mset vs"
    and vals: "\<forall>v\<in>set idx. is_int v \<or> iv_values N ivs g M (ed_next e) r A D v"
  shows "\<exists>ds r' S T. emitted M p e e' ds r r' \<and>
    eval M r' (cg_start cg) = Some (W S) \<and> eval M r' (cg_step cg) = Some (W T) \<and>
    (\<forall>j. gep_offset (\<lambda>v. A v + j * D v) (zip idx (n_layout N ty idx)) = S + j * T) \<and>
    (cg_const cg \<longrightarrow> T = 0)"
proof -
  obtain vars c step0 steps1 start0 starts1 const_size e1 start_prev e2 step_prev e3 start where
    coll: "collectOffset (zip idx (n_layout N ty idx)) [] 0 = Some (vars, c)"
    and i: "interim N ivs g p (n_var_order N vars) e = Done (step0 # steps1, start0 # starts1, const_size, e1)"
    and s: "sum_terms p start0 starts1 e1 = (start_prev, e2)" "sum_terms p step0 steps1 e2 = (step_prev, e3)"
      "create_bin p Add start_prev (VInt Int64Type c) e3 = (start, e')"
    and cg: "cg = \<lparr>cg_gep = g, cg_step = step_prev, cg_start = start, cg_const = (length vars = const_size)\<rparr>"
    by (rule check_gep_run [OF run gep ph(1,2)])
  let ?ops = "zip idx (n_layout N ty idx)" and ?vs = "n_var_order N vars"
  have "set ?vs = set vars" using order [of vars] by (metis set_mset_mset)
  note v = collected_values [OF coll this vals]
  from interim_holds [OF i ph(3) v] obtain d1 r1 where
    1: "emitted M p e e1 d1 r r1" "has_point p e1"
      "list_all2 (\<lambda>u (v, k). holds M e1 r1 u (k * D v)) (step0 # steps1) ?vs"
      "list_all2 (\<lambda>u (v, k). holds M e1 r1 u (k * A v)) (start0 # starts1) ?vs"
    and n: "const_size = length (filter (\<lambda>(v, k). \<not> check_if_loop_nesting_level_is_equal N v g) ?vs)" by blast
  from sum_terms_holds [OF s(1) 1(2,4)] obtain d2 r2 where
    2: "emitted M p e1 e2 d2 r1 r2" "has_point p e2" "holds M e2 r2 start_prev (linear A ?vs)" by blast
  from sum_terms_holds [OF s(2) 2(2) list_holds [OF 2(1) 1(3)]] obtain d3 r3 where
    3: "emitted M p e2 e3 d3 r2 r3" "has_point p e3" "holds M e3 r3 step_prev (linear D ?vs)" by blast
  have "holds M e3 r3 (VInt Int64Type c) c" by (simp add: holds_def clip_64)
  from bin_holds [OF 3(2) emitted_holds [OF 3(1) 2(3)] this _ s(3)] obtain d4 r4 where
    4: "emitted M p e3 e' d4 r3 r4" "holds M e' r4 start (linear A ?vs + c)" by auto
  have em: "emitted M p e e' (d1 @ d2 @ d3 @ d4) r r4"
    by (intro emitted_trans [OF 1(1)] emitted_trans [OF 2(1)] emitted_trans [OF 3(1)] 4(1))
  have step: "holds M e' r4 step_prev (linear D ?vs)" by (rule emitted_holds [OF 4(1) 3(3)])
  have off: "gep_offset (\<lambda>v. A v + j * D v) ?ops = linear A ?vs + c + j * linear D ?vs" for j
    using collect_linear [OF coll, of "\<lambda>v. A v + j * D v"] linear_perm [OF order [of vars]]
    by (simp add: linear_affine) (simp add: linear_def ac_simps)
  have "length ?vs = length vars" using order [of vars] by (metis size_mset)
  then have "linear D ?vs = 0" if "length vars = const_size"
    using that n by (intro invariant_linear [OF v]) simp
  with em 4(2) step off show ?thesis
    by (intro exI [of _ "d1 @ d2 @ d3 @ d4"] exI [of _ r4] exI [of _ "linear A ?vs + c"] exI [of _ "linear D ?vs"])
      (simp add: cg holds_def)
qed

text \<open>
  C34: the code that the pass builds at the end of the block before the loop computes the
  marker's start and step so that in iteration \<open>j\<close> of the loop, when the induction variables
  have grown \<open>j\<close> times, the offset of the address computation is the start plus \<open>j\<close> times the
  step; a marker of the constant kind has step zero.
\<close>

theorem loop_marker_start_step:
  assumes run: "check_gep N ivs (g, l) e = Done ([cg], e')"
    and gep: "find_inst e g = Some x" "i_op x = Gep ty ptr idx"
    and ph: "n_preheader N l = Some h" and num: "numbered e"
    and blocks: "f_blocks (ed_fun e) = bs @ \<lparr>b_id = h, b_insts = xs @ [t]\<rparr> # cs" "is_term (i_op t)"
    and order: "\<And>vs. mset (n_var_order N vs) = mset vs"
    and vals: "\<forall>v\<in>set idx. is_int v \<or> iv_values N ivs g M (ed_next e) r A D v"
  shows "\<exists>ds r' S T. f_blocks (ed_fun e') = bs @ \<lparr>b_id = h, b_insts = xs @ ds @ [t]\<rparr> # cs \<and>
    steps (length ds) (ed_fun e') M (at_block h pr (ds @ [t]) r s) = Done (at_block h pr [t] r' s) \<and>
    eval M r' (cg_start cg) = Some (W S) \<and> eval M r' (cg_step cg) = Some (W T) \<and>
    (\<forall>j. gep_offset (\<lambda>v. A v + j * D v) (zip idx (n_layout N ty idx)) = S + j * T) \<and>
    (cg_const cg \<longrightarrow> T = 0)"
proof -
  let ?p = "i_id t"
  have d: "distinct (map i_id (concat (map b_insts (bs @ \<lparr>b_id = h, b_insts = xs @ [t]\<rparr> # cs))))"
    "b_id ` set bs \<inter> {h} = {}"
    using num by (auto simp: numbered_def insts_def blocks)
  have hp: "has_point ?p e" using num by (auto simp: has_point_def numbered_def insts_def blocks)
  have "find (\<lambda>x. b_id x = h) (f_blocks (ed_fun e)) = Some \<lparr>b_id = h, b_insts = xs @ [t]\<rparr>"
    using d(2) find_block [of "\<lparr>b_id = h, b_insts = xs @ [t]\<rparr>" bs cs] by (simp add: blocks)
  then have "terminator h e = Done ?p" by (simp add: terminator_def blocks(2))
  from check_gep_holds [OF run gep ph this hp order vals] obtain ds r' S T where
    em: "emitted M ?p e e' ds r r'" and v: "eval M r' (cg_start cg) = Some (W S)" "eval M r' (cg_step cg) = Some (W T)"
      "\<forall>j. gep_offset (\<lambda>v. A v + j * D v) (zip idx (n_layout N ty idx)) = S + j * T" "cg_const cg \<longrightarrow> T = 0" by blast
  have "i_id t < ed_next e" using num by (simp add: numbered_def insts_def blocks)
  then have "lacks ?p ds" using em by (auto simp: emitted_def lacks_def)
  then have b: "f_blocks (ed_fun e') = bs @ \<lparr>b_id = h, b_insts = xs @ ds @ [t]\<rparr> # cs"
    using em distinct_mid [OF d(1)] by (simp add: emitted_def blocks ins_seq_at)
  have "steps (length ds) (ed_fun e') M (at_block h pr (ds @ [t]) r s) = Done (at_block h pr [t] r' s)"
    using em by (intro steps_bins) (simp add: emitted_def)
  with b v show ?thesis by blast
qed

text \<open>A loop over the elements of an array of 64-bit words, from one argument on in steps of another.\<close>

definition strided_loop :: edit where
  "strided_loop = \<lparr>ed_decls = [], ed_globals = [],
     ed_fun = \<lparr>f_name = ''f'', f_ret = TVoid, f_args = [TPtr Int64Type, Int64Type, Int64Type],
       f_blocks = [\<lparr>b_id = 10, b_insts = [ins 1 TVoid (Br 11)]\<rparr>,
        \<lparr>b_id = 11, b_insts =
          [ins 2 Int64Type (Phi [(VArg 1, 10), (VInst 5, 11)]),
           ins 3 (TPtr Int64Type) (Gep Int64Type (VArg 0) [VInst 2]),
           ins 4 Int64Type (Load Int64Type (VInst 3)),
           ins 5 Int64Type (Bin Add (VInst 2) (VArg 2)),
           ins 6 Int1Type (ICmp UGE (VInst 5) (num 100)),
           ins 7 TVoid (CondBr (VInst 6) 12 11)]\<rparr>,
        \<lparr>b_id = 12, b_insts = [ins 8 TVoid (Ret None)]\<rparr>]\<rparr>,
     ed_next = 13\<rparr>"

definition strided_iv :: iv where
  "strided_iv = \<lparr>iv_phi = 2, iv_step_invariant = True, iv_step = Some (VArg 2), iv_start = VArg 1\<rparr>"

definition strided_facts :: noelle where
  "strided_facts = \<lparr>n_loops = [0], n_level = (\<lambda>_. 1), n_known = (\<lambda>_. True), n_ivs = (\<lambda>_. [strided_iv]),
     n_preheader = (\<lambda>_. Some 10), n_innermost = (\<lambda>i. if i \<in> {2, 3, 4, 5, 6, 7} then Some 0 else None),
     n_invariant = (\<lambda>l v. v = VArg 0),
     n_layout = (\<lambda>t is. map (\<lambda>_. \<lparr>gs_vector = False, gs_struct = None, gs_alloc = 8\<rparr>) is),
     n_var_order = (\<lambda>vs. vs), n_gep_order = (\<lambda>gs. gs)\<rparr>"

definition strided_code :: "inst list" where
  "strided_code = [ins 13 Int64Type (Bin Mul (num 8) (VArg 2)), ins 14 Int64Type (Bin Mul (num 8) (VArg 1)),
     ins 15 Int64Type (Bin Add (VInst 14) (num 0))]"

definition strided_marked :: edit where
  "strided_marked = with_blocks strided_loop
     (\<lparr>b_id = 10, b_insts = strided_code @ [ins 1 TVoid (Br 11)]\<rparr> # tl (f_blocks (ed_fun strided_loop))) 16"

definition strided_machine :: "unit machine" where
  "strided_machine = \<lparr>mc_args = [W 0, W 5, W 3], mc_glob = (\<lambda>_. 0), mc_call = (\<lambda>_ _ _. Faulted),
     mc_other = (\<lambda>_ _ _. Faulted)\<rparr>"

theorem loop_marker_start_step_witness:
  "\<exists>ds r' S T. f_blocks (ed_fun strided_marked) =
       \<lparr>b_id = 10, b_insts = ds @ [ins 1 TVoid (Br 11)]\<rparr> # tl (f_blocks (ed_fun strided_loop)) \<and>
     eval strided_machine r' (VInst 15) = Some (W S) \<and> eval strided_machine r' (VInst 13) = Some (W T) \<and>
     (\<forall>j. gep_offset (\<lambda>v. 5 + j * 3) [(VInst 2, \<lparr>gs_vector = False, gs_struct = None, gs_alloc = 8\<rparr>)] = S + j * T)"
proof -
  have run: "check_gep strided_facts (Map.empty(2 \<mapsto> strided_iv)) (3, 0) strided_loop =
      Done ([\<lparr>cg_gep = 3, cg_step = VInst 13, cg_start = VInst 15, cg_const = False\<rparr>], strided_marked)"
    by code_simp
  have num: "numbered strided_loop" by (simp add: numbered_def strided_loop_def insts_def)
  have iv: "iv_values strided_facts (Map.empty(2 \<mapsto> strided_iv)) 3 strided_machine (ed_next strided_loop) Map.empty
      (\<lambda>_. 5) (\<lambda>_. 3) (VInst 2)"
    by (simp add: iv_values_def iv_operands_def check_if_loop_nesting_level_is_equal_def strided_facts_def
        iv_of_def strided_iv_def strided_machine_def)
  show ?thesis
    using loop_marker_start_step [OF run, where x = "ins 3 (TPtr Int64Type) (Gep Int64Type (VArg 0) [VInst 2])"
        and bs = "[]" and xs = "[]" and t = "ins 1 TVoid (Br 11)" and h = 10 and cs = "tl (f_blocks (ed_fun strided_loop))"
        and ptr = "VArg 0" and idx = "[VInst 2]" and ty = Int64Type
        and M = strided_machine and r = "Map.empty" and A = "\<lambda>_. 5" and D = "\<lambda>_. 3" and s = undefined and pr = 0] num iv
    by (simp add: strided_loop_def strided_facts_def find_inst_def insts_def) blast
qed

end
