(* ===== verification/Loop_Transform.thy ===== *)
theory Loop_Transform
  imports Loop_Checks
begin

text \<open>
  \<open>carm_loop_transform/src/CatPass.cpp\<close>: the pass that turns a loop with a marked address
  computation into one that keeps a local pointer and its bound in two phis of the header. A new
  block before the loop opens it with the runtime; a new block after every iteration steps the
  pointer and compares it with the bound; at the bound a further block asks the runtime for the
  next object. The loops are NOELLE's: the fields of \<open>forest\<close>.
\<close>

section \<open>Names and facts\<close>

definition CARM_DEREF_LOOP_WRITE :: string where
  "CARM_DEREF_LOOP_WRITE = ''_Z21carm_deref_loop_writem''"
definition CARM_DEREF_LOOP_READ :: string where
  "CARM_DEREF_LOOP_READ = ''_Z20carm_deref_loop_readm''"
definition CARM_LOOP_INVALIDATE :: string where
  "CARM_LOOP_INVALIDATE = ''_Z21invalidate_loop_indexm''"
definition CARM_GET_INIT_OBJ_SIZE :: string where
  "CARM_GET_INIT_OBJ_SIZE = ''_Z14carm_loop_initmm''"

record forest =
  fo_innermost :: "ident \<Rightarrow> nat option"
  fo_header :: "nat \<Rightarrow> ident"
  fo_preheader :: "nat \<Rightarrow> ident option"
  fo_latches :: "nat \<Rightarrow> ident list"
  fo_exits :: "nat \<Rightarrow> ident list"
  fo_blocks :: "nat \<Rightarrow> ident list"

text \<open>What the pass has done to the loops, and the markers of plain accesses that are left.\<close>

record loops_done =
  ld_preheader :: "nat \<Rightarrow> ident option"
  ld_latches :: "nat \<Rightarrow> ident list option"
  ld_blocks :: "nat \<Rightarrow> ident list option"
  ld_checks :: "(ident \<times> ident option) list"

definition blocks_of :: "loops_done \<Rightarrow> nat \<Rightarrow> ident list" where
  "blocks_of L l = (case ld_blocks L l of None \<Rightarrow> [] | Some bs \<Rightarrow> bs)"

definition add_block_of :: "nat \<Rightarrow> ident \<Rightarrow> loops_done \<Rightarrow> loops_done" where
  "add_block_of l b L = L\<lparr>ld_blocks := (ld_blocks L)(l \<mapsto> List.insert b (blocks_of L l))\<rparr>"

definition latches_of :: "forest \<Rightarrow> loops_done \<Rightarrow> nat \<Rightarrow> ident list" where
  "latches_of FO L l = (case ld_latches L l of None \<Rightarrow> fo_latches FO l | Some bs \<Rightarrow> bs)"

section \<open>Blocks and branches\<close>

text \<open>A new block at the end of the function, with its terminator.\<close>

definition create_block :: "op \<Rightarrow> edit \<Rightarrow> ident \<times> edit" where
  "create_block o1 e =
     (ed_next e,
      e\<lparr>ed_fun := (ed_fun e)\<lparr>f_blocks := f_blocks (ed_fun e) @
          [\<lparr>b_id = ed_next e, b_insts = [\<lparr>i_id = ed_next e + 1, i_ty = TVoid, i_op = o1\<rparr>]\<rparr>]\<rparr>,
        ed_next := ed_next e + 2\<rparr>)"

definition set_op :: "ident \<Rightarrow> (op \<Rightarrow> op) \<Rightarrow> edit \<Rightarrow> edit" where
  "set_op i g = on_fun (map_insts (\<lambda>x. if i_id x = i then x\<lparr>i_op := g (i_op x)\<rparr> else x))"

text \<open>\<open>setSuccessor\<close> on the branch that ends a block; other terminators stay.\<close>

fun map_targets :: "(ident \<Rightarrow> ident) \<Rightarrow> op \<Rightarrow> op" where
  "map_targets g (Br b) = Br (g b)"
| "map_targets g (CondBr c t f) = CondBr c (g t) (g f)"
| "map_targets g o1 = o1"

definition redirect_branch :: "ident \<Rightarrow> (ident \<Rightarrow> ident) \<Rightarrow> edit \<Rightarrow> edit run" where
  "redirect_branch b g e = bindR (terminator b e) (\<lambda>t. Done (set_op t (map_targets g) e))"

fun redirect_branches :: "ident list \<Rightarrow> (ident \<Rightarrow> ident) \<Rightarrow> edit \<Rightarrow> edit run" where
  "redirect_branches [] g e = Done e"
| "redirect_branches (b # bs) g e = bindR (redirect_branch b g e) (redirect_branches bs g)"

text \<open>The predecessors of a block, one for each edge.\<close>

fun targets :: "op \<Rightarrow> ident list" where
  "targets (Br b) = [b]"
| "targets (CondBr c t f) = [t, f]"
| "targets (Invoke f as n u) = [n, u]"
| "targets (Term s vs bs) = bs"
| "targets o1 = []"

definition block_targets :: "block \<Rightarrow> ident list" where
  "block_targets b = (if b_insts b = [] then [] else targets (i_op (last (b_insts b))))"

definition preds :: "func \<Rightarrow> ident \<Rightarrow> ident list" where
  "preds F b = concat (map (\<lambda>x. map (\<lambda>_. b_id x) (filter (\<lambda>t. t = b) (block_targets x))) (f_blocks F))"

text \<open>\<open>setIncomingBlock\<close> on the phis of some blocks.\<close>

fun map_incoming :: "(ident \<Rightarrow> ident) \<Rightarrow> op \<Rightarrow> op" where
  "map_incoming g (Phi vs) = Phi (map (\<lambda>(v, b). (v, g b)) vs)"
| "map_incoming g o1 = o1"

definition redirect_phis :: "ident list \<Rightarrow> (ident \<Rightarrow> ident) \<Rightarrow> edit \<Rightarrow> edit" where
  "redirect_phis bs g = on_fun (\<lambda>F. F\<lparr>f_blocks := map (\<lambda>b. if b_id b \<in> set bs
     then b\<lparr>b_insts := map (\<lambda>x. x\<lparr>i_op := map_incoming g (i_op x)\<rparr>) (b_insts b)\<rparr> else b) (f_blocks F)\<rparr>)"

text \<open>\<open>addIncoming\<close>, and the first instruction of a block that is not a phi.\<close>

fun add_incoming :: "val \<Rightarrow> ident \<Rightarrow> op \<Rightarrow> op" where
  "add_incoming v b (Phi vs) = Phi (vs @ [(v, b)])"
| "add_incoming v b o1 = o1"

definition addIncoming :: "val \<Rightarrow> val \<Rightarrow> ident \<Rightarrow> edit \<Rightarrow> edit" where
  "addIncoming p v b e = (case p of VInst i \<Rightarrow> set_op i (add_incoming v b) e | _ \<Rightarrow> e)"

definition first_non_phi :: "ident \<Rightarrow> edit \<Rightarrow> ident run" where
  "first_non_phi b e =
     (case find (\<lambda>x. b_id x = b) (f_blocks (ed_fun e)) of
        None \<Rightarrow> Faulted
      | Some x \<Rightarrow> (case find (\<lambda>y. \<not> is_phi (i_op y)) (b_insts x) of
          None \<Rightarrow> Faulted | Some y \<Rightarrow> Done (i_id y)))"

section \<open>The blocks around the loop\<close>

definition createOuterLoopHeaderBB :: "forest \<Rightarrow> nat \<Rightarrow> loops_done \<times> edit \<Rightarrow> ident \<times> loops_done \<times> edit" where
  "createOuterLoopHeaderBB FO l Le =
     (case Le of (L, e) \<Rightarrow> case create_block (Br (fo_header FO l)) e of (b, e) \<Rightarrow> (b, add_block_of l b L, e))"

definition createInnerLoopEntry :: "forest \<Rightarrow> nat \<Rightarrow> loops_done \<times> edit \<Rightarrow> ident \<times> loops_done \<times> edit" where
  "createInnerLoopEntry FO l Le =
     (case Le of (L, e) \<Rightarrow> case create_block (Br (fo_header FO l)) e of (b, e) \<Rightarrow> (b, add_block_of l b L, e))"

definition createOuterLoopBodyBB :: "nat \<Rightarrow> ident \<Rightarrow> loops_done \<times> edit \<Rightarrow> ident \<times> loops_done \<times> edit" where
  "createOuterLoopBodyBB l t Le =
     (case Le of (L, e) \<Rightarrow> case create_block (Br t) e of (b, e) \<Rightarrow> (b, add_block_of l b L, e))"

definition create_CARM_OBJECT_TrackerBB ::
    "nat \<Rightarrow> ident \<Rightarrow> ident \<Rightarrow> loops_done \<times> edit \<Rightarrow> ident \<times> loops_done \<times> edit" where
  "create_CARM_OBJECT_TrackerBB l body entry Le =
     (case Le of (L, e) \<Rightarrow>
        case create_block (CondBr (VInt Int1Type 0) body entry) e of (b, e) \<Rightarrow> (b, add_block_of l b L, e))"

definition redirect_origpreheader_to_outerloopheader ::
    "forest \<Rightarrow> nat \<Rightarrow> ident \<Rightarrow> loops_done \<Rightarrow> edit \<Rightarrow> edit run" where
  "redirect_origpreheader_to_outerloopheader FO l carmHeader L e =
     (case (case ld_preheader L l of None \<Rightarrow> fo_preheader FO l | Some b \<Rightarrow> Some b) of
        None \<Rightarrow> Faulted
      | Some preHeader \<Rightarrow> redirect_branch preHeader (\<lambda>_. carmHeader) e)"

definition add_branch_from_outerloopheader_to_originheader :: "ident \<Rightarrow> ident \<Rightarrow> edit \<Rightarrow> edit run" where
  "add_branch_from_outerloopheader_to_originheader outer header e = redirect_branch outer (\<lambda>_. header) e"

definition redirect_origpreheaderPHIs_to_outerloopheader ::
    "nat \<Rightarrow> ident \<Rightarrow> ident \<Rightarrow> loops_done \<Rightarrow> edit \<Rightarrow> edit" where
  "redirect_origpreheaderPHIs_to_outerloopheader l outer preheader L e =
     redirect_phis (blocks_of L l) (\<lambda>b. if b = preheader then outer else b) e"

definition add_branch_origlatch_to_outerlooplatch ::
    "forest \<Rightarrow> nat \<Rightarrow> ident \<Rightarrow> loops_done \<Rightarrow> edit \<Rightarrow> edit run" where
  "add_branch_origlatch_to_outerlooplatch FO l check L e =
     redirect_branches (latches_of FO L l) (\<lambda>b. if b = fo_header FO l then check else b) e"

definition redirect_origlatchPHIs_to_outerlooplatch ::
    "forest \<Rightarrow> nat \<Rightarrow> ident \<Rightarrow> loops_done \<Rightarrow> edit \<Rightarrow> edit" where
  "redirect_origlatchPHIs_to_outerlooplatch FO l entry L e =
     redirect_phis (blocks_of L l) (\<lambda>b. if b \<in> set (latches_of FO L l) then entry else b) e"

section \<open>The pointer\<close>

record pointer_to_optimize =
  ptr_operand :: val
  loopid_and_objsize :: val
  init_bounds_check :: val
  loop_id :: val

text \<open>Opening the loop, at the start of the block before it.\<close>

definition get_initial_object_bound ::
    "ident \<Rightarrow> val \<Rightarrow> val \<Rightarrow> bool \<Rightarrow> val \<Rightarrow> edit \<Rightarrow> (pointer_to_optimize \<times> edit) run" where
  "get_initial_object_bound bb base start_value step_value_constant step_value e =
     bindR (first_non_phi bb e) (\<lambda>p.
       case create_cast p PtrToInt base Int64Type e of (vinst, e) \<Rightarrow>
       case create_bin p Add vinst start_value e of (vaddr, e) \<Rightarrow>
         bindR (create_function [Int64Type, Int64Type] CARM_GET_INIT_OBJ_SIZE
                  [vaddr, if step_value_constant then VInt Int64Type 0 else step_value] Int64Type p False e)
           (\<lambda>(w, e).
             case create_bin p LShr w (VInt Int64Type (of_nat LOOP_ID_POS)) e of (lid, e) \<Rightarrow>
             case create_bin p And w (VInt Int64Type LOOP_OBJ_MASK) e of (bound, e) \<Rightarrow>
               Done (\<lparr>ptr_operand = vaddr, loopid_and_objsize = w, init_bounds_check = bound, loop_id = lid\<rparr>, e)))"

text \<open>For every predecessor that is a given block, an action; the last result counts.\<close>

definition deref_loop_name :: "bool \<Rightarrow> string" where
  "deref_loop_name mut = (if mut then CARM_DEREF_LOOP_WRITE else CARM_DEREF_LOOP_READ)"

text \<open>\<open>addIncoming\<close> once for each predecessor of a block, with the value for that one.\<close>

fun add_incomings :: "val \<Rightarrow> (ident \<Rightarrow> val option) \<Rightarrow> ident list \<Rightarrow> edit \<Rightarrow> edit" where
  "add_incomings p g [] e = e"
| "add_incomings p g (b # bs) e =
     add_incomings p g bs (case g b of None \<Rightarrow> e | Some v \<Rightarrow> addIncoming p v b e)"

text \<open>The markers of plain accesses through the address computation are deleted.\<close>

fun delete_carm_checks_on_gep ::
    "nat \<Rightarrow> ident \<Rightarrow> (ident \<times> ident option) list \<Rightarrow> edit \<Rightarrow> ((ident \<times> ident option) list \<times> ident list) run" where
  "delete_carm_checks_on_gep f g [] e = Done ([], [])"
| "delete_carm_checks_on_gep f g ((c, i) # cs) e =
     (case (case i of None \<Rightarrow> None | Some j \<Rightarrow> find_inst e j) of
        None \<Rightarrow> Faulted
      | Some x \<Rightarrow>
          (case (case i_op x of Load t p \<Rightarrow> Some p | Store v p \<Rightarrow> Some p | _ \<Rightarrow> None) of
             None \<Rightarrow> Faulted
           | Some p \<Rightarrow>
               bindR (return_gep f e p) (\<lambda>ptr.
               bindR (delete_carm_checks_on_gep f g cs e) (\<lambda>(ds, del).
                 if ptr = VInst g then Done (ds, c # del) else Done ((c, i) # ds, del)))))"

text \<open>The loop is opened once for every edge from the block before it.\<close>

fun open_from ::
    "ident list \<Rightarrow> ident \<Rightarrow> val \<Rightarrow> val \<Rightarrow> bool \<Rightarrow> val \<Rightarrow> pointer_to_optimize option \<Rightarrow> edit \<Rightarrow>
     (pointer_to_optimize option \<times> edit) run" where
  "open_from [] outer base start const step gs e = Done (gs, e)"
| "open_from (b # bs) outer base start const step gs e =
     (if b = outer
      then bindR (get_initial_object_bound outer base start const step e) (\<lambda>(g, e).
             open_from bs outer base start const step (Some g) e)
      else open_from bs outer base start const step gs e)"

definition set_condition :: "val \<Rightarrow> op \<Rightarrow> op" where
  "set_condition v o1 = (case o1 of CondBr c t f \<Rightarrow> CondBr v t f | _ \<Rightarrow> o1)"

text \<open>The call of the runtime for the current object, and the addition of a bound to it.\<close>

definition deref_and_bound :: "ident \<Rightarrow> bool \<Rightarrow> val \<Rightarrow> val \<Rightarrow> edit \<Rightarrow> (val \<times> val \<times> edit) run" where
  "deref_and_bound p mut lid n e =
     bindR (create_function [Int64Type] (deref_loop_name mut) [lid] Int64Type p False e) (\<lambda>(call, e).
       case create_bin p Add call n e of (bound, e) \<Rightarrow> Done (call, bound, e))"

text \<open>
  \<open>_createCARMLoopIter\<close>: the phis of the bound and the pointer in the header, their values
  from the block before the loop, the comparison after an iteration, the phis where both ways
  back meet, and the pointer in place of the address computation.
\<close>

definition createCARMLoopIter ::
    "nat \<Rightarrow> forest \<Rightarrow> nat \<Rightarrow> ident \<Rightarrow> ident \<Rightarrow> ident \<Rightarrow> ident \<Rightarrow> val \<Rightarrow> val \<Rightarrow> inst \<Rightarrow> bool \<Rightarrow> bool \<Rightarrow>
     loops_done \<times> edit \<Rightarrow> (pointer_to_optimize \<times> loops_done \<times> edit) run" where
  "createCARMLoopIter f FO l outer check body entry step start gep const mut Le =
     (case Le of (L, e) \<Rightarrow>
        let header = fo_header FO l in
        bindR (first_non_phi header e) (\<lambda>p.
        case build p Int64Type (Phi []) e of (bounds, e) \<Rightarrow>
        case i_op gep of
          Gep t base is \<Rightarrow>
            bindR (open_from (preds (ed_fun e) header) outer base start const step None e) (\<lambda>(gs, e).
            case gs of
              None \<Rightarrow> Faulted
            | Some g \<Rightarrow>
                bindR (first_non_phi check e) (\<lambda>pc.
                bindR (first_non_phi body e) (\<lambda>pb.
                bindR (deref_and_bound pb mut (loop_id g) (VInt Int64Type OBJ_SIZE) e) (\<lambda>(body_call, bound, e).
                case (case init_bounds_check g of VInst i \<Rightarrow> next_non_debug i (ed_fun e) | _ \<Rightarrow> None) of
                  None \<Rightarrow> Faulted
                | Some q \<Rightarrow>
                    bindR (deref_and_bound (i_id q) mut (loop_id g) (init_bounds_check g) e)
                      (\<lambda>(header_call, header_bound, e).
                    let e = addIncoming bounds header_bound outer e in
                    bindR (first_non_phi entry e) (\<lambda>pe.
                    case build p Int64Type (Phi []) e of (ptr, e) \<Rightarrow>
                    let e = add_incomings ptr (\<lambda>b. if b = outer then Some header_call else None)
                              (preds (ed_fun e) header) e in
                    case (if const then (ptr, e) else create_bin pc Add ptr step e) of (inc, e) \<Rightarrow>
                    case create_icmp pc UGE inc bounds e of (cmp, e) \<Rightarrow>
                    bindR (terminator check e) (\<lambda>ct.
                    let e = set_op ct (set_condition cmp) e in
                    case build pe Int64Type (Phi []) e of (tmp_ptr, e) \<Rightarrow>
                    let e = add_incomings tmp_ptr (\<lambda>b. if b = body then Some body_call
                              else if b = check then Some inc else None) (preds (ed_fun e) entry) e;
                        e = addIncoming ptr tmp_ptr entry e in
                    case build pe Int64Type (Phi []) e of (tmp_bound, e) \<Rightarrow>
                    let e = add_incomings tmp_bound (\<lambda>b. if b = body then Some bound
                              else if b = check then Some bounds else None) (preds (ed_fun e) entry) e;
                        e = addIncoming bounds tmp_bound entry e in
                    case create_cast p IntToPtr ptr (i_ty gep) e of (new_gep, e) \<Rightarrow>
                    bindR (delete_carm_checks_on_gep f (i_id gep) (ld_checks L) e) (\<lambda>(checks, del).
                    bindR (replace_uses (VInst (i_id gep)) new_gep (erase_all del e)) (\<lambda>e.
                      Done (g, L\<lparr>ld_checks := checks\<rparr>, e))))))))))
        | _ \<Rightarrow> Faulted))"

text \<open>
  \<open>_createCARMLoop\<close>: the block before the loop is made for its first pointer and shared by
  the others; every pointer has its own three blocks, the last of which becomes the latch.
\<close>

definition createCARMLoop ::
    "nat \<Rightarrow> forest \<Rightarrow> nat \<Rightarrow> val \<Rightarrow> val \<Rightarrow> inst \<Rightarrow> bool \<Rightarrow> bool \<Rightarrow> loops_done \<times> edit \<Rightarrow>
     (pointer_to_optimize \<times> loops_done \<times> edit) run" where
  "createCARMLoop f FO l step start gep const mut Le =
     bindR (case ld_preheader (fst Le) l of
              Some outer \<Rightarrow> Done (outer, Le)
            | None \<Rightarrow>
                (case createOuterLoopHeaderBB FO l Le of (outer, L, e) \<Rightarrow>
                   bindR (redirect_origpreheader_to_outerloopheader FO l outer L e) (\<lambda>e.
                   bindR (add_branch_from_outerloopheader_to_originheader outer (fo_header FO l) e) (\<lambda>e.
                     case fo_preheader FO l of
                       None \<Rightarrow> Faulted
                     | Some ph \<Rightarrow>
                         Done (outer, L, redirect_origpreheaderPHIs_to_outerloopheader l outer ph L e)))))
       (\<lambda>(outer, Le).
          case createInnerLoopEntry FO l Le of (entry, Le) \<Rightarrow>
          case createOuterLoopBodyBB l entry Le of (body, Le) \<Rightarrow>
          case create_CARM_OBJECT_TrackerBB l body entry Le of (check, L, e) \<Rightarrow>
          bindR (add_branch_origlatch_to_outerlooplatch FO l check L e) (\<lambda>e.
          let e = redirect_origlatchPHIs_to_outerlooplatch FO l entry L e in
          bindR (createCARMLoopIter f FO l outer check body entry step start gep const mut (L, e))
            (\<lambda>(g, L, e).
               Done (g, L\<lparr>ld_preheader := (ld_preheader L)(l \<mapsto> outer),
                          ld_latches := (ld_latches L)(l \<mapsto> [entry])\<rparr>, e))))"

section \<open>Leaving the loop\<close>

fun invalidate_at :: "ident list \<Rightarrow> val \<Rightarrow> edit \<Rightarrow> edit run" where
  "invalidate_at [] lid e = Done e"
| "invalidate_at (b # bs) lid e =
     bindR (first_non_phi b e) (\<lambda>p.
     bindR (create_function [Int64Type] CARM_LOOP_INVALIDATE [lid] Int64Type p False e) (\<lambda>(v, e).
       invalidate_at bs lid e))"

definition invalidate_loop_cache_at_exit ::
    "forest \<Rightarrow> nat \<Rightarrow> pointer_to_optimize \<Rightarrow> edit \<Rightarrow> edit run" where
  "invalidate_loop_cache_at_exit FO l g e = invalidate_at (fo_exits FO l) (loop_id g) e"

section \<open>All markers of a function\<close>

definition get_gep_ptr_stride :: "val list \<Rightarrow> val run" where
  "get_gep_ptr_stride as = (if 1 < length as then Done (as ! 1) else Faulted)"

definition get_gep_ptr_start :: "val list \<Rightarrow> val run" where
  "get_gep_ptr_start as = (if 2 < length as then Done (as ! 2) else Faulted)"

definition get_gep_ptr_mutable :: "val list \<Rightarrow> bool run" where
  "get_gep_ptr_mutable as =
     (if 3 < length as then (case as ! 3 of VInt t c \<Rightarrow> Done (c \<noteq> 0) | _ \<Rightarrow> Aborted) else Faulted)"

definition transform_marker ::
    "nat \<Rightarrow> forest \<Rightarrow> bool \<Rightarrow> ident \<times> ident option \<Rightarrow> loops_done \<times> edit \<Rightarrow> (ident \<times> loops_done \<times> edit) run" where
  "transform_marker f FO const ci Le =
     (case ci of
        (c, None) \<Rightarrow> Faulted
      | (c, Some g) \<Rightarrow>
          (case fo_innermost FO g of
             None \<Rightarrow> Aborted
           | Some l \<Rightarrow>
               (case (find_inst (snd Le) c, find_inst (snd Le) g) of
                  (Some ck, Some gep) \<Rightarrow>
                    (case i_op ck of
                       Call fn as \<Rightarrow>
                         let L = fst Le;
                             L = (if ld_blocks L l = None then L\<lparr>ld_blocks := (ld_blocks L)(l \<mapsto> fo_blocks FO l)\<rparr> else L)
                         in bindR (get_gep_ptr_stride as) (\<lambda>step.
                            bindR (get_gep_ptr_start as) (\<lambda>start.
                            bindR (get_gep_ptr_mutable as) (\<lambda>mut.
                            bindR (createCARMLoop f FO l step start gep const mut (L, snd Le)) (\<lambda>(p, L, e).
                            bindR (invalidate_loop_cache_at_exit FO l p e) (\<lambda>e. Done (g, L, e))))))
                     | _ \<Rightarrow> Faulted)
                | _ \<Rightarrow> Faulted)))"

fun transform_markers ::
    "nat \<Rightarrow> forest \<Rightarrow> bool \<Rightarrow> (ident \<times> ident option) list \<Rightarrow> ident list \<Rightarrow> loops_done \<times> edit \<Rightarrow>
     (ident list \<times> loops_done \<times> edit) run" where
  "transform_markers f FO const [] delete_geps Le = Done (delete_geps, Le)"
| "transform_markers f FO const (c # cs) delete_geps Le =
     bindR (transform_marker f FO const c Le) (\<lambda>(g, Le).
       transform_markers f FO const cs (delete_geps @ [g]) Le)"

definition transform_loop_function ::
    "nat \<Rightarrow> forest \<Rightarrow> bool \<Rightarrow> (ident \<times> ident option) list \<Rightarrow> loops_done \<times> edit \<Rightarrow> (loops_done \<times> edit) run" where
  "transform_loop_function f FO const cs Le =
     bindR (transform_markers f FO const cs [] Le) (\<lambda>(delete_geps, L, e). Done (L, erase_all delete_geps e))"

text \<open>The calls of one marker function, each with the instruction after it.\<close>

definition marked_by :: "string \<Rightarrow> func \<Rightarrow> (ident \<times> ident option) list" where
  "marked_by s F =
     map (\<lambda>x. (i_id x, map_option i_id (next_non_debug (i_id x) F)))
       (filter (\<lambda>x. called_function (i_op x) = Some s) (insts F))"

definition loop_transform_runOnFunction :: "nat \<Rightarrow> forest \<Rightarrow> edit \<Rightarrow> edit run" where
  "loop_transform_runOnFunction f FO e =
     (let F = ed_fun e;
          carm_loop_functions = marked_by CARM_DEREF_LOOP_DUMMY F;
          carm_loop_const_functions = marked_by CARM_DEREF_LOOP_CONST_DUMMY F;
          L = \<lparr>ld_preheader = (\<lambda>_. None), ld_latches = (\<lambda>_. None), ld_blocks = (\<lambda>_. None),
               ld_checks = marked_by CARM_DEREF_DUMMY F\<rparr>
      in bindR (transform_loop_function f FO False carm_loop_functions (L, e)) (\<lambda>Le.
         bindR (transform_loop_function f FO True carm_loop_const_functions Le) (\<lambda>(L, e).
           Done (erase_all (map fst carm_loop_const_functions) (erase_all (map fst carm_loop_functions) e)))))"

text \<open>Without loops, or without a forest, the module stays as it is.\<close>

definition loop_transform_runOnModule :: "nat \<Rightarrow> forest option \<Rightarrow> module \<Rightarrow> module run" where
  "loop_transform_runOnModule f forest M =
     (case forest of
        None \<Rightarrow> Done M
      | Some FO \<Rightarrow> run_module (\<lambda>e.
          if skipped (ed_fun e) \<or> contains ''cxx_global_var_init'' (f_name (ed_fun e)) then Done e
          else loop_transform_runOnFunction f FO e) M)"

end
