(* ===== verification/Loop_Emit.thy ===== *)
theory Loop_Emit
  imports Loop_Transform Guard_Emit
begin

text \<open>
  What \<open>_createCARMLoopIter\<close> builds for one pointer of a loop, instruction by instruction:
  the code that opens the loop, the phis of the header, and the blocks that follow an iteration.
  Identifiers count on from \<open>k\<close>, the block that leads back into the loop.
\<close>

section \<open>Edits of a list of blocks\<close>

definition on_inst :: "ident \<Rightarrow> (op \<Rightarrow> op) \<Rightarrow> block \<Rightarrow> block" where
  "on_inst i g b = b\<lparr>b_insts := map (\<lambda>x. if i_id x = i then x\<lparr>i_op := g (i_op x)\<rparr> else x) (b_insts b)\<rparr>"

lemma set_op_blocks: "set_op i g (with_blocks e bs k) = with_blocks e (map (on_inst i g) bs) k"
  by (simp add: set_op_def on_fun_def map_insts_def with_blocks_def on_inst_def [abs_def])

lemma on_inst_lacks [simp]: "lacks i (b_insts b) \<Longrightarrow> on_inst i g b = b"
proof -
  have "lacks i xs \<Longrightarrow> map (\<lambda>x. if i_id x = i then x\<lparr>i_op := g (i_op x)\<rparr> else x) xs = xs" for xs
    by (induction xs) auto
  then show "lacks i (b_insts b) \<Longrightarrow> on_inst i g b = b" by (simp add: on_inst_def)
qed

lemma on_inst_lacks_all [simp]: "lacks_all i bs \<Longrightarrow> map (on_inst i g) bs = bs"
  by (induction bs) auto

lemma map_inst_lacks [simp]:
  "lacks i xs \<Longrightarrow> map (\<lambda>x. if i_id x = i then x\<lparr>i_op := g (i_op x)\<rparr> else x) xs = xs"
  by (induction xs) auto

lemma on_inst_simp:
  "on_inst i g \<lparr>b_id = h, b_insts = xs\<rparr> =
   \<lparr>b_id = h, b_insts = map (\<lambda>x. if i_id x = i then x\<lparr>i_op := g (i_op x)\<rparr> else x) xs\<rparr>"
  by (simp add: on_inst_def)

lemma find_block_at:
  "h \<notin> b_id ` set bs \<Longrightarrow> find (\<lambda>x. b_id x = h) (bs @ \<lparr>b_id = h, b_insts = xs\<rparr> # cs) = Some \<lparr>b_id = h, b_insts = xs\<rparr>"
  by (induction bs) auto

lemma first_non_phi_at:
  assumes "h \<notin> b_id ` set bs" "\<forall>x\<in>set ps. is_phi (i_op x)" "\<not> is_phi (i_op q)"
  shows "first_non_phi h (with_blocks e (bs @ \<lparr>b_id = h, b_insts = ps @ q # xs\<rparr> # cs) k) = Done (i_id q)"
proof -
  have "find (\<lambda>y. \<not> is_phi (i_op y)) (ps @ q # xs) = Some q" using assms(2,3) by (induction ps) auto
  then show ?thesis using assms(1) by (simp add: first_non_phi_def find_block_at)
qed

lemma terminator_at:
  assumes "h \<notin> b_id ` set bs" "is_term (i_op t)"
  shows "terminator h (with_blocks e (bs @ \<lparr>b_id = h, b_insts = xs @ [t]\<rparr> # cs) k) = Done (i_id t)"
  using assms by (simp add: terminator_def find_block_at)

definition preds_in :: "block list \<Rightarrow> ident \<Rightarrow> ident list" where
  "preds_in bs b = concat (map (\<lambda>x. map (\<lambda>_. b_id x) (filter (\<lambda>t. t = b) (block_targets x))) bs)"

lemma preds_blocks: "preds (ed_fun (with_blocks e bs k)) b = preds_in bs b"
  by (simp add: preds_def preds_in_def)

lemma preds_in_simps:
  "preds_in [] b = []"
  "preds_in (x # xs) b = map (\<lambda>_. b_id x) (filter (\<lambda>t. t = b) (block_targets x)) @ preds_in xs b"
  "preds_in (xs @ ys) b = preds_in xs b @ preds_in ys b"
  by (simp_all add: preds_in_def)

lemma preds_in_none: "\<forall>x\<in>set bs. b \<notin> set (block_targets x) \<Longrightarrow> preds_in bs b = []"
  by (induction bs) (auto simp: preds_in_simps filter_empty_conv)

section \<open>Calls\<close>

definition sig :: "string \<Rightarrow> ty \<Rightarrow> ty list \<Rightarrow> fdecl" where
  "sig f t ts = \<lparr>fd_name = f, fd_ret = t, fd_args = ts, fd_vararg = False, fd_empty = True\<rparr>"

text \<open>A function is not declared, or as it is called; \<open>declare_fun\<close> is the module after the call.\<close>

definition declares_as :: "string \<Rightarrow> ty \<Rightarrow> ty list \<Rightarrow> edit \<Rightarrow> bool" where
  "declares_as f t ts e \<longleftrightarrow> find_decl (ed_decls e) f \<in> {None, Some (sig f t ts)}"

definition declare_fun :: "string \<Rightarrow> ty \<Rightarrow> ty list \<Rightarrow> edit \<Rightarrow> edit" where
  "declare_fun f t ts e =
     (if find_decl (ed_decls e) f = None then e\<lparr>ed_decls := ed_decls e @ [sig f t ts]\<rparr> else e)"

lemma declares_as_declare:
  "declares_as g u us e \<Longrightarrow> (g = f \<Longrightarrow> u = t \<and> us = ts) \<Longrightarrow> declares_as g u us (declare_fun f t ts e)"
  by (auto simp: declares_as_def declare_fun_def find_decl_def find_append sig_def split: option.splits)

lemma declare_fun_blocks:
  "with_blocks (declare_fun f t ts e) bs k = declare_fun f t ts (with_blocks e bs k)"
  "ed_globals (declare_fun f t ts e) = ed_globals e" "ed_fun (declare_fun f t ts e) = ed_fun e"
  by (auto simp: declare_fun_def with_blocks_def)

lemma type_of_declare: "(\<And>f. v \<noteq> VFun f) \<Longrightarrow> type_of (with_blocks (declare_fun f t ts e) bs k) v = type_of (with_blocks e bs k) v"
  by (cases v) (auto simp: find_inst_blocks declare_fun_blocks(3) declare_fun_def)

lemma create_function_blocks:
  assumes "declares_as f t ts e" "map (type_of (with_blocks e bs k)) vs = ts" "\<forall>v\<in>set vs. \<forall>g. v \<noteq> VFun g"
  shows "create_function ts f vs t p False (with_blocks e bs k) =
    Done (VInst k, with_blocks (declare_fun f t ts e) (map (ins_blk p (ins k t (Call (VFun f) vs))) bs) (k + 1))"
proof -
  have g: "get_or_insert f t ts False (with_blocks e bs k) = (sig f t ts, with_blocks (declare_fun f t ts e) bs k)"
    using assms(1) by (auto simp: get_or_insert_def declares_as_def declare_fun_def sig_def with_blocks_def Let_def)
  have zipped: "length ts = length vs \<and> list_all (\<lambda>(t, v). g v = t) (zip ts vs)" if "ts = map g vs" for g
    using that by (auto simp: list_all_length)
  have "map (type_of (with_blocks (declare_fun f t ts e) bs k)) vs = ts"
    unfolding assms(2) [symmetric] using assms(3) by (intro map_cong refl type_of_declare) auto
  then have "good_call (with_blocks (declare_fun f t ts e) bs k) (sig f t ts) vs"
    using zipped [OF sym] by (simp add: good_call_def sig_def)
  then show ?thesis
    by (simp add: create_function_def g create_call_def build_blocks) (simp add: sig_def)
qed

section \<open>The code of one pointer\<close>

definition open_code :: "ident \<Rightarrow> val \<Rightarrow> val \<Rightarrow> val \<Rightarrow> bool \<Rightarrow> inst list" where
  "open_code k base start step mut =
     [ins (k + 7) Int64Type (Cast PtrToInt base), ins (k + 8) Int64Type (Bin Add (VInst (k + 7)) start),
      ins (k + 9) Int64Type (Call (VFun CARM_GET_INIT_OBJ_SIZE) [VInst (k + 8), step]),
      ins (k + 10) Int64Type (Bin LShr (VInst (k + 9)) (num (of_nat LOOP_ID_POS))),
      ins (k + 11) Int64Type (Bin And (VInst (k + 9)) (num LOOP_OBJ_MASK)),
      ins (k + 14) Int64Type (Call (VFun (deref_loop_name mut)) [VInst (k + 10)]),
      ins (k + 15) Int64Type (Bin Add (VInst (k + 14)) (VInst (k + 11)))]"

definition head_code :: "ident \<Rightarrow> ident \<Rightarrow> ty \<Rightarrow> inst list" where
  "head_code k outer pt =
     [ins (k + 6) Int64Type (Phi [(VInst (k + 15), outer), (VInst (k + 20), k)]),
      ins (k + 16) Int64Type (Phi [(VInst (k + 14), outer), (VInst (k + 19), k)]),
      ins (k + 21) pt (Cast IntToPtr (VInst (k + 16)))]"

definition back_blk :: "ident \<Rightarrow> inst \<Rightarrow> block" where
  "back_blk k br = \<lparr>b_id = k, b_insts =
     [ins (k + 19) Int64Type (Phi [(VInst (k + 12), k + 2), (VInst (k + 17), k + 4)]),
      ins (k + 20) Int64Type (Phi [(VInst (k + 13), k + 2), (VInst (k + 6), k + 4)]), br]\<rparr>"

definition cross_blk :: "ident \<Rightarrow> bool \<Rightarrow> block" where
  "cross_blk k mut = \<lparr>b_id = k + 2, b_insts =
     [ins (k + 12) Int64Type (Call (VFun (deref_loop_name mut)) [VInst (k + 10)]),
      ins (k + 13) Int64Type (Bin Add (VInst (k + 12)) (num OBJ_SIZE)), ins (k + 3) TVoid (Br k)]\<rparr>"

definition check_blk :: "ident \<Rightarrow> val \<Rightarrow> block" where
  "check_blk k step = \<lparr>b_id = k + 4, b_insts =
     [ins (k + 17) Int64Type (Bin Add (VInst (k + 16)) step),
      ins (k + 18) Int1Type (ICmp UGE (VInst (k + 17)) (VInst (k + 6))),
      ins (k + 5) TVoid (CondBr (VInst (k + 18)) (k + 2) k)]\<rparr>"

definition pointer_state :: "ident \<Rightarrow> pointer_to_optimize" where
  "pointer_state k = \<lparr>ptr_operand = VInst (k + 8), loopid_and_objsize = VInst (k + 9),
     init_bounds_check = VInst (k + 11), loop_id = VInst (k + 10)\<rparr>"

lemmas edit_emit = emit_simps create_cast_blocks set_op_blocks on_inst_simp

text \<open>The runtime's functions of the loop are not declared yet, or as what they are.\<close>

definition loop_declared :: "bool \<Rightarrow> edit \<Rightarrow> bool" where
  "loop_declared mut e \<longleftrightarrow> declares_as CARM_GET_INIT_OBJ_SIZE Int64Type [Int64Type, Int64Type] e \<and>
     declares_as (deref_loop_name mut) Int64Type [Int64Type] e"

lemma loop_names: "CARM_GET_INIT_OBJ_SIZE \<noteq> deref_loop_name mut"
  by (simp add: CARM_GET_INIT_OBJ_SIZE_def deref_loop_name_def CARM_DEREF_LOOP_WRITE_def CARM_DEREF_LOOP_READ_def)

lemma open_emits:
  assumes below: "below k bs" "below k cs" "\<forall>x\<in>set us. i_id x < k" "i_id u < k"
    and ids: "lacks_all (i_id u) bs" "lacks_all (i_id u) cs" "lacks (i_id u) us" "outer \<notin> b_id ` set bs"
    and new: "\<forall>b\<in>set ds. \<forall>x\<in>set (b_insts b). i_id x < k + 7" "lacks (i_id u) hs" "\<forall>x\<in>set hs. i_id x < k + 7"
      "lacks_all (i_id u) ds"
    and u: "\<not> is_phi (i_op u)" and declared: "declares_as CARM_GET_INIT_OBJ_SIZE Int64Type [Int64Type, Int64Type] e"
    and W: "\<And>e os n. W e os n = with_blocks e (bs @ \<lparr>b_id = h, b_insts = hs\<rparr> # cs @ \<lparr>b_id = outer, b_insts = os @ u # us\<rparr> # ds) n"
    and h: "outer \<noteq> h" "outer \<notin> b_id ` set cs"
    and base: "\<not> is_const base" "is_ptr (type_of (W e [] (k + 7)) base)"
    and step: "type_of (W e [] (k + 7)) step = Int64Type" "\<And>i. step = VInst i \<Longrightarrow> i < k" "\<And>f. step \<noteq> VFun f"
  shows "get_initial_object_bound outer base start False step (W e [] (k + 7)) =
    Done (pointer_state k, W (declare_fun CARM_GET_INIT_OBJ_SIZE Int64Type [Int64Type, Int64Type] e)
      (take 5 (open_code k base start step mut)) (k + 12))"
proof -
  let ?c = "open_code k base start step mut"
  have nl: "lacks_all j ds" "lacks j hs" if "k + 7 \<le> j" for j
    using new(1,3) that by (fastforce simp: lacks_all_def lacks_def)+
  note lk = below ids new(2,4)
  have 1: "first_non_phi outer (W e [] (k + 7)) = Done (i_id u)"
    using first_non_phi_at [of outer "bs @ \<lparr>b_id = h, b_insts = hs\<rparr> # cs" "[]" u e us ds "k + 7"] ids(4) h u
    by (simp add: W image_Un)
  have 2: "create_cast (i_id u) PtrToInt base Int64Type (W e [] (k + 7)) = (VInst (k + 7), W e (take 1 ?c) (k + 8))"
  proof -
    have "type_of (W e [] (k + 7)) base \<noteq> Int64Type" using base(2) by auto
    then show ?thesis using lk base(1) by (simp add: W edit_emit open_code_def ac_simps)
  qed
  have 3: "create_bin (i_id u) Add (VInst (k + 7)) start (W e (take 1 ?c) (k + 8)) = (VInst (k + 8), W e (take 2 ?c) (k + 9))"
    using lk nl by (simp add: W edit_emit open_code_def ac_simps)
  have t: "type_of (W e (take 2 ?c) (k + 9)) (VInst (k + 8)) = Int64Type"
    using lk nl by (simp add: W edit_emit open_code_def)
  have st: "type_of (W e (take 2 ?c) (k + 9)) step = Int64Type"
  proof (cases step)
    case (VInst i)
    then have "i < k" by (rule step(2))
    then have "type_of (W e (take 2 ?c) (k + 9)) (VInst i) = type_of (W e [] (k + 7)) (VInst i)"
      by (simp add: W type_of_ity ity_simps open_code_def del: type_of.simps cong: option.case_cong)
    with VInst step(1) show ?thesis by simp
  qed (use step in \<open>auto simp: W split: if_splits\<close>)
  have 4: "create_function [Int64Type, Int64Type] CARM_GET_INIT_OBJ_SIZE [VInst (k + 8), step] Int64Type (i_id u) False
      (W e (take 2 ?c) (k + 9)) =
    Done (VInst (k + 9), W (declare_fun CARM_GET_INIT_OBJ_SIZE Int64Type [Int64Type, Int64Type] e) (take 3 ?c) (k + 10))"
  proof -
    have "map (type_of (W e (take 2 ?c) (k + 9))) [VInst (k + 8), step] = [Int64Type, Int64Type]"
      using t st by simp
    from create_function_blocks [OF declared this [unfolded W]] step(3) show ?thesis
      using lk by (simp add: W edit_emit open_code_def ac_simps)
  qed
  let ?e = "declare_fun CARM_GET_INIT_OBJ_SIZE Int64Type [Int64Type, Int64Type] e"
  have 5: "create_bin (i_id u) LShr (VInst (k + 9)) (num (of_nat LOOP_ID_POS)) (W ?e (take 3 ?c) (k + 10)) =
      (VInst (k + 10), W ?e (take 4 ?c) (k + 11))"
    using lk nl by (simp add: W edit_emit open_code_def ac_simps)
  have 6: "create_bin (i_id u) And (VInst (k + 9)) (num LOOP_OBJ_MASK) (W ?e (take 4 ?c) (k + 11)) =
      (VInst (k + 11), W ?e (take 5 ?c) (k + 12))"
    using lk nl by (simp add: W edit_emit open_code_def ac_simps)
  show ?thesis
    by (simp only: get_initial_object_bound_def 1 2 3 4 5 6 bindR.simps prod.case pointer_state_def if_False simp_thms)
qed

lemma declare_twice: "declare_fun f t ts (declare_fun f t ts e) = declare_fun f t ts e"
  by (auto simp: declare_fun_def find_decl_def find_append sig_def)

lemma deref_and_bound_emits:
  assumes "declares_as (deref_loop_name mut) Int64Type [Int64Type] e"
    and "type_of (with_blocks e bs n) lid = Int64Type" "lid = VInst i"
    and "type_of (with_blocks (declare_fun (deref_loop_name mut) Int64Type [Int64Type] e)
      (map (ins_blk p (ins n Int64Type (Call (VFun (deref_loop_name mut)) [lid]))) bs) (n + 1)) (VInst n) = Int64Type"
  shows "deref_and_bound p mut lid v (with_blocks e bs n) =
    Done (VInst n, VInst (n + 1), with_blocks (declare_fun (deref_loop_name mut) Int64Type [Int64Type] e)
      (map (ins_blk p (ins (n + 1) Int64Type (Bin Add (VInst n) v)))
        (map (ins_blk p (ins n Int64Type (Call (VFun (deref_loop_name mut)) [lid]))) bs)) (n + 2))"
proof -
  have "map (type_of (with_blocks e bs n)) [lid] = [Int64Type]" using assms(2) by simp
  from create_function_blocks [OF assms(1) this] assms(3,4) show ?thesis
    by (simp add: deref_and_bound_def create_bin_blocks del: map_map type_of.simps)
qed

section \<open>The place of the new code\<close>

text \<open>
  A function as it is when the three blocks of a pointer have been made: the header of the loop
  with its phis, the block before the loop, and whatever lies around them. New instructions go
  before the first instruction of the header that is no phi, and before that of the block
  before the loop.
\<close>

record site =
  st_k :: ident
  st_before :: "block list"
  st_header :: ident
  st_phis :: "inst list"
  st_first :: inst
  st_rest :: "inst list"
  st_between :: "block list"
  st_outer :: ident
  st_open :: inst
  st_orest :: "inst list"
  st_after :: "block list"

definition head_blk :: "site \<Rightarrow> inst list \<Rightarrow> block" where
  "head_blk S hh = \<lparr>b_id = st_header S, b_insts = st_phis S @ hh @ st_first S # st_rest S\<rparr>"

definition outer_blk :: "site \<Rightarrow> inst list \<Rightarrow> block" where
  "outer_blk S os = \<lparr>b_id = st_outer S, b_insts = os @ st_open S # st_orest S\<rparr>"

definition tail_blks :: "site \<Rightarrow> inst list \<Rightarrow> inst list \<Rightarrow> inst list \<Rightarrow> val \<Rightarrow> block list" where
  "tail_blks S ie ob ck c =
     [\<lparr>b_id = st_k S, b_insts = ie @ [ins (st_k S + 1) TVoid (Br (st_header S))]\<rparr>,
      \<lparr>b_id = st_k S + 2, b_insts = ob @ [ins (st_k S + 3) TVoid (Br (st_k S))]\<rparr>,
      \<lparr>b_id = st_k S + 4, b_insts = ck @ [ins (st_k S + 5) TVoid (CondBr c (st_k S + 2) (st_k S))]\<rparr>]"

definition site_blocks :: "site \<Rightarrow> inst list \<Rightarrow> inst list \<Rightarrow> inst list \<Rightarrow> inst list \<Rightarrow> inst list \<Rightarrow> val \<Rightarrow> block list" where
  "site_blocks S hh os ie ob ck c =
     st_before S @ head_blk S hh # st_between S @ outer_blk S os # st_after S @ tail_blks S ie ob ck c"

definition st_old :: "site \<Rightarrow> block list" where
  "st_old S = st_before S @ st_between S @ st_after S"

definition good_site :: "site \<Rightarrow> bool" where
  "good_site S \<longleftrightarrow>
     below (st_k S) (st_before S @ head_blk S [] # st_between S @ outer_blk S [] # st_after S) \<and>
     (\<forall>p\<in>{i_id (st_open S), i_id (st_first S)}. lacks_all p (st_old S) \<and> lacks p (st_phis S) \<and>
        lacks p (st_rest S) \<and> lacks p (st_orest S)) \<and> i_id (st_open S) \<noteq> i_id (st_first S) \<and>
     st_header S \<notin> b_id ` set (st_before S) \<and> st_outer S \<notin> b_id ` set (st_before S @ st_between S) \<and>
     st_outer S \<noteq> st_header S \<and>
     (\<forall>x\<in>set (st_phis S). is_phi (i_op x)) \<and> \<not> is_phi (i_op (st_first S)) \<and>
     \<not> is_phi (i_op (st_open S)) \<and> \<not> is_debug (i_op (st_open S)) \<and>
     (\<forall>b\<in>set (head_blk S [] # st_old S). \<forall>j\<in>{st_header S, st_k S}. j \<notin> set (block_targets b)) \<and>
     block_targets (outer_blk S []) = [st_header S]"

abbreviation site_edit :: "site \<Rightarrow> edit \<Rightarrow> inst list \<Rightarrow> inst list \<Rightarrow> inst list \<Rightarrow> inst list \<Rightarrow> inst list \<Rightarrow> val \<Rightarrow> ident \<Rightarrow> edit" where
  "site_edit S e hh os ie ob ck c n \<equiv> with_blocks e (site_blocks S hh os ie ob ck c) n"

lemmas site_simps = site_blocks_def head_blk_def outer_blk_def tail_blks_def

lemma good_siteD:
  assumes "good_site S"
  shows "below (st_k S) (st_before S)" "below (st_k S) (st_between S)" "below (st_k S) (st_after S)"
    "\<forall>x\<in>set (st_phis S). i_id x < st_k S" "\<forall>x\<in>set (st_rest S). i_id x < st_k S" "\<forall>x\<in>set (st_orest S). i_id x < st_k S"
    "i_id (st_open S) < st_k S" "i_id (st_first S) < st_k S" "st_header S < st_k S" "st_outer S < st_k S"
    "lacks_all (i_id (st_open S)) (st_before S)" "lacks_all (i_id (st_open S)) (st_between S)"
    "lacks_all (i_id (st_open S)) (st_after S)" "lacks (i_id (st_open S)) (st_phis S)"
    "lacks (i_id (st_open S)) (st_rest S)" "lacks (i_id (st_open S)) (st_orest S)"
    "lacks_all (i_id (st_first S)) (st_before S)" "lacks_all (i_id (st_first S)) (st_between S)"
    "lacks_all (i_id (st_first S)) (st_after S)" "lacks (i_id (st_first S)) (st_phis S)"
    "lacks (i_id (st_first S)) (st_rest S)" "lacks (i_id (st_first S)) (st_orest S)"
    "i_id (st_open S) \<noteq> i_id (st_first S)"
  using assms by (auto simp: good_site_def st_old_def head_blk_def outer_blk_def)

lemma site_new:
  assumes "good_site S" "st_k S \<le> j"
  shows "j \<notin> b_id ` set (st_before S)" "j \<notin> b_id ` set (st_between S)" "j \<notin> b_id ` set (st_after S)"
    "j \<noteq> st_header S" "j \<noteq> st_outer S"
  using good_siteD(1-3,9,10) [OF assms(1)] assms(2) by (auto simp: below_def)

lemma site_first:
  assumes "good_site S"
  shows "first_non_phi (st_header S) (site_edit S e [] os ie ob ck c n) = Done (i_id (st_first S))"
  using assms first_non_phi_at [of "st_header S" "st_before S" "st_phis S" "st_first S"]
  by (simp add: good_site_def site_simps)

lemma site_first_new:
  assumes "good_site S"
  shows "first_non_phi (st_k S + 4) (site_edit S e hh os ie ob [] c n) = Done (st_k S + 5)"
    "first_non_phi (st_k S + 2) (site_edit S e hh os ie [] ck c n) = Done (st_k S + 3)"
    "first_non_phi (st_k S) (site_edit S e hh os [] ob ck c n) = Done (st_k S + 1)"
    "terminator (st_k S + 4) (site_edit S e hh os ie ob ck c n) = Done (st_k S + 5)"
proof -
  let ?k = "st_k S" and ?bs = "st_before S @ head_blk S hh # st_between S @ outer_blk S os # st_after S"
  have n: "j \<notin> b_id ` set ?bs" if "?k \<le> j" for j
    using site_new [OF assms that] by (simp add: head_blk_def outer_blk_def image_Un)
  have w: "site_blocks S hh os ie ob ck c = ?bs @ tail_blks S ie ob ck c" for ie ob ck by (simp add: site_blocks_def)
  show "first_non_phi (?k + 4) (site_edit S e hh os ie ob [] c n) = Done (?k + 5)"
    using n [of "?k + 4"] first_non_phi_at [of "?k + 4" "?bs @ take 2 (tail_blks S ie ob [] c)" "[]" _ e "[]" "[]" n]
    by (simp add: w tail_blks_def image_Un del: keep_sums)
  show "first_non_phi (?k + 2) (site_edit S e hh os ie [] ck c n) = Done (?k + 3)"
    using n [of "?k + 2"] first_non_phi_at [of "?k + 2" "?bs @ [hd (tail_blks S ie [] ck c)]" "[]" _ e "[]" "drop 2 (tail_blks S ie [] ck c)" n]
    by (simp add: w tail_blks_def image_Un del: keep_sums)
  show "first_non_phi ?k (site_edit S e hh os [] ob ck c n) = Done (?k + 1)"
    using n [of ?k] first_non_phi_at [of ?k ?bs "[]" _ e "[]" "tl (tail_blks S [] ob ck c)" n]
    by (simp add: w tail_blks_def image_Un del: keep_sums)
  show "terminator (?k + 4) (site_edit S e hh os ie ob ck c n) = Done (?k + 5)"
    using n [of "?k + 4"] terminator_at [of "?k + 4" "?bs @ take 2 (tail_blks S ie ob ck c)" _ e ck "[]" n]
    by (simp add: w tail_blks_def image_Un del: keep_sums)
qed

lemma site_preds:
  assumes "good_site S"
  shows "preds (ed_fun (site_edit S e hh os ie ob ck c n)) (st_header S) = [st_outer S, st_k S]"
    "preds (ed_fun (site_edit S e hh os ie ob ck c n)) (st_k S) = [st_k S + 2, st_k S + 4]"
proof -
  have none: "preds_in (st_before S) j = []" "preds_in (st_between S) j = []" "preds_in (st_after S) j = []"
    "filter (\<lambda>t. t = j) (block_targets (head_blk S hh)) = []" if "j = st_header S \<or> j = st_k S" for j
  proof -
    have "j \<notin> set (block_targets b)" if "b \<in> set (st_old S)" for b
      using assms that \<open>j = st_header S \<or> j = st_k S\<close> by (auto simp: good_site_def)
    then show "preds_in (st_before S) j = []" "preds_in (st_between S) j = []" "preds_in (st_after S) j = []"
      by (auto simp: st_old_def intro!: preds_in_none)
    have "block_targets (head_blk S hh) = block_targets (head_blk S [])"
      by (simp add: block_targets_def head_blk_def)
    then show "filter (\<lambda>t. t = j) (block_targets (head_blk S hh)) = []"
      using assms that by (auto simp: good_site_def filter_empty_conv)
  qed
  have o: "block_targets (outer_blk S os) = [st_header S]" "b_id (outer_blk S os) = st_outer S"
    using assms by (simp_all add: good_site_def block_targets_def outer_blk_def)
  have t: "map block_targets (tail_blks S ie ob ck c) = [[st_header S], [st_k S], [st_k S + 2, st_k S]]"
    by (simp add: block_targets_def tail_blks_def)
  show "preds (ed_fun (site_edit S e hh os ie ob ck c n)) (st_header S) = [st_outer S, st_k S]"
    using none t site_new [OF assms, of "st_k S + 2"] site_new [OF assms, of "st_k S"]
    by (simp add: preds_blocks site_blocks_def preds_in_simps o tail_blks_def del: keep_sums)
  show "preds (ed_fun (site_edit S e hh os ie ob ck c n)) (st_k S) = [st_k S + 2, st_k S + 4]"
    using none t site_new [OF assms, of "st_k S"]
    by (simp add: preds_blocks site_blocks_def preds_in_simps o tail_blks_def del: keep_sums)
qed

section \<open>The steps of \<open>_createCARMLoopIter\<close>\<close>

text \<open>The operands of the marker, as the pass requires them.\<close>

definition good_operands :: "site \<Rightarrow> edit \<Rightarrow> val \<Rightarrow> val \<Rightarrow> bool" where
  "good_operands S e base step \<longleftrightarrow>
     \<not> is_const base \<and> (\<forall>i. base = VInst i \<longrightarrow> i < st_k S) \<and>
     is_ptr (type_of (site_edit S e [] [] [] [] [] (num 0) 0) base) \<and>
     type_of (site_edit S e [] [] [] [] [] (num 0) 0) step = Int64Type \<and>
     (\<forall>i. step = VInst i \<longrightarrow> i < st_k S) \<and> (\<forall>f. step \<noteq> VFun f)"

lemma site_type:
  assumes "\<And>i. v = VInst i \<Longrightarrow> i < st_k S" "\<forall>x\<in>set hh. st_k S \<le> i_id x"
  shows "type_of (site_edit S e hh [] [] [] [] c n) v = type_of (site_edit S e [] [] [] [] [] (num 0) 0) v"
proof (cases v)
  case (VInst i)
  then have i: "i < st_k S" by (rule assms(1))
  then have "lacks i hh" using assms(2) by (fastforce simp: lacks_def)
  with VInst i show ?thesis
    by (simp add: site_simps type_of_ity ity_simps ity_lacks del: type_of.simps cong: option.case_cong)
qed auto

definition after_init :: "edit \<Rightarrow> edit" where
  "after_init e = declare_fun CARM_GET_INIT_OBJ_SIZE Int64Type [Int64Type, Int64Type] e"

definition after_calls :: "bool \<Rightarrow> edit \<Rightarrow> edit" where
  "after_calls mut e = declare_fun (deref_loop_name mut) Int64Type [Int64Type] (after_init e)"

lemma iter_open:
  assumes S: "good_site S" and ops: "good_operands S e base step" and declared: "loop_declared mut e"
  defines "k \<equiv> st_k S" and "b0 \<equiv> ins (st_k S + 6) Int64Type (Phi [])"
  shows "open_from [st_outer S, k] (st_outer S) base start False step None (site_edit S e [b0] [] [] [] [] c (k + 7)) =
      Done (Some (pointer_state k), site_edit S (after_init e) [b0] (take 5 (open_code k base start step mut)) [] [] [] c (k + 12))"
proof -
  note g = good_siteD [OF S]
  have t: "is_ptr (type_of (site_edit S e [b0] [] [] [] [] c (k + 7)) base)"
    "type_of (site_edit S e [b0] [] [] [] [] c (k + 7)) step = Int64Type"
    using ops site_type [of base S "[b0]" e c "k + 7"] site_type [of step S "[b0]" e c "k + 7"]
    by (auto simp: good_operands_def b0_def)
  have n: "\<forall>b\<in>set (st_after S). \<forall>x\<in>set (b_insts b). i_id x < k + 7" "\<forall>x\<in>set (st_phis S). i_id x < k + 7"
    "\<forall>x\<in>set (st_rest S). i_id x < k + 7"
    using g(3,4,5) by (fastforce simp: below_def k_def)+
  have h: "st_outer S \<noteq> st_header S" "st_outer S \<notin> b_id ` set (st_before S)" "st_outer S \<notin> b_id ` set (st_between S)"
    "\<not> is_phi (i_op (st_open S))"
    using S by (auto simp: good_site_def)
  have d: "declares_as CARM_GET_INIT_OBJ_SIZE Int64Type [Int64Type, Int64Type] e"
    using declared by (simp add: loop_declared_def)
  have o: "\<not> is_const base" "\<And>i. step = VInst i \<Longrightarrow> i < st_k S" "\<And>f. step \<noteq> VFun f"
    using ops by (auto simp: good_operands_def)
  let ?hs = "st_phis S @ [b0] @ st_first S # st_rest S" and ?ds = "st_after S @ tail_blks S [] [] [] c"
  have W: "site_edit S e [b0] os [] [] [] c n =
      with_blocks e (st_before S @ \<lparr>b_id = st_header S, b_insts = ?hs\<rparr> # st_between S @
        \<lparr>b_id = st_outer S, b_insts = os @ st_open S # st_orest S\<rparr> # ?ds) n" for e os n
    by (simp add: site_simps)
  have new: "\<forall>b\<in>set ?ds. \<forall>x\<in>set (b_insts b). i_id x < k + 7" "lacks (i_id (st_open S)) ?hs"
    "\<forall>x\<in>set ?hs. i_id x < k + 7" "lacks_all (i_id (st_open S)) ?ds"
    using n g(7,8,13-15,23) by (simp_all add: tail_blks_def b0_def k_def ball_Un)
  have "get_initial_object_bound (st_outer S) base start False step (site_edit S e [b0] [] [] [] [] c (k + 7)) =
      Done (pointer_state k, site_edit S (after_init e) [b0] (take 5 (open_code k base start step mut)) [] [] [] c (k + 12))"
    unfolding after_init_def
    by (rule open_emits [OF g(1,2,6,7) [folded k_def] g(11,12,16) h(2) new h(4) d W h(1,3) o(1) t o(2,3) [folded k_def]])
  then show ?thesis using g(10) by (simp add: k_def)
qed

lemma calls_twice: "declare_fun (deref_loop_name mut) Int64Type [Int64Type] (after_calls mut e) = after_calls mut e"
  by (simp add: after_calls_def declare_twice)

lemma declared_later:
  assumes "loop_declared mut e"
  shows "declares_as (deref_loop_name mut) Int64Type [Int64Type] (after_init e)"
    "declares_as (deref_loop_name mut) Int64Type [Int64Type] (after_calls mut e)"
  using assms loop_names [of mut]
  by (auto simp: loop_declared_def after_init_def after_calls_def intro!: declares_as_declare)

lemma iter_cross:
  fixes base start step :: val and mut :: bool
  assumes S: "good_site S" and declared: "loop_declared mut e"
  defines "k \<equiv> st_k S" and "b0 \<equiv> ins (st_k S + 6) Int64Type (Phi [])"
    and "oc \<equiv> open_code (st_k S) base start step mut"
  shows "deref_and_bound (k + 3) mut (VInst (k + 10)) (num OBJ_SIZE) (site_edit S (after_init e) [b0] (take 5 oc) [] [] [] c (k + 12)) =
      Done (VInst (k + 12), VInst (k + 13),
        site_edit S (after_calls mut e) [b0] (take 5 oc) [] (take 2 (b_insts (cross_blk k mut))) [] c (k + 14))"
  using declared_later(1) [OF declared] good_siteD [OF S]
  by (simp add: site_simps deref_and_bound_emits edit_emit open_code_def cross_blk_def after_calls_def k_def b0_def oc_def ac_simps)

lemma iter_next:
  fixes base start step :: val and mut :: bool
  assumes S: "good_site S" and b0: "i_id b0 = st_k S + 6"
  defines "k \<equiv> st_k S" and "oc \<equiv> open_code (st_k S) base start step mut"
  shows "next_non_debug (k + 11) (ed_fun (site_edit S e [b0] (take 5 oc) [] ob [] c n)) = Some (st_open S)"
proof -
  have "find (has_inst (k + 11)) (site_blocks S [b0] (take 5 oc) [] ob [] c) = Some (outer_blk S (take 5 oc))"
    using good_siteD [OF S] b0
      parent_blocks [of "k + 11" "st_before S @ head_blk S [b0] # st_between S" "outer_blk S (take 5 oc)"]
    by (simp add: site_simps open_code_def k_def oc_def)
  then show ?thesis using S by (simp add: next_non_debug_def open_code_def outer_blk_def good_site_def k_def oc_def)
qed

lemma iter_head_call:
  fixes base start step :: val and mut :: bool
  assumes S: "good_site S" and declared: "loop_declared mut e"
  defines "k \<equiv> st_k S" and "b0 \<equiv> ins (st_k S + 6) Int64Type (Phi [])"
    and "oc \<equiv> open_code (st_k S) base start step mut" and "bc \<equiv> take 2 (b_insts (cross_blk (st_k S) mut))"
  shows "deref_and_bound (i_id (st_open S)) mut (VInst (k + 10)) (VInst (k + 11))
      (site_edit S (after_calls mut e) [b0] (take 5 oc) [] bc [] c (k + 14)) =
      Done (VInst (k + 14), VInst (k + 15), site_edit S (after_calls mut e) [b0] oc [] bc [] c (k + 16))"
  using declared_later(2) [OF declared] good_siteD [OF S]
  by (simp add: site_simps deref_and_bound_emits edit_emit open_code_def cross_blk_def calls_twice k_def b0_def oc_def bc_def ac_simps)

text \<open>The phis of the header and the comparison.\<close>

lemma iter_compare:
  fixes base start step :: val and mut :: bool
  assumes S: "good_site S"
  defines "k \<equiv> st_k S" and "oc \<equiv> open_code (st_k S) base start step mut"
    and "bc \<equiv> take 2 (b_insts (cross_blk (st_k S) mut))" and "cc \<equiv> b_insts (check_blk (st_k S) step)"
    and "b0 \<equiv> ins (st_k S + 6) Int64Type (Phi [])"
    and "b1 \<equiv> ins (st_k S + 6) Int64Type (Phi [(VInst (st_k S + 15), st_outer S)])"
    and "p0 \<equiv> ins (st_k S + 16) Int64Type (Phi [])"
    and "p1 \<equiv> ins (st_k S + 16) Int64Type (Phi [(VInst (st_k S + 14), st_outer S)])"
  shows "addIncoming (VInst (k + 6)) (VInst (k + 15)) (st_outer S) (site_edit S e [b0] oc [] bc [] c (k + 16)) =
      site_edit S e [b1] oc [] bc [] c (k + 16)"
    "build (i_id (st_first S)) Int64Type (Phi []) (site_edit S e [b1] oc [] bc [] c (k + 16)) =
      (VInst (k + 16), site_edit S e [b1, p0] oc [] bc [] c (k + 17))"
    "add_incomings (VInst (k + 16)) (\<lambda>b. if b = st_outer S then Some (VInst (k + 14)) else None) [st_outer S, k]
        (site_edit S e [b1, p0] oc [] bc [] c (k + 17)) = site_edit S e [b1, p1] oc [] bc [] c (k + 17)"
    "create_bin (k + 5) Add (VInst (k + 16)) step (site_edit S e [b1, p1] oc [] bc [] c (k + 17)) =
      (VInst (k + 17), site_edit S e [b1, p1] oc [] bc (take 1 cc) c (k + 18))"
    "create_icmp (k + 5) UGE (VInst (k + 17)) (VInst (k + 6)) (site_edit S e [b1, p1] oc [] bc (take 1 cc) c (k + 18)) =
      (VInst (k + 18), site_edit S e [b1, p1] oc [] bc (take 2 cc) c (k + 19))"
    "set_op (k + 5) (set_condition (VInst (k + 18))) (site_edit S e [b1, p1] oc [] bc (take 2 cc) c (k + 19)) =
      site_edit S e [b1, p1] oc [] bc (take 2 cc) (VInst (k + 18)) (k + 19)"
  using good_siteD [OF S]
  by (simp_all add: site_simps addIncoming_def edit_emit open_code_def cross_blk_def check_blk_def set_condition_def
      k_def oc_def bc_def cc_def b0_def b1_def p0_def p1_def ac_simps)

text \<open>The phis of the block that leads back, and the new address.\<close>

lemma iter_back:
  fixes base start step :: val and mut :: bool and e :: edit
  assumes S: "good_site S" and gep: "is_ptr pt"
  defines "k \<equiv> st_k S"
    and "W \<equiv> \<lambda>hh ie. site_edit S e hh (open_code (st_k S) base start step mut) ie (take 2 (b_insts (cross_blk (st_k S) mut)))
      (take 2 (b_insts (check_blk (st_k S) step))) (VInst (st_k S + 18))"
    and "b1 \<equiv> ins (st_k S + 6) Int64Type (Phi [(VInst (st_k S + 15), st_outer S)])"
    and "b2 \<equiv> ins (st_k S + 6) Int64Type (Phi [(VInst (st_k S + 15), st_outer S), (VInst (st_k S + 20), st_k S)])"
    and "p1 \<equiv> ins (st_k S + 16) Int64Type (Phi [(VInst (st_k S + 14), st_outer S)])"
    and "p2 \<equiv> ins (st_k S + 16) Int64Type (Phi [(VInst (st_k S + 14), st_outer S), (VInst (st_k S + 19), st_k S)])"
    and "t0 \<equiv> ins (st_k S + 19) Int64Type (Phi [])"
    and "t1 \<equiv> ins (st_k S + 19) Int64Type (Phi [(VInst (st_k S + 12), st_k S + 2), (VInst (st_k S + 17), st_k S + 4)])"
    and "s0 \<equiv> ins (st_k S + 20) Int64Type (Phi [])"
    and "s1 \<equiv> ins (st_k S + 20) Int64Type (Phi [(VInst (st_k S + 13), st_k S + 2), (VInst (st_k S + 6), st_k S + 4)])"
  shows "build (k + 1) Int64Type (Phi []) (W [b1, p1] [] (k + 19)) = (VInst (k + 19), W [b1, p1] [t0] (k + 20))"
    "add_incomings (VInst (k + 19)) (\<lambda>b. if b = k + 2 then Some (VInst (k + 12)) else if b = k + 4 then Some (VInst (k + 17)) else None)
      [k + 2, k + 4] (W [b1, p1] [t0] (k + 20)) = W [b1, p1] [t1] (k + 20)"
    "addIncoming (VInst (k + 16)) (VInst (k + 19)) k (W [b1, p1] [t1] (k + 20)) = W [b1, p2] [t1] (k + 20)"
    "build (k + 1) Int64Type (Phi []) (W [b1, p2] [t1] (k + 20)) = (VInst (k + 20), W [b1, p2] [t1, s0] (k + 21))"
    "add_incomings (VInst (k + 20)) (\<lambda>b. if b = k + 2 then Some (VInst (k + 13)) else if b = k + 4 then Some (VInst (k + 6)) else None)
      [k + 2, k + 4] (W [b1, p2] [t1, s0] (k + 21)) = W [b1, p2] [t1, s1] (k + 21)"
    "addIncoming (VInst (k + 6)) (VInst (k + 20)) k (W [b1, p2] [t1, s1] (k + 21)) = W [b2, p2] [t1, s1] (k + 21)"
    "create_cast (i_id (st_first S)) IntToPtr (VInst (k + 16)) pt (W [b2, p2] [t1, s1] (k + 21)) =
      (VInst (k + 21), W (head_code k (st_outer S) pt) [t1, s1] (k + 22))"
proof -
  have "Int64Type \<noteq> pt" using gep by (cases pt) auto
  then show "build (k + 1) Int64Type (Phi []) (W [b1, p1] [] (k + 19)) = (VInst (k + 19), W [b1, p1] [t0] (k + 20))"
    "add_incomings (VInst (k + 19)) (\<lambda>b. if b = k + 2 then Some (VInst (k + 12)) else if b = k + 4 then Some (VInst (k + 17)) else None)
      [k + 2, k + 4] (W [b1, p1] [t0] (k + 20)) = W [b1, p1] [t1] (k + 20)"
    "addIncoming (VInst (k + 16)) (VInst (k + 19)) k (W [b1, p1] [t1] (k + 20)) = W [b1, p2] [t1] (k + 20)"
    "build (k + 1) Int64Type (Phi []) (W [b1, p2] [t1] (k + 20)) = (VInst (k + 20), W [b1, p2] [t1, s0] (k + 21))"
    "add_incomings (VInst (k + 20)) (\<lambda>b. if b = k + 2 then Some (VInst (k + 13)) else if b = k + 4 then Some (VInst (k + 6)) else None)
      [k + 2, k + 4] (W [b1, p2] [t1, s0] (k + 21)) = W [b1, p2] [t1, s1] (k + 21)"
    "addIncoming (VInst (k + 6)) (VInst (k + 20)) k (W [b1, p2] [t1, s1] (k + 21)) = W [b2, p2] [t1, s1] (k + 21)"
    "create_cast (i_id (st_first S)) IntToPtr (VInst (k + 16)) pt (W [b2, p2] [t1, s1] (k + 21)) =
      (VInst (k + 21), W (head_code k (st_outer S) pt) [t1, s1] (k + 22))"
    using good_siteD [OF S]
    by (simp_all add: site_simps addIncoming_def edit_emit open_code_def cross_blk_def check_blk_def head_code_def
        k_def W_def b1_def b2_def p1_def p2_def t0_def t1_def s0_def s1_def ac_simps)
qed

section \<open>All of it\<close>

text \<open>The blocks of the function when the code of the pointer is there.\<close>

definition looped :: "site \<Rightarrow> val \<Rightarrow> val \<Rightarrow> val \<Rightarrow> bool \<Rightarrow> ty \<Rightarrow> block list" where
  "looped S base start step mut pt =
     st_before S @ head_blk S (head_code (st_k S) (st_outer S) pt) # st_between S @
     outer_blk S (open_code (st_k S) base start step mut) # st_after S @
     [back_blk (st_k S) (ins (st_k S + 1) TVoid (Br (st_header S))), cross_blk (st_k S) mut, check_blk (st_k S) step]"

lemma iter_emits:
  assumes S: "good_site S" and ops: "good_operands S e base step" and declared: "loop_declared mut e"
    and fh: "fo_header FO l = st_header S" and gep: "i_op gep = Gep gt base gis" "is_ptr (i_ty gep)"
  defines "k \<equiv> st_k S"
  shows "createCARMLoopIter f FO l (st_outer S) (k + 4) (k + 2) k step start gep False mut
      (L, site_edit S e [] [] [] [] [] c (k + 6)) =
    (let e2 = with_blocks (after_calls mut e) (looped S base start step mut (i_ty gep)) (k + 22)
     in bindR (delete_carm_checks_on_gep f (i_id gep) (ld_checks L) e2) (\<lambda>(checks, del).
        bindR (replace_uses (VInst (i_id gep)) (VInst (k + 21)) (erase_all del e2)) (\<lambda>e.
          Done (pointer_state k, L\<lparr>ld_checks := checks\<rparr>, e))))"
proof -
  let ?b0 = "ins (k + 6) Int64Type (Phi [])"
  have b: "build (i_id (st_first S)) Int64Type (Phi []) (site_edit S e [] [] [] [] [] c (k + 6)) =
      (VInst (k + 6), site_edit S e [?b0] [] [] [] [] c (k + 7))"
    using good_siteD [OF S] by (simp add: site_simps edit_emit k_def ac_simps)
  have g: "loop_id (pointer_state k) = VInst (k + 10)" "init_bounds_check (pointer_state k) = VInst (k + 11)"
    by (simp_all add: pointer_state_def)
  have nx: "next_non_debug (k + 11) (ed_fun (site_edit S e [?b0] (take 5 (open_code k base start step mut)) [] ob [] c n)) = Some (st_open S)"
    for e ob n unfolding k_def by (rule iter_next [OF S]) simp
  note f = site_first [OF S] site_first_new [OF S, folded k_def] site_preds [OF S, folded k_def]
  have fin: "with_blocks (after_calls mut e) (looped S base start step mut (i_ty gep)) (k + 22) =
      site_edit S (after_calls mut e) (head_code k (st_outer S) (i_ty gep)) (open_code k base start step mut)
        [ins (k + 19) Int64Type (Phi [(VInst (k + 12), k + 2), (VInst (k + 17), k + 4)]),
         ins (k + 20) Int64Type (Phi [(VInst (k + 13), k + 2), (VInst (k + 6), k + 4)])]
        (take 2 (b_insts (cross_blk k mut))) (take 2 (b_insts (check_blk k step))) (VInst (k + 18)) (k + 22)"
    by (simp add: looped_def site_blocks_def tail_blks_def back_blk_def cross_blk_def check_blk_def k_def)
  show ?thesis
    unfolding createCARMLoopIter_def prod.case Let_def fh f bindR.simps b gep(1) op.case
      iter_open [OF S ops declared, folded k_def] option.case iter_cross [OF S declared, folded k_def] g val.case nx
      iter_head_call [OF S declared, folded k_def] iter_compare [OF S, folded k_def] if_False
      iter_back [OF S gep(2), folded k_def] fin
    by simp
qed

end
