(* ===== verification/Loop_Exec.thy ===== *)
theory Loop_Exec
  imports Loop_Emit Guard_Exec Loops
begin

text \<open>
  Running the code of one pointer, block by block: what is left of it after the later edits, the
  phis of the header, the blocks behind an iteration and the block before the loop, each as a
  step of the local pointer, its bound and the state of the runtime.
\<close>

section \<open>The function after the pass\<close>

definition drop_insts :: "ident list \<Rightarrow> block \<Rightarrow> block" where
  "drop_insts is b = b\<lparr>b_insts := filter (\<lambda>x. i_id x \<notin> set is) (b_insts b)\<rparr>"

lemma drop_insts_id [simp]: "b_id (drop_insts is b) = b_id b"
  by (simp add: drop_insts_def)

lemma erase_blocks: "erase i (with_blocks e bs k) = with_blocks e (map (drop_insts [i]) bs) k"
  by (cases e) (simp add: erase_def on_fun_def erase_from_def with_blocks_def drop_insts_def [abs_def])

lemma erase_all_blocks: "erase_all del (with_blocks e bs k) = with_blocks e (map (drop_insts del) bs) k"
proof (induction del arbitrary: bs)
  case (Cons i del)
  have "erase_all (i # del) (with_blocks e bs k) = erase_all del (with_blocks e (map (drop_insts [i]) bs) k)"
    by (simp add: erase_all_def erase_blocks)
  moreover have "map (drop_insts del) (map (drop_insts [i]) bs) = map (drop_insts (i # del)) bs"
    by (simp add: drop_insts_def conj_commute)
  ultimately show ?case using Cons.IH by (simp del: map_map)
qed (simp add: erase_all_def drop_insts_def [abs_def] with_blocks_def)

lemma replace_uses_done:
  "replace_uses a w (with_blocks e bs k) = Done e' \<Longrightarrow> e' = with_blocks e (map (subst_blk a w) bs) k"
  by (cases "type_of (with_blocks e bs k) a = type_of (with_blocks e bs k) w")
    (simp add: replace_uses_blocks del: type_of.simps, simp add: replace_uses_def del: type_of.simps)

lemma deleted_markers:
  "delete_carm_checks_on_gep f g cs e = Done (ds, del) \<Longrightarrow> set ds \<subseteq> set cs \<and> set del \<subseteq> fst ` set cs"
proof (induction cs arbitrary: ds del)
  case (Cons ci cs)
  obtain c i where ci: "ci = (c, i)" by (cases ci)
  from Cons.prems obtain x where x: "(case i of None \<Rightarrow> None | Some j \<Rightarrow> find_inst e j) = Some x"
    by (cases "case i of None \<Rightarrow> None | Some j \<Rightarrow> find_inst e j") (simp_all add: ci)
  with Cons.prems obtain p where p: "(case i_op x of Load t p \<Rightarrow> Some p | Store v p \<Rightarrow> Some p | _ \<Rightarrow> None) = Some p"
    by (cases "case i_op x of Load t p \<Rightarrow> Some p | Store v p \<Rightarrow> Some p | _ \<Rightarrow> None") (simp_all add: ci)
  from Cons.prems obtain ds' del' where "delete_carm_checks_on_gep f g cs e = Done (ds', del')"
      "del = c # del' \<or> del = del'" "ds = (c, i) # ds' \<or> ds = ds'"
    by (auto simp: ci x p bindR_Done_iff split: if_splits)
  then show ?case using Cons.IH by (auto simp: ci)
qed simp

text \<open>A function with the blocks of one pointer.\<close>

definition holds_loop ::
    "func \<Rightarrow> ident \<Rightarrow> ident \<Rightarrow> ident \<Rightarrow> bool \<Rightarrow> val \<Rightarrow> ty \<Rightarrow> inst list \<Rightarrow> inst list \<Rightarrow> bool" where
  "holds_loop F k h outer mut sv pt phs rest \<longleftrightarrow> h < k \<and> (\<forall>x\<in>set phs. is_phi (i_op x) \<and> i_id x < k) \<and>
     (\<exists>bs cs. f_blocks F = bs @ \<lparr>b_id = h, b_insts = phs @ head_code k outer pt @ rest\<rparr> # cs @
          [back_blk k (ins (k + 1) TVoid (Br h)), cross_blk k mut, check_blk k sv] \<and>
        h \<notin> b_id ` set bs \<and> (\<forall>b\<in>set (bs @ cs). b_id b < k))"

lemma holds_loop_blocks:
  assumes "holds_loop F k h outer mut sv pt phs rest"
  shows "find (\<lambda>b. b_id b = h) (f_blocks F) = Some \<lparr>b_id = h, b_insts = phs @ head_code k outer pt @ rest\<rparr>"
    "find (\<lambda>b. b_id b = k) (f_blocks F) = Some (back_blk k (ins (k + 1) TVoid (Br h)))"
    "find (\<lambda>b. b_id b = k + 2) (f_blocks F) = Some (cross_blk k mut)"
    "find (\<lambda>b. b_id b = k + 4) (f_blocks F) = Some (check_blk k sv)"
proof -
  obtain bs cs where b: "f_blocks F = bs @ \<lparr>b_id = h, b_insts = phs @ head_code k outer pt @ rest\<rparr> # cs @
      [back_blk k (ins (k + 1) TVoid (Br h)), cross_blk k mut, check_blk k sv]"
    "h \<notin> b_id ` set bs" "\<forall>b\<in>set (bs @ cs). b_id b < k" and h: "h < k"
    using assms by (auto simp: holds_loop_def)
  show "find (\<lambda>b. b_id b = h) (f_blocks F) = Some \<lparr>b_id = h, b_insts = phs @ head_code k outer pt @ rest\<rparr>"
    unfolding b(1) by (rule find_block_at [OF b(2)])
  have "find (\<lambda>b. b_id b = j) (f_blocks F) =
      find (\<lambda>b. b_id b = j) [back_blk k (ins (k + 1) TVoid (Br h)), cross_blk k mut, check_blk k sv]" if "k \<le> j" for j
    using b(3) h that find_below [of bs k j] find_below [of cs k j] by (simp add: b(1) ball_Un)
  then show "find (\<lambda>b. b_id b = k) (f_blocks F) = Some (back_blk k (ins (k + 1) TVoid (Br h)))"
    "find (\<lambda>b. b_id b = k + 2) (f_blocks F) = Some (cross_blk k mut)"
    "find (\<lambda>b. b_id b = k + 4) (f_blocks F) = Some (check_blk k sv)"
    by (simp_all add: back_blk_def cross_blk_def check_blk_def del: keep_sums)
qed

lemma iter_outcome:
  assumes S: "good_site S" "good_operands S e base sv" "loop_declared mut e" "fo_header FO l = st_header S"
    and gep: "i_op gep = Gep gt base gis" "is_ptr (i_ty gep)"
    and run: "createCARMLoopIter f FO l (st_outer S) (st_k S + 4) (st_k S + 2) (st_k S) sv start gep False mut
      (L, site_edit S e [] [] [] [] [] c (st_k S + 6)) = Done (p, L', e')"
  obtains del ds where "set del \<subseteq> fst ` set (ld_checks L)" "set ds \<subseteq> set (ld_checks L)" "L' = L\<lparr>ld_checks := ds\<rparr>"
    "e' = with_blocks (after_calls mut e) (map (\<lambda>b. subst_blk (VInst (i_id gep)) (VInst (st_k S + 21)) (drop_insts del b))
       (looped S base start sv mut (i_ty gep))) (st_k S + 22)"
proof -
  let ?e2 = "with_blocks (after_calls mut e) (looped S base start sv mut (i_ty gep)) (st_k S + 22)"
  obtain ds del where d: "delete_carm_checks_on_gep f (i_id gep) (ld_checks L) ?e2 = Done (ds, del)"
    and r: "replace_uses (VInst (i_id gep)) (VInst (st_k S + 21)) (erase_all del ?e2) = Done e'" and L: "L' = L\<lparr>ld_checks := ds\<rparr>"
    using run by (auto simp: iter_emits [OF S gep] Let_def bindR_Done_iff simp del: keep_sums)
  show ?thesis
    using that [of del ds] deleted_markers [OF d] L replace_uses_done [OF r [unfolded erase_all_blocks]] by (simp add: comp_def)
qed

text \<open>What the later edits leave of the new code: all of it.\<close>

definition edited :: "site \<Rightarrow> inst \<Rightarrow> ident list \<Rightarrow> inst list \<Rightarrow> inst list" where
  "edited S gep del xs =
     map (\<lambda>x. x\<lparr>i_op := map_op (subst_val (VInst (i_id gep)) (VInst (st_k S + 21))) (i_op x)\<rparr>)
       (filter (\<lambda>x. i_id x \<notin> set del) xs)"

lemma edited_simps:
  "b_insts (subst_blk (VInst (i_id gep)) (VInst (st_k S + 21)) (drop_insts del b)) = edited S gep del (b_insts b)"
  "edited S gep del (xs @ ys) = edited S gep del xs @ edited S gep del ys"
  by (simp_all add: edited_def drop_insts_def subst_blk_def)

lemma iter_holds_loop:
  assumes S: "good_site S" "good_operands S e base sv" "loop_declared mut e" "fo_header FO l = st_header S"
    and gep: "i_op gep = Gep gt base gis" "is_ptr (i_ty gep)" "i_id gep < st_k S" "sv \<noteq> VInst (i_id gep)"
    and cs: "\<forall>c\<in>fst ` set (ld_checks L). c < st_k S"
    and run: "createCARMLoopIter f FO l (st_outer S) (st_k S + 4) (st_k S + 2) (st_k S) sv start gep False mut
      (L, site_edit S e [] [] [] [] [] c (st_k S + 6)) = Done (p, L', e')"
  shows "\<exists>phs rest. holds_loop (ed_fun e') (st_k S) (st_header S) (st_outer S) mut sv (i_ty gep) phs rest"
proof -
  let ?k = "st_k S" and ?oc = "open_code (st_k S) base start sv mut"
  obtain del where del: "set del \<subseteq> fst ` set (ld_checks L)"
    and e': "f_blocks (ed_fun e') = map (\<lambda>b. subst_blk (VInst (i_id gep)) (VInst (?k + 21)) (drop_insts del b))
       (looped S base start sv mut (i_ty gep))"
    using iter_outcome [OF S gep(1,2) run] by (metis with_blocks_simps(1))
  have nd: "i \<notin> set del" if "?k \<le> i" for i using del cs that by fastforce
  let ?G = "\<lambda>b. subst_blk (VInst (i_id gep)) (VInst (?k + 21)) (drop_insts del b)" and ?s = "edited S gep del"
  have new: "?G (back_blk ?k (ins (?k + 1) TVoid (Br h))) = back_blk ?k (ins (?k + 1) TVoid (Br h))"
    "?G (cross_blk ?k mut) = cross_blk ?k mut" "?G (check_blk ?k sv) = check_blk ?k sv" for h
    using gep(3,4) nd by (simp_all add: drop_insts_def subst_blk_def subst_val_def back_blk_def cross_blk_def check_blk_def)
  have head: "?G (head_blk S (head_code ?k (st_outer S) (i_ty gep))) =
      \<lparr>b_id = st_header S, b_insts = ?s (st_phis S) @ head_code ?k (st_outer S) (i_ty gep) @ ?s (st_first S # st_rest S)\<rparr>"
    using gep(3) nd by (simp add: drop_insts_def subst_blk_def subst_val_def head_blk_def head_code_def edited_def)
  let ?bs = "map ?G (st_before S)" and ?cs = "map ?G (st_between S @ outer_blk S ?oc # st_after S)"
  have blocks: "f_blocks (ed_fun e') = ?bs @
      \<lparr>b_id = st_header S, b_insts = ?s (st_phis S) @ head_code ?k (st_outer S) (i_ty gep) @ ?s (st_first S # st_rest S)\<rparr> # ?cs @
      [back_blk ?k (ins (?k + 1) TVoid (Br (st_header S))), cross_blk ?k mut, check_blk ?k sv]"
    by (simp only: e' looped_def map_append list.map new head append_assoc append_Cons)
  have id: "b_id (?G b) = b_id b" for b by simp
  have phi: "is_phi (map_op w o1) = is_phi o1" for w o1 by (cases o1) simp_all
  have "b_id ` set ?bs = b_id ` set (st_before S)" by (simp add: image_image drop_insts_def)
  moreover have "\<forall>b\<in>set (?bs @ ?cs). b_id b < ?k"
    using good_siteD(1-3,10) [OF S(1)] by (auto simp: id below_def outer_blk_def)
  moreover have "\<forall>x\<in>set (?s (st_phis S)). is_phi (i_op x) \<and> i_id x < ?k"
    using S(1) good_siteD(4) [OF S(1)] by (auto simp: good_site_def phi edited_def)
  ultimately have "holds_loop (ed_fun e') ?k (st_header S) (st_outer S) mut sv (i_ty gep) (?s (st_phis S)) (?s (st_first S # st_rest S))"
    unfolding holds_loop_def using blocks S(1) good_siteD(9) [OF S(1)] by (auto simp only: good_site_def)
  then show ?thesis by blast
qed

lemma iter_outer:
  assumes S: "good_site S" "good_operands S e base sv" "loop_declared mut e" "fo_header FO l = st_header S"
    and gep: "i_op gep = Gep gt base gis" "is_ptr (i_ty gep)" "i_id gep < st_k S" "VInst (i_id gep) \<notin> {base, start, sv}"
    and cs: "\<forall>c\<in>fst ` set (ld_checks L). c < st_k S \<and> c \<noteq> i_id (st_open S)"
    and br: "i_op (st_open S) = Br h" "st_orest S = []"
    and run: "createCARMLoopIter f FO l (st_outer S) (st_k S + 4) (st_k S + 2) (st_k S) sv start gep False mut
      (L, site_edit S e [] [] [] [] [] c (st_k S + 6)) = Done (p, L', e')"
  shows "find (\<lambda>b. b_id b = st_outer S) (f_blocks (ed_fun e')) =
    Some \<lparr>b_id = st_outer S, b_insts = open_code (st_k S) base start sv mut @ [st_open S]\<rparr>"
proof -
  let ?k = "st_k S" and ?oc = "open_code (st_k S) base start sv mut"
  obtain del where del: "set del \<subseteq> fst ` set (ld_checks L)"
    and e': "f_blocks (ed_fun e') = map (\<lambda>b. subst_blk (VInst (i_id gep)) (VInst (?k + 21)) (drop_insts del b))
       (looped S base start sv mut (i_ty gep))"
    using iter_outcome [OF S gep(1,2) run] by (metis with_blocks_simps(1))
  let ?G = "\<lambda>b. subst_blk (VInst (i_id gep)) (VInst (?k + 21)) (drop_insts del b)"
  have nd: "i \<notin> set del" if "?k \<le> i \<or> i = i_id (st_open S)" for i using del cs that by fastforce
  have o: "?G (outer_blk S ?oc) = \<lparr>b_id = st_outer S, b_insts = ?oc @ [st_open S]\<rparr>"
    using gep(3,4) nd br
    by (cases "st_open S") (auto simp: drop_insts_def subst_blk_def subst_val_def outer_blk_def open_code_def)
  have "find (\<lambda>b. b_id b = st_outer S) (f_blocks (ed_fun e')) = Some (?G (outer_blk S ?oc))"
  proof -
    have B: "f_blocks (ed_fun e') = map ?G (st_before S @ head_blk S (head_code ?k (st_outer S) (i_ty gep)) # st_between S) @
        \<lparr>b_id = st_outer S, b_insts = ?oc @ [st_open S]\<rparr> # map ?G (st_after S @
        [back_blk ?k (ins (?k + 1) TVoid (Br (st_header S))), cross_blk ?k mut, check_blk ?k sv])"
      by (simp only: e' looped_def map_append list.map o append_assoc append_Cons append_Nil)
    have "st_outer S \<notin> b_id ` set (map ?G (st_before S @ head_blk S (head_code ?k (st_outer S) (i_ty gep)) # st_between S))"
      using S(1) by (auto simp: good_site_def head_blk_def)
    from find_block_at [OF this] show ?thesis unfolding B o .
  qed
  then show ?thesis by (simp only: o)
qed

section \<open>Phis\<close>

lemma phi_values_append:
  "\<forall>x\<in>set xs. is_phi (i_op x) \<Longrightarrow>
   phi_values M r p (xs @ ys) = bindR (phi_values M r p xs) (\<lambda>a. bindR (phi_values M r p ys) (\<lambda>b. Done (a @ b)))"
proof (induction xs)
  case (Cons x xs)
  then obtain vs where x: "i_op x = Phi vs" by (cases "i_op x") auto
  show ?case
  proof (cases "find (\<lambda>(v, b). b = p) vs")
    case (Some vb)
    obtain v b where vb: "vb = (v, b)" by (cases vb)
    with Some Cons show ?thesis
      by (cases "eval M r v"; cases "phi_values M r p xs"; cases "phi_values M r p ys") (simp_all add: x of_opt_def)
  qed (simp add: x)
qed (cases "phi_values M r p ys"; simp)

text \<open>
  The other phis of the header get a value from block \<open>p\<close>: one that was there before the pass, or
  the new address, both of which the blocks behind the iteration leave alone.
\<close>

definition phi_ready :: "'e machine \<Rightarrow> regs \<Rightarrow> ident \<Rightarrow> ident \<Rightarrow> inst \<Rightarrow> bool" where
  "phi_ready M r k p x \<longleftrightarrow>
     (case i_op x of
        Phi vs \<Rightarrow> (case find (\<lambda>(v, b). b = p) vs of
                     None \<Rightarrow> False
                   | Some (v, b) \<Rightarrow> (val_below k v \<or> v = VInst (k + 21)) \<and> eval M r v \<noteq> None)
      | _ \<Rightarrow> False)"

lemma phis_ready:
  assumes "\<forall>x\<in>set xs. phi_ready M r k p x" "\<forall>j. j < k \<or> j = k + 21 \<longrightarrow> r' j = r j"
  shows "\<exists>vs. phi_values M r' p xs = Done vs \<and> map fst vs = map i_id xs"
  using assms(1)
proof (induction xs)
  case (Cons x xs)
  then obtain vs v b where x: "i_op x = Phi vs" "find (\<lambda>(v, b). b = p) vs = Some (v, b)"
    "val_below k v \<or> v = VInst (k + 21)" "eval M r v \<noteq> None"
    by (auto simp: phi_ready_def split: op.splits option.splits)
  have "eval M r' v = eval M r v"
    using x(3) assms(2) eval_below [of k v r r' M] by auto
  with Cons x show ?case by (auto simp: of_opt_def)
qed simp

section \<open>One pass behind an iteration\<close>

lemma run_compare:
  assumes F: "holds_loop F k h outer mut sv pt phs rest"
    and r: "r (k + 16) = Some (W p)" "r (k + 6) = Some (W b)" "eval M r sv = Some (W d)"
  defines "r1 \<equiv> r(k + 17 \<mapsto> W (p + d), k + 18 \<mapsto> W (if b \<le> p + d then 1 else 0))"
  shows "steps 3 F M (at_block (k + 4) pr (b_insts (check_blk k sv)) r s) = Done
     (if b \<le> p + d then at_block (k + 2) (k + 4) (b_insts (cross_blk k mut)) r1 s
      else at_block k (k + 4) [ins (k + 1) TVoid (Br h)] (r1(k + 20 \<mapsto> W b, k + 19 \<mapsto> W (p + d))) s)"
  using r holds_loop_blocks(2,3) [OF F]
  by (simp add: check_blk_def exec_simps r1_def back_blk_def cross_blk_def del: keep_sums)

lemma run_cross:
  assumes F: "holds_loop F k h outer mut sv pt phs rest" and r: "r (k + 10) = Some (W i)"
    and call: "mc_call M (deref_loop_name mut) [W i] s = Done (W a, s')"
  defines "r1 \<equiv> r(k + 12 \<mapsto> W a, k + 13 \<mapsto> W (a + OBJ_SIZE))"
  shows "steps 3 F M (at_block (k + 2) pr (b_insts (cross_blk k mut)) r s) =
      Done (at_block k (k + 2) [ins (k + 1) TVoid (Br h)] (r1(k + 20 \<mapsto> W (a + OBJ_SIZE), k + 19 \<mapsto> W a)) s')"
  using r call holds_loop_blocks(2) [OF F]
  by (simp add: cross_blk_def exec_simps r1_def back_blk_def del: keep_sums)

lemma clip_ptr: "is_ptr pt \<Longrightarrow> clip pt a = a"
  by (cases pt) (simp_all add: clip_def)

lemma enter_header:
  assumes F: "holds_loop F k h outer mut sv pt phs rest" and pt: "is_ptr pt"
    and phis: "phi_values M r from phs = Done vs" "map fst vs = map i_id phs"
    and new: "phi_values M r from (head_code k outer pt @ rest) = Done [(k + 6, W b), (k + 16, W p)]"
    and x: "i_op x = Br h"
  shows "\<exists>r'. steps 2 F M (at_block from pr [x] r s) = Done (at_block h from rest r' s) \<and>
    r' (k + 16) = Some (W p) \<and> r' (k + 6) = Some (W b) \<and> r' (k + 21) = Some (W p) \<and>
    (\<forall>j. j \<notin> i_id ` set phs \<and> j \<notin> {k + 6, k + 16, k + 21} \<longrightarrow> r' j = r j)"
proof -
  let ?hc = "head_code k outer pt"
  let ?vs = "vs @ [(k + 6, W b), (k + 16, W p)]"
  have ph: "\<forall>x\<in>set phs. is_phi (i_op x) \<and> i_id x < k" using F by (simp add: holds_loop_def)
  have "phi_values M r from (phs @ ?hc @ rest) = Done ?vs"
    using ph phis(1) new by (simp add: phi_values_append)
  moreover have "dropWhile (\<lambda>x. is_phi (i_op x)) (phs @ ?hc @ rest) = drop 2 ?hc @ rest"
    using ph by (simp add: head_code_def)
  moreover have none: "map_of vs j = None" if "j \<notin> i_id ` set phs" for j
    using that phis(2) by (metis map_of_eq_None_iff list.set_map)
  moreover have "k + 16 \<notin> i_id ` set phs" "k + 6 \<notin> i_id ` set phs" using ph by auto
  ultimately show ?thesis
    using holds_loop_blocks(1) [OF F] pt x
    by (intro exI [of _ "(r ++ map_of ?vs)(k + 21 \<mapsto> W p)"])
      (simp add: exec_simps head_code_def clip_ptr map_add_def del: keep_sums)
qed

lemma head_values:
  "outer \<noteq> k \<Longrightarrow> r (k + 19) = Some (W p) \<Longrightarrow> r (k + 20) = Some (W b) \<Longrightarrow>
   phi_values M r k (head_code k outer pt @ xs) = Done [(k + 6, W b), (k + 16, W p)]"
  "r (k + 14) = Some (W p) \<Longrightarrow> r (k + 15) = Some (W b) \<Longrightarrow>
   phi_values M r outer (head_code k outer pt @ xs) = Done [(k + 6, W b), (k + 16, W p)]"
  by (simp_all add: head_code_def of_opt_def del: keep_sums)

section \<open>An iteration and the opening, up to the runtime\<close>

definition loop_call :: "'e env_ops \<Rightarrow> bool \<Rightarrow> u64 \<Rightarrow> 'e rt \<Rightarrow> (u64 \<times> 'e rt) run" where
  "loop_call E mut = (if mut then carm_deref_loop_write E else carm_deref_loop_read E)"

text \<open>The machine's calls of the runtime's loop functions, by their mangled names, are the model's.\<close>

definition loop_calls :: "'e env_ops \<Rightarrow> 'e machine \<Rightarrow> bool" where
  "loop_calls E M \<longleftrightarrow>
     (\<forall>i s. mc_call M ''_Z20carm_deref_loop_readm'' [W i] s = bindR (carm_deref_loop_read E i s) (\<lambda>(a, s). Done (W a, s))) \<and>
     (\<forall>i s. mc_call M ''_Z21carm_deref_loop_writem'' [W i] s = bindR (carm_deref_loop_write E i s) (\<lambda>(a, s). Done (W a, s))) \<and>
     (\<forall>p d s. mc_call M ''_Z14carm_loop_initmm'' [W p, W d] s = bindR (carm_loop_init E p d s) (\<lambda>(w, s). Done (W w, s)))"

text \<open>The names the pass uses lead there.\<close>

lemma loop_callsD:
  assumes "loop_calls E M"
  shows "mc_call M (deref_loop_name mut) [W i] s = bindR (loop_call E mut i s) (\<lambda>(a, s). Done (W a, s))"
    and "mc_call M CARM_GET_INIT_OBJ_SIZE [W p, W d] s = bindR (carm_loop_init E p d s) (\<lambda>(w, s). Done (W w, s))"
  using assms
  by (simp_all add: loop_calls_def loop_call_def deref_loop_name_def CARM_DEREF_LOOP_READ_def CARM_DEREF_LOOP_WRITE_def
      CARM_GET_INIT_OBJ_SIZE_def)

text \<open>What the blocks behind an iteration do, as a step of the pointer, the bound and the state.\<close>

definition advance :: "'e env_ops \<Rightarrow> bool \<Rightarrow> u64 \<Rightarrow> u64 \<Rightarrow> u64 \<times> u64 \<Rightarrow> 'e rt \<Rightarrow> (u64 \<times> u64 \<times> 'e rt) run" where
  "advance E mut i d pb s =
     (if snd pb \<le> fst pb + d then bindR (loop_call E mut i s) (\<lambda>(a, s). Done (a, a + OBJ_SIZE, s))
      else Done (fst pb + d, snd pb, s))"

definition header_phis :: "block \<Rightarrow> inst list" where
  "header_phis B = takeWhile (\<lambda>x. is_phi (i_op x)) (b_insts B)"

text \<open>The header after its phis and the new address.\<close>

definition after_head :: "block \<Rightarrow> inst list" where
  "after_head B = tl (dropWhile (\<lambda>x. is_phi (i_op x)) (b_insts B))"

lemma iteration_runs:
  assumes F: "holds_loop F k h outer mut sv pt phs rest" and pt: "is_ptr pt" and outer: "outer \<noteq> k"
    and calls: "loop_calls E M" and adv: "advance E mut i d (p, b) s = Done (p', b', s')"
    and regs: "r (k + 16) = Some (W p)" "r (k + 6) = Some (W b)" "r (k + 10) = Some (W i)" "eval M r sv = Some (W d)"
    and ready: "\<forall>x\<in>set phs. phi_ready M r k k x"
  shows "\<exists>n r'. steps n F M (at_block (k + 4) pr (b_insts (check_blk k sv)) r s) = Done (at_block h k rest r' s') \<and>
    r' (k + 21) = Some (W p') \<and> r' (k + 16) = Some (W p') \<and> r' (k + 6) = Some (W b') \<and> r' (k + 10) = Some (W i)"
proof -
  have ph: "\<forall>x\<in>set phs. is_phi (i_op x) \<and> i_id x < k" using F by (simp add: holds_loop_def)
  have "\<exists>n r1 pr'. steps n F M (at_block (k + 4) pr (b_insts (check_blk k sv)) r s) =
      Done (at_block k pr' [ins (k + 1) TVoid (Br h)] r1 s') \<and>
    r1 (k + 19) = Some (W p') \<and> r1 (k + 20) = Some (W b') \<and> r1 (k + 10) = Some (W i) \<and>
    (\<forall>j. j < k \<or> j = k + 21 \<longrightarrow> r1 j = r j)"
  proof (cases "b \<le> p + d")
    case True
    then have c: "loop_call E mut i s = Done (p', s')" "b' = p' + OBJ_SIZE"
      using adv by (auto simp: advance_def bindR_Done_iff)
    have 1: "steps 3 F M (at_block (k + 4) pr (b_insts (check_blk k sv)) r s) =
        Done (at_block (k + 2) (k + 4) (b_insts (cross_blk k mut)) (r(k + 17 \<mapsto> W (p + d), k + 18 \<mapsto> W 1)) s)"
      using run_compare [OF F regs(1,2,4), of pr s] True by simp
    have "mc_call M (deref_loop_name mut) [W i] s = Done (W p', s')"
      using c(1) by (simp add: loop_callsD [OF calls])
    from steps_trans [OF 1 run_cross [OF F _ this]] regs(3) c(2) show ?thesis
      by (auto intro!: exI simp del: keep_sums)
  next
    case False
    then show ?thesis using run_compare [OF F regs(1,2,4), of pr s] regs(3) adv
      by (auto simp: advance_def intro!: exI simp del: keep_sums)
  qed
  then obtain n r1 pr' where 1: "steps n F M (at_block (k + 4) pr (b_insts (check_blk k sv)) r s) =
      Done (at_block k pr' [ins (k + 1) TVoid (Br h)] r1 s')"
    "r1 (k + 19) = Some (W p')" "r1 (k + 20) = Some (W b')" "r1 (k + 10) = Some (W i)"
    "\<forall>j. j < k \<or> j = k + 21 \<longrightarrow> r1 j = r j" by blast
  obtain vs where vs: "phi_values M r1 k phs = Done vs" "map fst vs = map i_id phs"
    using phis_ready [OF ready 1(5)] by blast
  have br: "i_op (ins (k + 1) TVoid (Br h)) = Br h" by simp
  obtain r' where 2: "steps 2 F M (at_block k pr' [ins (k + 1) TVoid (Br h)] r1 s') = Done (at_block h k rest r' s')"
    "r' (k + 16) = Some (W p')" "r' (k + 6) = Some (W b')" "r' (k + 21) = Some (W p')"
    "\<forall>j. j \<notin> i_id ` set phs \<and> j \<notin> {k + 6, k + 16, k + 21} \<longrightarrow> r' j = r1 j"
    using enter_header [OF F pt vs head_values(1) [OF outer 1(2,3)] br] by blast
  have "k + 10 \<notin> i_id ` set phs" using ph by auto
  then have "r' (k + 10) = Some (W i)" using 2(5) 1(4) by simp
  with 2(2-4) steps_trans [OF 1(1) 2(1)] show ?thesis by blast
qed

lemma open_runs:
  assumes calls: "loop_calls E M" and ev: "eval M r base = Some (W q)" "eval M r start = Some (W a)" "eval M r sv = Some (W d)"
    and below: "val_below k base" "val_below k start" "val_below k sv"
    and init: "carm_loop_init E (q + a) d s = Done (w, s1)" "loop_call E mut (loop_id_of w) s1 = Done (p, s2)"
  shows "\<exists>r'. steps 7 F M (at_block bl pr (open_code k base start sv mut @ ys) r s) = Done (at_block bl pr ys r' s2) \<and>
    r' (k + 10) = Some (W (loop_id_of w)) \<and> r' (k + 14) = Some (W p) \<and>
    r' (k + 15) = Some (W (p + obj_left_of w)) \<and> (\<forall>j. j < k \<or> j = k + 21 \<longrightarrow> r' j = r j)"
proof -
  let ?r1 = "r(k + 7 \<mapsto> W q)" and ?r2 = "r(k + 7 \<mapsto> W q, k + 8 \<mapsto> W (q + a))"
  let ?r7 = "?r2(k + 9 \<mapsto> W w, k + 10 \<mapsto> W (loop_id_of w), k + 11 \<mapsto> W (obj_left_of w), k + 14 \<mapsto> W p,
    k + 15 \<mapsto> W (p + obj_left_of w))"
  have e: "eval M ?r1 start = Some (W a)" "eval M ?r2 sv = Some (W d)"
    using ev(2,3) eval_below [OF below(2), of ?r1 r M] eval_below [OF below(3), of ?r2 r M] by simp_all
  have c: "mc_call M CARM_GET_INIT_OBJ_SIZE [W (q + a), W d] s = Done (W w, s1)"
    "mc_call M (deref_loop_name mut) [W (loop_id_of w)] s1 = Done (W p, s2)"
    using init by (simp_all add: loop_callsD [OF calls])
  have sh: "drop_bit (unat (of_nat LOOP_ID_POS :: u64)) w = loop_id_of w" by (simp add: loop_id_of_def LOOP_ID_POS_def)
  have "steps 7 F M (at_block bl pr (open_code k base start sv mut @ ys) r s) = Done (at_block bl pr ys ?r7 s2)"
    using e ev(1) c by (simp add: open_code_def exec_simps sh obj_left_of_def [symmetric] del: keep_sums)
  then show ?thesis by (intro exI [of _ ?r7]) auto
qed

end
