(* ===== verification/Loop_Walk.thy ===== *)
theory Loop_Walk
  imports Loop_Exec
begin

text \<open>
  The emitted loop code and the runtime together: the local pointer of a loop over remote memory
  always holds the address of the program's current element, with a call of the runtime only where
  the next element lies in the next object; and what happens when the step does not divide
  the size of an object, or is negative.
\<close>

section \<open>The runtime behind it\<close>

text \<open>
  The local pointer \<open>p\<close> with bound \<open>b\<close> stands for the remote address \<open>pos\<close>: its object is at
  \<open>A\<close>, marked modified if the loop writes (\<open>mt\<close>), and the runtime will hand out the next object at
  the next call.
\<close>

definition walking :: "'e env_view \<Rightarrow> bool \<Rightarrow> 'e rt \<Rightarrow> u64 \<Rightarrow> ptr \<Rightarrow> u64 \<Rightarrow> u64 \<Rightarrow> u64 \<Rightarrow> bool" where
  "walking V mt s i pos A p b \<longleftrightarrow> rt_inv V s \<and> carm_rt s \<and> i < MAX_LOOPS \<and> cl_carm_ptr (loopstate s i) \<and>
     cl_stride (loopstate s i) = 1 \<and> check_carm_object pos \<and> resident V s (obj_of pos) A \<and> unat A < 2 ^ 47 \<and>
     p = A + off_of pos \<and> b = A + OBJ_SIZE \<and> cl_obj_index (loopstate s i) = obj_of pos + 1 \<and>
     unat (cl_start_obj_index (loopstate s i)) \<le> unat (obj_of pos) \<and> (mt \<longrightarrow> marked V s (obj_of pos))"

lemma sp_address:
  assumes "carm_deref_read_sp E j n s = Done (A, s') \<or> carm_deref_write_sp E j n s = Done (A, s')"
  shows "unat A < 2 ^ 47"
proof -
  obtain md where "A = drop_bit kObjectDataAddrBitPos md"
    using assms by (auto simp: carm_deref_read_sp_def carm_deref_write_sp_def carmDeref_read_sp_def
        carmDeref_write_sp_def bindR_Done_iff split_def)
  moreover have "unat md < 2 ^ 47 * 2 ^ 17" by (rule less_le_trans [OF unsigned_less]) simp
  then have "unat md div 2 ^ 17 < 2 ^ 47" by (rule less_mult_imp_div_less)
  ultimately show ?thesis by (simp add: drop_bit_eq_div kObjectDataAddrBitPos_def unat_div)
qed

lemma loop_call_object:
  assumes laws: "env_laws E V" and inv: "rt_inv V s" "carm_rt s" and i: "i < MAX_LOOPS" "cl_carm_ptr (loopstate s i)"
    and acc: "accessible V s (cl_obj_index (loopstate s i))"
  defines "l \<equiv> loopstate s i"
  shows "\<exists>A x s'. loop_call E mut i s =
      Done (if cl_start_obj_index l = cl_obj_index l then A + cl_start_obj_offset l else A, s') \<and>
    rt_inv V s' \<and> view V s \<subseteq>\<^sub>m view V s' \<and> carm_rt s' \<and> resident V s' (cl_obj_index l) A \<and> unat A < 2 ^ 47 \<and>
    (mut \<longrightarrow> marked V s' (cl_obj_index l)) \<and> loopstate s' i = l\<lparr>cl_region_addr := x, cl_obj_index := cl_obj_index l + cl_stride l\<rparr>"
proof -
  let ?d = "if mut then carm_deref_write_sp E else carm_deref_read_sp E"
  obtain a s' where run: "loop_call E mut i s = Done (a, s')" and c: "crossed V mut i s a s'"
    using carm_deref_loop_object [OF laws inv i acc] by (cases mut) (auto simp: loop_call_def)
  have "loop_object E ?d i s = Done (a, s')" using run i
    by (cases mut) (simp_all add: loop_call_def carm_deref_loop_read_def carm_deref_loop_write_def)
  then obtain lp t where d: "?d (cl_obj_index l) (i + 1) (unmark E (cl_region_addr l) s) = Done (lp, t)"
    and s': "s' = set_loop i (l\<lparr>cl_region_addr := fst (e_mark_region E lp (env t)),
        cl_obj_index := cl_obj_index l + cl_stride l\<rparr>) (t\<lparr>env := snd (e_mark_region E lp (env t))\<rparr>)"
    and a: "a = (if cl_start_obj_index l = cl_obj_index l then lp + cl_start_obj_offset l else lp)"
    by (auto simp: loop_object_def Let_def bindR_Done_iff l_def split: if_splits)
  have "unat lp < 2 ^ 47"
    using d sp_address [of E "cl_obj_index l" "i + 1" "unmark E (cl_region_addr l) s" lp t] by (cases mut) simp_all
  moreover have "carm_rt t" using d inv(2) deref_sp_book [of E] by (cases mut) (fastforce simp: same_book_def unmark_def)+
  moreover have "loopstate s' i = l\<lparr>cl_region_addr := fst (e_mark_region E lp (env t)),
      cl_obj_index := cl_obj_index l + cl_stride l\<rparr>" by (simp add: s' set_loop_def)
  moreover have "resident V s' (cl_obj_index l) lp"
    using c by (auto simp: crossed_def Let_def a l_def split: if_splits)
  moreover have "carm_rt s'" using \<open>carm_rt t\<close> by (simp add: s' set_loop_def)
  ultimately show ?thesis
    using run c unfolding a crossed_def Let_def l_def by blast
qed

lemma loop_cross:
  assumes laws: "env_laws E V" and w: "walking V mut s i pos A p b" and acc: "accessible V s (obj_of pos + 1)"
    and small: "unat (obj_of pos) < 2 ^ 60"
  shows "\<exists>A' s'. loop_call E mut i s = Done (A', s') \<and> rt_inv V s' \<and> view V s \<subseteq>\<^sub>m view V s' \<and> carm_rt s' \<and>
    resident V s' (obj_of pos + 1) A' \<and> unat A' < 2 ^ 47 \<and> (mut \<longrightarrow> marked V s' (obj_of pos + 1)) \<and> cl_carm_ptr (loopstate s' i) \<and>
    cl_stride (loopstate s' i) = 1 \<and> cl_obj_index (loopstate s' i) = obj_of pos + 1 + 1 \<and>
    cl_start_obj_index (loopstate s' i) = cl_start_obj_index (loopstate s i)"
proof -
  let ?l = "loopstate s i"
  have l: "i < MAX_LOOPS" "cl_carm_ptr ?l" "cl_stride ?l = 1" "cl_obj_index ?l = obj_of pos + 1" "rt_inv V s" "carm_rt s"
    "unat (cl_start_obj_index ?l) \<le> unat (obj_of pos)" using w by (simp_all add: walking_def)
  have "unat (obj_of pos + 1) = unat (obj_of pos) + 1" using small by (simp add: unat_word_ariths)
  with l(7) have start: "cl_start_obj_index ?l \<noteq> cl_obj_index ?l" by (auto simp: l(4))
  show ?thesis using loop_call_object [OF laws l(5,6,1,2), of mut] acc start by (auto simp: l(2-4))
qed

lemma unat_resident: "unat A < 2 ^ 47 \<Longrightarrow> unat (x :: u64) < 8192 \<Longrightarrow> unat (A + x) = unat A + unat x"
  by (rule unat_add_no_wrap) simp

text \<open>The pointer and the bound after the pass, and the state of the runtime.\<close>

lemma walk_on:
  assumes laws: "env_laws E V" and w: "walking V mut s i pos A p b"
    and d: "unat d dvd 4096" "unat d dvd unat (off_of pos)"
    and next_pos: "unat (pos XOR CARM_PTR) + unat d < 2 ^ 60" "accessible V s (obj_of (pos + d))"
  shows "\<exists>A' p' b' s'. (if b \<le> p + d then loop_call E mut i s = Done (p', s') \<and> b' = p' + OBJ_SIZE
      else p' = p + d \<and> b' = b \<and> s' = s) \<and>
    walking V mut s' i (pos + d) A' p' b' \<and> view V s \<subseteq>\<^sub>m view V s'"
proof -
  have pos: "check_carm_object pos" "unat A < 2 ^ 47" "p = A + off_of pos" "b = A + OBJ_SIZE"
    using w by (simp_all add: walking_def)
  have d4: "unat d \<le> 4096" using d(1) by (intro dvd_imp_le) simp_all
  have "unat (off_of pos) + unat d \<le> 4096"
  proof -
    have "unat d dvd 4096 - unat (off_of pos)" using d by (intro dvd_diff_nat)
    then show ?thesis using unat_off_of_lt [of pos] by (auto dest!: dvd_imp_le)
  qed
  then consider (stay) "unat (off_of pos) + unat d < 4096" | (cross) "unat (off_of pos) + unat d = 4096" by linarith
  then show ?thesis
  proof cases
    case stay
    note o = same_object [OF pos(1) next_pos(1) stay]
    have "unat (off_of pos + d) = unat (off_of pos) + unat d" by (rule unat_add_no_wrap) (use stay in simp)
    then have "unat (p + d) = unat A + (unat (off_of pos) + unat d)"
      using unat_resident [OF pos(2), of "off_of pos + d"] stay by (simp add: pos(3) add.assoc)
    moreover have "unat b = unat A + 4096" using unat_resident [OF pos(2), of OBJ_SIZE] by (simp add: pos(4) OBJ_SIZE_def)
    ultimately have nb: "\<not> b \<le> p + d" using stay by (simp add: word_le_nat_alt)
    have "walking V mut s i (pos + d) A (p + d) b"
      using w remote_add(1) [OF pos(1) next_pos(1)] by (simp add: walking_def o add.assoc)
    with nb show ?thesis by (intro exI [of _ A] exI [of _ "p + d"] exI [of _ b] exI [of _ s]) simp
  next
    case cross
    note o = next_object [OF pos(1) next_pos(1) cross]
    have "off_of pos + d = OBJ_SIZE"
      using cross by (simp add: word_unat_eq_iff unat_word_ariths OBJ_SIZE_def)
    then have b: "b \<le> p + d" by (simp add: pos(3,4) add.assoc)
    have small: "unat (obj_of pos) < 2 ^ 60" using next_pos(1) by (simp add: unat_obj_of)
    from loop_cross [OF laws w next_pos(2) [unfolded o(1)] small] obtain A' s' where
      c: "loop_call E mut i s = Done (A', s')" "rt_inv V s'" "view V s \<subseteq>\<^sub>m view V s'" "carm_rt s'"
        "resident V s' (obj_of pos + 1) A'" "unat A' < 2 ^ 47" "mut \<longrightarrow> marked V s' (obj_of pos + 1)" "cl_carm_ptr (loopstate s' i)"
        "cl_stride (loopstate s' i) = 1" "cl_obj_index (loopstate s' i) = obj_of pos + 1 + 1"
        "cl_start_obj_index (loopstate s' i) = cl_start_obj_index (loopstate s i)" by blast
    have "unat (obj_of pos + 1) = unat (obj_of pos) + 1" using small by (simp add: unat_word_ariths)
    then have "walking V mut s' i (pos + d) A' A' (A' + OBJ_SIZE)"
      using w c remote_add(1) [OF pos(1) next_pos(1)] by (simp add: walking_def o)
    with b c show ?thesis by (intro exI [of _ A'] exI [of _ A'] exI [of _ "A' + OBJ_SIZE"] exI [of _ s']) simp
  qed
qed

section \<open>An iteration\<close>

text \<open>When the step divides the size of an object, the pointer follows the program's elements.\<close>

lemma walk_advance:
  assumes "env_laws E V" "walking V mut s i pos A p b"
    and "unat d dvd 4096" "unat d dvd unat (off_of pos)" "unat (pos XOR CARM_PTR) + unat d < 2 ^ 60"
    and "accessible V s (obj_of (pos + d))"
  shows "\<exists>A' p' b' s'. advance E mut i d (p, b) s = Done (p', b', s') \<and>
    walking V mut s' i (pos + d) A' p' b' \<and> view V s \<subseteq>\<^sub>m view V s'"
  using walk_on [OF assms] by (auto simp: advance_def split: if_splits)

lemma walking_byte:
  assumes "walking V mut s i pos A p b" "unat (pos XOR CARM_PTR) < 2 ^ 60"
  shows "view V s pos = Some (mem s p)"
  using assms resident_read [of V s pos A 0] unat_room_bounds(1) [of pos]
  by (simp add: walking_def word_less_nat_alt)

lemma div_mod_over:
  assumes "(x :: nat) mod 4096 + d < 8192" "4096 < x mod 4096 + d"
  shows "(x + d) div 4096 = x div 4096 + 1" "(x + d) mod 4096 = x mod 4096 + d - 4096"
proof -
  define c where "c = x mod 4096 + d - 4096"
  have c: "x mod 4096 + d = 4096 + c" "c < 4096" using assms by (simp_all add: c_def)
  have "x + d = (x div 4096 + 1) * 4096 + c"
    using c(1) div_mult_mod_eq [of x 4096] unfolding distrib_right by linarith
  then show "(x + d) div 4096 = x div 4096 + 1" "(x + d) mod 4096 = x mod 4096 + d - 4096"
    using c by (simp_all only: div_mult_self3 mod_mult_self3) simp_all
qed

text \<open>
  When the next element begins inside the next object, the pointer goes to the start of that
  object.
\<close>

lemma residue_advance:
  assumes laws: "env_laws E V" and w: "walking V mut s i pos A p b"
    and d: "unat d < 4096" "4096 < unat (off_of pos) + unat d" "unat (pos XOR CARM_PTR) + 4096 < 2 ^ 60"
      "accessible V s (obj_of pos + 1)"
  shows "\<exists>A' b' s'. advance E mut i d (p, b) s = Done (A', b', s') \<and> resident V s' (obj_of (pos + d)) A' \<and>
    off_of (pos + d) \<noteq> 0 \<and> view V s' (pos + d) = Some (mem s' (A' + off_of (pos + d)))"
proof -
  have pos: "check_carm_object pos" "unat A < 2 ^ 47" "p = A + off_of pos" "b = A + OBJ_SIZE"
    using w by (simp_all add: walking_def)
  let ?x = "unat (pos XOR CARM_PTR)"
  have x: "?x mod 4096 + unat d < 8192" "4096 < ?x mod 4096 + unat d"
    using d(1,2) unat_off_of_lt [of pos] by (simp_all add: unat_off_of)
  have small: "unat (obj_of pos) < 2 ^ 60" "?x + unat d < 2 ^ 60" using d by (simp_all add: unat_obj_of)
  have u: "unat ((pos + d) XOR CARM_PTR) = ?x + unat d" by (rule remote_add(3) [OF pos(1) small(2)])
  have q: "(?x + unat d) div 4096 = ?x div 4096 + 1" "(?x + unat d) mod 4096 = ?x mod 4096 + unat d - 4096"
    using div_mod_over [OF x] by simp_all
  have "unat (obj_of pos + 1) = unat (obj_of pos) + 1" using small(1) by (simp add: unat_word_ariths)
  then have o: "obj_of (pos + d) = obj_of pos + 1" by (simp add: word_unat_eq_iff unat_obj_of u q(1))
  have off: "off_of (pos + d) \<noteq> 0" using x(2) by (simp add: word_unat_eq_iff unat_off_of u q(2))
  have "unat (off_of pos + d) = unat (off_of pos) + unat d"
    by (rule unat_add_no_wrap) (use d(1) unat_off_of_lt [of pos] in simp)
  then have "unat (p + d) = unat A + (unat (off_of pos) + unat d)"
    using unat_resident [OF pos(2), of "off_of pos + d"] d(1) unat_off_of_lt [of pos] by (simp add: pos(3) add.assoc)
  moreover have "unat b = unat A + 4096" using unat_resident [OF pos(2), of OBJ_SIZE] by (simp add: pos(4) OBJ_SIZE_def)
  ultimately have b: "b \<le> p + d" using d(2) by (simp add: word_le_nat_alt)
  obtain A' s' where c: "loop_call E mut i s = Done (A', s')" "resident V s' (obj_of pos + 1) A'"
    using loop_cross [OF laws w d(4) small(1)] by blast
  have "view V s' (pos + d) = Some (mem s' (A' + off_of (pos + d)))"
    using resident_read [of V s' "pos + d" A' 0] c(2) remote_add(1) [OF pos(1) small(2)] small(2)
      unat_room_bounds(1) [of "pos + d"] by (simp add: o u word_less_nat_alt)
  with b c off show ?thesis by (auto simp: advance_def o)
qed

text \<open>
  A loop that walks down never asks the runtime for an object: the pointer leaves its object
  at the lower end.
\<close>

theorem descending_never_crosses:
  assumes "unat e \<le> unat p" "p < b"
  shows "advance E mut i (- e) (p, b) s = Done (p - e, b, s)"
proof -
  have "p - e \<le> p" using assms(1) by (simp add: word_le_nat_alt unat_sub_le)
  with assms(2) have "\<not> b \<le> p - e" by (meson not_le order_le_less_trans)
  then show ?thesis by (simp add: advance_def)
qed

text \<open>The blocks the pass emits for one pointer, run from the end of an iteration to the header.\<close>

lemma pass_iteration:
  assumes S: "good_site S" "good_operands S e base sv" "loop_declared mut e" "fo_header FO l = st_header S"
    and gep: "i_op gep = Gep gt base gis" "is_ptr (i_ty gep)" "i_id gep < st_k S" "sv \<noteq> VInst (i_id gep)"
    and cs: "\<forall>c\<in>fst ` set (ld_checks L). c < st_k S"
    and run: "createCARMLoopIter f FO l (st_outer S) (st_k S + 4) (st_k S + 2) (st_k S) sv start gep False mut
      (L, site_edit S e [] [] [] [] [] c (st_k S + 6)) = Done (g, L', e')"
    and calls: "loop_calls E M" and adv: "advance E mut i d (p, b) s = Done (p', b', s')"
    and regs: "r (st_k S + 16) = Some (W p)" "r (st_k S + 6) = Some (W b)" "r (st_k S + 10) = Some (W i)"
      "eval M r sv = Some (W d)"
    and header: "find (\<lambda>x. b_id x = st_header S) (f_blocks (ed_fun e')) = Some B"
    and phis: "\<forall>x\<in>set (header_phis B). i_id x < st_k S \<longrightarrow> phi_ready M r (st_k S) (st_k S) x"
  shows "\<exists>n r'. steps n (ed_fun e') M (at_block (st_k S + 4) pr (b_insts (check_blk (st_k S) sv)) r s) =
      Done (at_block (st_header S) (st_k S) (after_head B) r' s') \<and>
    r' (st_k S + 21) = Some (W p') \<and> r' (st_k S + 16) = Some (W p') \<and> r' (st_k S + 6) = Some (W b') \<and>
    r' (st_k S + 10) = Some (W i)"
proof -
  let ?k = "st_k S"
  obtain phs rest where F: "holds_loop (ed_fun e') ?k (st_header S) (st_outer S) mut sv (i_ty gep) phs rest"
    using iter_holds_loop [OF S gep cs run] by blast
  have outer: "st_outer S \<noteq> ?k" using good_siteD(10) [OF S(1)] by simp
  have ph: "\<forall>x\<in>set phs. is_phi (i_op x) \<and> i_id x < ?k" using F by (simp add: holds_loop_def)
  have B: "b_insts B = phs @ head_code ?k (st_outer S) (i_ty gep) @ rest"
    using header holds_loop_blocks(1) [OF F] by auto
  have rem: "after_head B = rest" using ph by (simp add: after_head_def B head_code_def)
  have "set phs \<subseteq> set (header_phis B)" using ph by (simp add: header_phis_def B)
  then have ready: "\<forall>x\<in>set phs. phi_ready M r ?k ?k x" using phis ph by blast
  show ?thesis using iteration_runs [OF F gep(2) outer calls adv regs ready, of pr] unfolding rem .
qed

text \<open>
  C35: in a function to which the pass has added the code of one pointer, control that reaches
  the end of an iteration with the local pointer at the program's element \<open>pos\<close> reaches the
  header again with the local pointer, and the address used in place of the original address
  computation, at the element \<open>d\<close> bytes further; the program's memory is the same, and the
  runtime is called only when that element lies in the next object. The step divides the size
  of an object and the elements are aligned to it.
\<close>

theorem loop_pointer_walks:
  assumes S: "good_site S" "good_operands S e base sv" "loop_declared mut e" "fo_header FO l = st_header S"
    and gep: "i_op gep = Gep gt base gis" "is_ptr (i_ty gep)" "i_id gep < st_k S" "sv \<noteq> VInst (i_id gep)"
    and cs: "\<forall>c\<in>fst ` set (ld_checks L). c < st_k S"
    and run: "createCARMLoopIter f FO l (st_outer S) (st_k S + 4) (st_k S + 2) (st_k S) sv start gep False mut
      (L, site_edit S e [] [] [] [] [] c (st_k S + 6)) = Done (g, L', e')"
    and laws: "env_laws E V" and calls: "loop_calls E M" and walk: "walking V mut s i pos A p b"
    and regs: "r (st_k S + 16) = Some (W p)" "r (st_k S + 6) = Some (W b)" "r (st_k S + 10) = Some (W i)"
      "eval M r sv = Some (W d)"
    and d: "unat d dvd 4096" "unat d dvd unat (off_of pos)" "unat (pos XOR CARM_PTR) + unat d < 2 ^ 60"
      "accessible V s (obj_of (pos + d))"
    and header: "find (\<lambda>x. b_id x = st_header S) (f_blocks (ed_fun e')) = Some B"
    and phis: "\<forall>x\<in>set (header_phis B). i_id x < st_k S \<longrightarrow> phi_ready M r (st_k S) (st_k S) x"
  shows "\<exists>n r' s' A' p' b'. steps n (ed_fun e') M (at_block (st_k S + 4) pr (b_insts (check_blk (st_k S) sv)) r s) =
      Done (at_block (st_header S) (st_k S) (after_head B) r' s') \<and>
    r' (st_k S + 21) = Some (W p') \<and> r' (st_k S + 16) = Some (W p') \<and> r' (st_k S + 6) = Some (W b') \<and>
    r' (st_k S + 10) = Some (W i) \<and> walking V mut s' i (pos + d) A' p' b' \<and> view V s \<subseteq>\<^sub>m view V s' \<and>
    view V s' (pos + d) = Some (mem s' p')"
proof -
  obtain A' p' b' s' where w: "advance E mut i d (p, b) s = Done (p', b', s')" "walking V mut s' i (pos + d) A' p' b'"
    "view V s \<subseteq>\<^sub>m view V s'" using walk_advance [OF laws walk d] by blast
  have "view V s' (pos + d) = Some (mem s' p')"
    using walking_byte [OF w(2)] d(3) remote_add(3) [OF _ d(3)] walk by (simp add: walking_def)
  then show ?thesis
    using pass_iteration [OF S gep cs run calls w(1) regs header phis, of pr] w(2,3) by blast
qed

text \<open>
  C38: the same code, when the step is such that the next element begins inside the next object:
  the header is reached with the pointer, and the address used in place of the original address
  computation, at the start of that object, while the element lies \<open>off_of (pos + d)\<close> bytes
  further, so the iteration accesses other bytes than the program's element.
\<close>

theorem stride_residue_lost:
  assumes S: "good_site S" "good_operands S e base sv" "loop_declared mut e" "fo_header FO l = st_header S"
    and gep: "i_op gep = Gep gt base gis" "is_ptr (i_ty gep)" "i_id gep < st_k S" "sv \<noteq> VInst (i_id gep)"
    and cs: "\<forall>c\<in>fst ` set (ld_checks L). c < st_k S"
    and run: "createCARMLoopIter f FO l (st_outer S) (st_k S + 4) (st_k S + 2) (st_k S) sv start gep False mut
      (L, site_edit S e [] [] [] [] [] c (st_k S + 6)) = Done (g, L', e')"
    and laws: "env_laws E V" and calls: "loop_calls E M" and walk: "walking V mut s i pos A p b"
    and regs: "r (st_k S + 16) = Some (W p)" "r (st_k S + 6) = Some (W b)" "r (st_k S + 10) = Some (W i)"
      "eval M r sv = Some (W d)"
    and d: "unat d < 4096" "4096 < unat (off_of pos) + unat d" "unat (pos XOR CARM_PTR) + 4096 < 2 ^ 60"
      "accessible V s (obj_of pos + 1)"
    and header: "find (\<lambda>x. b_id x = st_header S) (f_blocks (ed_fun e')) = Some B"
    and phis: "\<forall>x\<in>set (header_phis B). i_id x < st_k S \<longrightarrow> phi_ready M r (st_k S) (st_k S) x"
  shows "\<exists>n r' s' A'. steps n (ed_fun e') M (at_block (st_k S + 4) pr (b_insts (check_blk (st_k S) sv)) r s) =
      Done (at_block (st_header S) (st_k S) (after_head B) r' s') \<and>
    r' (st_k S + 21) = Some (W A') \<and> r' (st_k S + 16) = Some (W A') \<and>
    resident V s' (obj_of (pos + d)) A' \<and> off_of (pos + d) \<noteq> 0 \<and>
    view V s' (pos + d) = Some (mem s' (A' + off_of (pos + d)))"
proof -
  obtain A' b' s' where adv: "advance E mut i d (p, b) s = Done (A', b', s')" and "resident V s' (obj_of (pos + d)) A'"
    "off_of (pos + d) \<noteq> 0" "view V s' (pos + d) = Some (mem s' (A' + off_of (pos + d)))"
    using residue_advance [OF laws walk d] by blast
  then show ?thesis using pass_iteration [OF S gep cs run calls adv regs header phis, of pr] by blast
qed

section \<open>Opening the loop\<close>

lemma walk_open:
  assumes laws: "env_laws E V" and inv: "rt_inv V s" "carm_rt s"
    and free: "loop_id_cnt s < MAX_LOOPS" "\<not> cl_active (loopstate s (loop_id_cnt s))"
    and pos: "check_carm_object pos" "accessible V s (obj_of pos)" and d: "loop_stride d = 1"
  shows "\<exists>w s1 A p s2. carm_loop_init E pos d s = Done (w, s1) \<and> loop_id_of w = loop_id_cnt s \<and>
    loop_call E mut (loop_id_cnt s) s1 = Done (p, s2) \<and>
    walking V mut s2 (loop_id_cnt s) pos A p (p + obj_left_of w) \<and> view V s \<subseteq>\<^sub>m view V s2"
proof -
  let ?i = "loop_id_cnt s" and ?l = "open_remote pos d (loopstate s (loop_id_cnt s))"
  let ?s1 = "set_loop ?i ?l s\<lparr>loop_id_cnt := ?i + 1\<rparr>" and ?w = "pack_loop (OBJ_SIZE - off_of pos) ?i"
  have d0: "d \<noteq> 0" using d by (auto simp: loop_stride_def)
  have g: "cp_obj_index (get_carm_ptr pos 1) = obj_of pos" "cp_offset (get_carm_ptr pos 1) = off_of pos"
    using at_get [OF pos(1), of 1] by (simp_all add: at_ptr_def)
  have 1: "carm_loop_init E pos d s = Done (?w, ?s1)"
    using free pos(1) d0 by (simp add: carm_loop_init_def Let_def g set_loop_def)
  have i: "unat ?i < 2 ^ 14" using free(1) by (simp add: word_less_unat MAX_LOOPS_def)
  have "unat (OBJ_SIZE - off_of pos) < 2 ^ 50" using unat_room_bounds(2) [of pos] by (simp add: room_def)
  note w = pack_fields [OF this i]
  have l: "loopstate ?s1 ?i = ?l" "carm_rt ?s1" "rt_inv V ?s1" "view V ?s1 = view V s"
    using inv rt_inv_cong [of ?s1 s V] view_cong [of ?s1 s V] by (simp_all add: set_loop_def)
  have o: "cl_carm_ptr ?l" "cl_obj_index ?l = obj_of pos" "cl_start_obj_index ?l = obj_of pos"
    "cl_start_obj_offset ?l = off_of pos" "cl_stride ?l = 1"
    using d by (simp_all add: open_remote_def Let_def g)
  have "accessible V ?s1 (obj_of pos)" using pos(2) accessible_cong [of ?s1 s V] by (simp add: set_loop_def)
  then obtain A x s2 where 2: "loop_call E mut ?i ?s1 = Done (A + off_of pos, s2)" "rt_inv V s2" "view V s \<subseteq>\<^sub>m view V s2"
      "carm_rt s2" "resident V s2 (obj_of pos) A" "unat A < 2 ^ 47"
      "mut \<longrightarrow> marked V s2 (obj_of pos)" "loopstate s2 ?i = ?l\<lparr>cl_region_addr := x, cl_obj_index := obj_of pos + 1\<rparr>"
    using loop_call_object [OF laws l(3,2) free(1), of mut] o(1) unfolding l(1,4) o(2-5) by auto
  have "walking V mut s2 ?i pos A (A + off_of pos) (A + off_of pos + obj_left_of ?w)"
    using 2 free(1) pos(1) o by (simp add: walking_def w)
  with 1 2(1,3) w(1) show ?thesis by blast
qed

text \<open>
  C36: entering the loop, the code before it opens the loop with the runtime and the header is
  reached with the local pointer at the address of the program's first element, the start of
  the marker added to the pointer of the address computation, and with the bound at the end of
  its object.
\<close>

theorem loop_opening_walks:
  assumes S: "good_site S" "good_operands S e base sv" "loop_declared mut e" "fo_header FO l = st_header S"
    and gep: "i_op gep = Gep gt base gis" "is_ptr (i_ty gep)" "i_id gep < st_k S" "VInst (i_id gep) \<notin> {base, start, sv}"
    and cs: "\<forall>c\<in>fst ` set (ld_checks L). c < st_k S \<and> c \<noteq> i_id (st_open S)"
    and br: "i_op (st_open S) = Br (st_header S)" "st_orest S = []"
    and run: "createCARMLoopIter f FO l (st_outer S) (st_k S + 4) (st_k S + 2) (st_k S) sv start gep False mut
      (L, site_edit S e [] [] [] [] [] c (st_k S + 6)) = Done (g, L', e')"
    and laws: "env_laws E V" and calls: "loop_calls E M" and inv: "rt_inv V s" "carm_rt s"
    and free: "loop_id_cnt s < MAX_LOOPS" "\<not> cl_active (loopstate s (loop_id_cnt s))"
    and ev: "eval M r base = Some (W q)" "eval M r start = Some (W a)" "eval M r sv = Some (W d)"
    and below: "val_below (st_k S) base" "val_below (st_k S) start" "val_below (st_k S) sv"
    and pos: "check_carm_object (q + a)" "accessible V s (obj_of (q + a))" "unat ((q + a) XOR CARM_PTR) < 2 ^ 60"
    and d: "loop_stride d = 1"
    and blocks: "find (\<lambda>x. b_id x = st_outer S) (f_blocks (ed_fun e')) = Some OB"
      "find (\<lambda>x. b_id x = st_header S) (f_blocks (ed_fun e')) = Some B"
    and phis: "\<forall>x\<in>set (header_phis B). i_id x < st_k S \<longrightarrow> phi_ready M r (st_k S) (st_outer S) x"
  shows "\<exists>n r' s' A p b. steps n (ed_fun e') M (at_block (st_outer S) pr (b_insts OB) r s) =
      Done (at_block (st_header S) (st_outer S) (after_head B) r' s') \<and>
    r' (st_k S + 21) = Some (W p) \<and> r' (st_k S + 16) = Some (W p) \<and> r' (st_k S + 6) = Some (W b) \<and>
    r' (st_k S + 10) = Some (W (loop_id_cnt s)) \<and> walking V mut s' (loop_id_cnt s) (q + a) A p b \<and>
    view V s \<subseteq>\<^sub>m view V s' \<and> view V s' (q + a) = Some (mem s' p)"
proof -
  let ?k = "st_k S" and ?i = "loop_id_cnt s" and ?F = "ed_fun e'"
  have sv: "sv \<noteq> VInst (i_id gep)" and cs': "\<forall>c\<in>fst ` set (ld_checks L). c < ?k" using gep(4) cs by auto
  obtain phs rest where F: "holds_loop ?F ?k (st_header S) (st_outer S) mut sv (i_ty gep) phs rest"
    using iter_holds_loop [OF S gep(1-3) sv cs' run] by blast
  have ph: "\<forall>x\<in>set phs. is_phi (i_op x) \<and> i_id x < ?k" using F by (simp add: holds_loop_def)
  have B: "b_insts B = phs @ head_code ?k (st_outer S) (i_ty gep) @ rest"
    using blocks(2) holds_loop_blocks(1) [OF F] by auto
  have rem: "after_head B = rest" using ph by (simp add: after_head_def B head_code_def)
  have "set phs \<subseteq> set (header_phis B)" using ph by (simp add: header_phis_def B)
  then have ready: "\<forall>x\<in>set phs. phi_ready M r ?k (st_outer S) x" using phis ph by blast
  have OB: "b_insts OB = open_code ?k base start sv mut @ [st_open S]"
    using iter_outer [OF S gep cs br run] blocks(1) by auto
  obtain w s1 A p s2 where o: "carm_loop_init E (q + a) d s = Done (w, s1)" "loop_id_of w = ?i"
      "loop_call E mut ?i s1 = Done (p, s2)" "walking V mut s2 ?i (q + a) A p (p + obj_left_of w)" "view V s \<subseteq>\<^sub>m view V s2"
    using walk_open [OF laws inv free pos(1,2) d] by blast
  obtain r1 where 1: "steps 7 ?F M (at_block (st_outer S) pr (b_insts OB) r s) = Done (at_block (st_outer S) pr [st_open S] r1 s2)"
      "r1 (?k + 10) = Some (W ?i)" "r1 (?k + 14) = Some (W p)" "r1 (?k + 15) = Some (W (p + obj_left_of w))" "\<forall>j. j < ?k \<or> j = ?k + 21 \<longrightarrow> r1 j = r j"
    using open_runs [OF calls ev below o(1) o(3) [folded o(2)], of ?F "st_outer S" pr "[st_open S]"] unfolding OB o(2) by blast
  obtain vs where vs: "phi_values M r1 (st_outer S) phs = Done vs" "map fst vs = map i_id phs"
    using phis_ready [OF ready 1(5)] by blast
  obtain r' where 2: "steps 2 ?F M (at_block (st_outer S) pr [st_open S] r1 s2) =
      Done (at_block (st_header S) (st_outer S) rest r' s2)"
    "r' (?k + 16) = Some (W p)" "r' (?k + 6) = Some (W (p + obj_left_of w))" "r' (?k + 21) = Some (W p)"
    "\<forall>j. j \<notin> i_id ` set phs \<and> j \<notin> {?k + 6, ?k + 16, ?k + 21} \<longrightarrow> r' j = r1 j"
    using enter_header [OF F gep(2) vs head_values(2) [OF 1(3,4)] br(1)] by blast
  have "?k + 10 \<notin> i_id ` set phs" using ph by auto
  then have "r' (?k + 10) = Some (W ?i)" using 2(5) 1(2) by simp
  moreover have "view V s2 (q + a) = Some (mem s2 p)" using walking_byte [OF o(4) pos(3)] .
  ultimately show ?thesis using steps_trans [OF 1(1) 2(1)] 2(2-4) o(4,5) unfolding rem by blast
qed

section \<open>A loop over an array\<close>

text \<open>
  A loop over 64-bit words from an argument on, as it is when the blocks of its pointer have been
  made: block 10 leads to block 18, the header is block 11.
\<close>

definition array_site :: site where
  "array_site = \<lparr>st_k = 20, st_before = [\<lparr>b_id = 10, b_insts = [ins 1 TVoid (Br 18)]\<rparr>], st_header = 11,
     st_phis = [ins 2 Int64Type (Phi [(VArg 1, 18), (VInst 5, 20)])],
     st_first = ins 3 (TPtr Int64Type) (Gep Int64Type (VArg 0) [VInst 2]),
     st_rest = [ins 9 TVoid (Call (VFun CARM_DEREF_DUMMY) [VInst 3]), ins 4 Int64Type (Load Int64Type (VInst 3)),
       ins 5 Int64Type (Bin Add (VInst 2) (num 8)), ins 6 Int1Type (ICmp UGE (VInst 5) (num 100)),
       ins 7 TVoid (CondBr (VInst 6) 24 12)],
     st_between = [\<lparr>b_id = 12, b_insts = [ins 8 TVoid (Ret None)]\<rparr>], st_outer = 18,
     st_open = ins 19 TVoid (Br 11), st_orest = [], st_after = []\<rparr>"

definition array_edit :: edit where
  "array_edit = \<lparr>ed_decls = [], ed_globals = [],
     ed_fun = \<lparr>f_name = ''f'', f_ret = TVoid, f_args = [TPtr Int64Type, Int64Type, Int64Type], f_blocks = []\<rparr>,
     ed_next = 26\<rparr>"

definition array_forest :: forest where
  "array_forest = \<lparr>fo_innermost = (\<lambda>i. Some 0), fo_header = (\<lambda>l. 11), fo_preheader = (\<lambda>l. Some 10),
     fo_latches = (\<lambda>l. [11]), fo_exits = (\<lambda>l. [12]), fo_blocks = (\<lambda>l. [11])\<rparr>"

definition array_done :: loops_done where
  "array_done = \<lparr>ld_preheader = (\<lambda>_. None), ld_latches = (\<lambda>_. None), ld_blocks = (\<lambda>_. None), ld_checks = [(9, Some 4)]\<rparr>"

definition array_machine :: "u64 \<Rightarrow> u64 \<Rightarrow> sim machine" where
  "array_machine a d = \<lparr>mc_args = [W (CARM_PTR + 0x3000), W a, W d], mc_glob = (\<lambda>g. 0),
     mc_call = (\<lambda>f xs s. case xs of
         [W i] \<Rightarrow> bindR ((if f = ''_Z21carm_deref_loop_writem'' then carm_deref_loop_write else carm_deref_loop_read) sim_ops i s) (\<lambda>(a, s). Done (W a, s))
       | [W p, W d] \<Rightarrow> bindR (carm_loop_init sim_ops p d s) (\<lambda>(w, s). Done (W w, s))
       | _ \<Rightarrow> Faulted),
     mc_other = (\<lambda>o1 xs s. Faulted)\<rparr>"

definition array_pass :: "(pointer_to_optimize \<times> loops_done \<times> edit) run" where
  "array_pass = createCARMLoopIter (Suc 0) array_forest 0 (st_outer array_site) (st_k array_site + 4) (st_k array_site + 2)
     (st_k array_site) (VArg 2) (VArg 1) (st_first array_site) False False
     (array_done, site_edit array_site array_edit [] [] [] [] [] (num 0) (st_k array_site + 6))"

definition array_blocks :: "block list" where
  "array_blocks = map (subst_blk (VInst 3) (VInst 41))
     (map (drop_insts [9]) (looped array_site (VArg 0) (VArg 1) (VArg 2) False (TPtr Int64Type)))"

definition array_block :: "ident \<Rightarrow> block" where
  "array_block b = the (find (\<lambda>x. b_id x = b) array_blocks)"

lemma array_calls: "loop_calls sim_ops (array_machine a d)"
  by (simp add: loop_calls_def array_machine_def)

lemma array_good: "good_site array_site" "good_operands array_site array_edit (VArg 0) (VArg 2)" "loop_declared False array_edit"
  by (auto simp: good_site_def array_site_def st_old_def head_blk_def outer_blk_def block_targets_def good_operands_def
      array_edit_def loop_declared_def declares_as_def find_decl_def is_debug_def)

lemma array_iter:
  assumes "ld_checks L = [(9, Some 4)]"
  shows "createCARMLoopIter (Suc 0) array_forest 0 18 24 22 20 (VArg 2) (VArg 1) (st_first array_site) False False
     (L, site_edit array_site array_edit [] [] [] [] [] c 26) =
   Done (pointer_state 20, L\<lparr>ld_checks := []\<rparr>, with_blocks (after_calls False array_edit) array_blocks 42)"
proof -
  obtain B where B: "B = looped array_site (VArg 0) (VArg 1) (VArg 2) False (TPtr Int64Type)" by simp
  let ?e = "with_blocks (after_calls False array_edit) B 42"
  have f: "find_inst ?e 4 = Some (ins 4 Int64Type (Load Int64Type (VInst 3)))"
    "find_inst ?e 3 = Some (ins 3 (TPtr Int64Type) (Gep Int64Type (VArg 0) [VInst 2]))"
    by (simp_all add: B find_inst_blocks looped_def head_blk_def outer_blk_def array_site_def head_code_def)
  have dl: "delete_carm_checks_on_gep (Suc 0) 3 [(9, Some 4)] ?e = Done ([], [9])" by (simp add: f)
  have "type_of (erase_all [9] ?e) (VInst 3) = type_of (erase_all [9] ?e) (VInst 41)"
    by (simp add: B erase_all_blocks find_inst_blocks looped_def head_blk_def outer_blk_def array_site_def head_code_def
        drop_insts_def open_code_def)
  then have r: "replace_uses (VInst 3) (VInst 41) (erase_all [9] ?e) = Done (with_blocks (after_calls False array_edit) array_blocks 42)"
    by (simp add: erase_all_blocks replace_uses_blocks array_blocks_def B del: type_of.simps)
  have c: "fo_header array_forest 0 = st_header array_site" "i_op (st_first array_site) = Gep Int64Type (VArg 0) [VInst 2]"
    "is_ptr (i_ty (st_first array_site))"
    by (simp_all add: array_forest_def array_site_def)
  have sel: "st_k array_site = 20" "i_id (st_first array_site) = 3" "i_ty (st_first array_site) = TPtr Int64Type" "st_outer array_site = 18"
    by (simp_all add: array_site_def)
  have "createCARMLoopIter (Suc 0) array_forest 0 (st_outer array_site) (st_k array_site + 4) (st_k array_site + 2)
      (st_k array_site) (VArg 2) (VArg 1) (st_first array_site) False False
      (L, site_edit array_site array_edit [] [] [] [] [] c (st_k array_site + 6)) =
    Done (pointer_state 20, L\<lparr>ld_checks := []\<rparr>, with_blocks (after_calls False array_edit) array_blocks 42)"
    unfolding iter_emits [OF array_good c] unfolding sel(1-3) assms B [symmetric]
    using r by (simp add: dl Let_def del: delete_carm_checks_on_gep.simps)
  then show ?thesis unfolding sel(1,4) by simp
qed

lemma array_pass: "array_pass = Done (pointer_state 20, array_done\<lparr>ld_checks := []\<rparr>, with_blocks (after_calls False array_edit) array_blocks 42)"
proof -
  have c: "st_k array_site = 20" "st_outer array_site = 18" "ld_checks array_done = [(9, Some 4)]" by (simp_all add: array_site_def array_done_def)
  have n: "(20::ident) + 2 = 22" "(20::ident) + 4 = 24" "(20::ident) + 6 = 26" by simp_all
  show ?thesis unfolding array_pass_def c n by (rule array_iter [OF c(3)])
qed

lemma array_found:
  "find (\<lambda>x. b_id x = 11) array_blocks = Some (array_block 11)"
  "find (\<lambda>x. b_id x = 18) array_blocks = Some (array_block 18)"
  by (simp_all add: array_block_def array_blocks_def looped_def head_blk_def outer_blk_def array_site_def)

lemma array_phis: "\<forall>x\<in>set (header_phis (array_block 11)). i_id x < 20 \<longrightarrow> x = ins 2 Int64Type (Phi [(VArg 1, 18), (VInst 5, 20)])"
  by (simp add: header_phis_def array_block_def array_blocks_def looped_def head_blk_def outer_blk_def array_site_def head_code_def
      drop_insts_def subst_blk_def subst_val_def)


text \<open>The address of the pass's first element, its neighbour, and the machine's arguments.\<close>

abbreviation array_state :: "sim rt" where
  "array_state \<equiv> sim_far (\<lambda>_. 0) (\<lambda>i k. ucast (i + k))"

definition array_pos :: ptr where "array_pos = CARM_PTR + 0x3ff8"

lemma array_positions:
  "check_carm_object array_pos" "unat (array_pos XOR CARM_PTR) = 0x3ff8" "off_of array_pos = 0xff8"
  "accessible sim_view array_state (obj_of array_pos)" "view sim_view array_state (array_pos + 8) = Some 4"
  "check_carm_object (array_pos + 8)"
proof -
  have v: "view sim_view array_state array_pos \<noteq> None" "view sim_view array_state (array_pos + 8) = Some 4"
    using sim_far_view [of "0x3ff8" 16 0] sim_far_view [of "0x3ff8" 16 8] by (simp_all add: array_pos_def)
  show "check_carm_object array_pos" "unat (array_pos XOR CARM_PTR) = 0x3ff8" "off_of array_pos = 0xff8" "check_carm_object (array_pos + 8)"
    by (simp_all add: array_pos_def check_carm_object_def CARM_PTR_def off_of_def OBJ_SIZE_def)
  then show "accessible sim_view array_state (obj_of array_pos)" using view_accessible v(1) by blast
  show "view sim_view array_state (array_pos + 8) = Some 4" by (rule v)
qed

lemma array_eval:
  "eval (array_machine a d) r (VArg 0) = Some (W (CARM_PTR + 0x3000))" "eval (array_machine a d) r (VArg 1) = Some (W a)"
  "eval (array_machine a d) r (VArg 2) = Some (W d)"
  by (simp_all add: array_machine_def)

lemma array_free: "rt_inv sim_view array_state" "carm_rt array_state" "loop_id_cnt array_state = 0"
  "\<not> cl_active (loopstate array_state 0)"
  using sim_far_inv by (simp_all add: sim_far_def sim_start_def no_loop_def)

lemma array_ready:
  assumes "p = 18 \<or> p = 20 \<and> r 5 \<noteq> None"
  shows "\<forall>x\<in>set (header_phis (array_block 11)). i_id x < 20 \<longrightarrow> phi_ready (array_machine a d) r 20 p x"
  using array_phis assms by (auto simp: phi_ready_def array_machine_def)

lemmas array_gep = array_site_def array_forest_def array_done_def

theorem loop_opening_walks_witness:
  "\<exists>g L' e' n r' s' A p b. array_pass = Done (g, L', e') \<and>
    steps n (ed_fun e') (array_machine 0xff8 8) (at_block 18 10 (b_insts (array_block 18)) Map.empty array_state) =
      Done (at_block 11 18 (after_head (array_block 11)) r' s') \<and>
    r' 41 = Some (W p) \<and> walking sim_view False s' 0 array_pos A p b \<and>
    view sim_view array_state \<subseteq>\<^sub>m view sim_view s' \<and> view sim_view s' array_pos = Some (mem s' p)"
proof -
  have pos: "CARM_PTR + 0x3000 + 0xff8 = array_pos" by (simp add: array_pos_def)
  have *: "\<exists>n r' s' A p b. steps n (ed_fun (with_blocks (after_calls False array_edit) array_blocks 42)) (array_machine 0xff8 8)
        (at_block (st_outer array_site) 10 (b_insts (array_block 18)) Map.empty array_state) =
      Done (at_block (st_header array_site) (st_outer array_site) (after_head (array_block 11)) r' s') \<and>
    r' (st_k array_site + 21) = Some (W p) \<and> r' (st_k array_site + 16) = Some (W p) \<and> r' (st_k array_site + 6) = Some (W b) \<and>
    r' (st_k array_site + 10) = Some (W (loop_id_cnt array_state)) \<and>
    walking sim_view False s' (loop_id_cnt array_state) (CARM_PTR + 0x3000 + 0xff8) A p b \<and>
    view sim_view array_state \<subseteq>\<^sub>m view sim_view s' \<and>
    view sim_view s' (CARM_PTR + 0x3000 + 0xff8) = Some (mem s' p)"
    by (rule loop_opening_walks [OF array_good, where gep = "st_first array_site" and FO = array_forest and l = 0
          and L = array_done and f = "Suc 0" and start = "VArg 1" and c = "num 0", OF _ _ _ _ _ _ _ _ array_pass [unfolded array_pass_def]
          sim_env_laws array_calls array_free(1,2) _ _ array_eval])
      (use array_positions array_free array_found array_ready [of 18] in \<open>simp_all add: pos array_gep loop_stride_def OBJ_SIZE_def MAX_LOOPS_def\<close>)
  have sel: "st_k array_site + 21 = 41" "st_outer array_site = 18" "st_header array_site = 11" by (simp_all add: array_site_def)
  show ?thesis using * array_pass unfolding sel pos array_free(3) by blast
qed

lemma array_walking:
  "\<exists>s A p b. walking sim_view False s 0 array_pos A p b \<and> accessible sim_view s (obj_of (array_pos + 8))"
proof -
  obtain s A p b where w: "walking sim_view False s 0 array_pos A p b" "view sim_view array_state \<subseteq>\<^sub>m view sim_view s"
    using walk_open [OF sim_env_laws array_free(1,2) _ _ array_positions(1,4), where d = 8 and mut = False]
    by (auto simp: array_free loop_stride_def OBJ_SIZE_def MAX_LOOPS_def)
  have "view sim_view s (array_pos + 8) = Some 4"
    using w(2) array_positions(5) by (auto simp: map_le_def dom_def)
  then have "accessible sim_view s (obj_of (array_pos + 8))" by (intro view_accessible array_positions(6)) simp
  with w(1) show ?thesis by blast
qed

theorem loop_pointer_walks_witness:
  "\<exists>g L' e' s A p b n r' s' A' p' b'. array_pass = Done (g, L', e') \<and> walking sim_view False s 0 array_pos A p b \<and>
    steps n (ed_fun e') (array_machine 0xff8 8)
      (at_block 24 11 (b_insts (check_blk 20 (VArg 2))) [36 \<mapsto> W p, 26 \<mapsto> W b, 30 \<mapsto> W 0, 5 \<mapsto> W 1] s) =
      Done (at_block 11 20 (after_head (array_block 11)) r' s') \<and>
    r' 41 = Some (W p') \<and> walking sim_view False s' 0 (array_pos + 8) A' p' b' \<and> view sim_view s' (array_pos + 8) = Some (mem s' p')"
proof -
  obtain s A p b where w: "walking sim_view False s 0 array_pos A p b" and acc: "accessible sim_view s (obj_of (array_pos + 8))"
    using array_walking by blast
  let ?r = "[36 \<mapsto> W p, 26 \<mapsto> W b, 30 \<mapsto> W 0, 5 \<mapsto> W 1]"
  have *: "\<exists>n r' s' A' p' b'. steps n (ed_fun (with_blocks (after_calls False array_edit) array_blocks 42)) (array_machine 0xff8 8)
        (at_block (st_k array_site + 4) 11 (b_insts (check_blk (st_k array_site) (VArg 2))) ?r s) =
      Done (at_block (st_header array_site) (st_k array_site) (after_head (array_block 11)) r' s') \<and>
    r' (st_k array_site + 21) = Some (W p') \<and> r' (st_k array_site + 16) = Some (W p') \<and> r' (st_k array_site + 6) = Some (W b') \<and>
    r' (st_k array_site + 10) = Some (W 0) \<and> walking sim_view False s' 0 (array_pos + 8) A' p' b' \<and>
    view sim_view s \<subseteq>\<^sub>m view sim_view s' \<and> view sim_view s' (array_pos + 8) = Some (mem s' p')"
    by (rule loop_pointer_walks [OF array_good, where gep = "st_first array_site" and FO = array_forest and l = 0
          and L = array_done and f = "Suc 0" and start = "VArg 1" and c = "num 0" and d = 8, OF _ _ _ _ _ _ array_pass [unfolded array_pass_def]
          sim_env_laws array_calls w])
      (use array_positions acc array_found array_ready [of 20 ?r] in \<open>simp_all add: array_machine_def array_gep\<close>)
  have sel: "st_k array_site + 21 = 41" "st_k array_site + 4 = 24" "st_k array_site = 20" "st_header array_site = 11"
    by (simp_all add: array_site_def)
  show ?thesis using * array_pass w unfolding sel(1,2,4) unfolding sel(3) by blast
qed

text \<open>The same loop with a step of 24 bytes.\<close>

theorem stride_residue_lost_witness:
  "\<exists>g L' e' s A p b n r' s' A'. array_pass = Done (g, L', e') \<and> walking sim_view False s 0 array_pos A p b \<and>
    steps n (ed_fun e') (array_machine 0xff8 24)
      (at_block 24 11 (b_insts (check_blk 20 (VArg 2))) [36 \<mapsto> W p, 26 \<mapsto> W b, 30 \<mapsto> W 0, 5 \<mapsto> W 1] s) =
      Done (at_block 11 20 (after_head (array_block 11)) r' s') \<and>
    r' 41 = Some (W A') \<and> resident sim_view s' (obj_of (array_pos + 24)) A' \<and> off_of (array_pos + 24) \<noteq> 0 \<and>
    view sim_view s' (array_pos + 24) = Some (mem s' (A' + off_of (array_pos + 24)))"
proof -
  obtain s A p b where w: "walking sim_view False s 0 array_pos A p b" and acc: "accessible sim_view s (obj_of (array_pos + 8))"
    using array_walking by blast
  have "obj_of (array_pos + 8) = obj_of array_pos + 1"
    using next_object(1) [OF array_positions(1), of 8] array_positions(2,3) by simp
  with acc have acc': "accessible sim_view s (obj_of array_pos + 1)" by simp
  let ?r = "[36 \<mapsto> W p, 26 \<mapsto> W b, 30 \<mapsto> W 0, 5 \<mapsto> W 1]"
  have *: "\<exists>n r' s' A'. steps n (ed_fun (with_blocks (after_calls False array_edit) array_blocks 42)) (array_machine 0xff8 24)
        (at_block (st_k array_site + 4) 11 (b_insts (check_blk (st_k array_site) (VArg 2))) ?r s) =
      Done (at_block (st_header array_site) (st_k array_site) (after_head (array_block 11)) r' s') \<and>
    r' (st_k array_site + 21) = Some (W A') \<and> r' (st_k array_site + 16) = Some (W A') \<and>
    resident sim_view s' (obj_of (array_pos + 24)) A' \<and> off_of (array_pos + 24) \<noteq> 0 \<and>
    view sim_view s' (array_pos + 24) = Some (mem s' (A' + off_of (array_pos + 24)))"
    by (rule stride_residue_lost [OF array_good, where gep = "st_first array_site" and FO = array_forest and l = 0
          and L = array_done and f = "Suc 0" and start = "VArg 1" and c = "num 0" and d = 24, OF _ _ _ _ _ _ array_pass [unfolded array_pass_def]
          sim_env_laws array_calls w])
      (use array_positions acc' array_found array_ready [of 20 ?r] in \<open>simp_all add: array_machine_def array_gep\<close>)
  have sel: "st_k array_site + 21 = 41" "st_k array_site + 4 = 24" "st_k array_site = 20" "st_header array_site = 11"
    by (simp_all add: array_site_def)
  show ?thesis using * array_pass w unfolding sel(1,2,4) unfolding sel(3) by blast
qed

end
