(* ===== verification/Loop_Cfg.thy ===== *)
theory Loop_Cfg
  imports Loop_Exec "HOL-Library.Multiset"
begin

text \<open>
  The control flow around a loop that \<open>carm_loop_transform\<close> changes: phis and the edges into their
  blocks, the redirection of branches and phis, and the form of a loop with a block before it and
  a latch, which both the new block before the loop and the three blocks of a pointer keep.
\<close>

section \<open>Phis and edges\<close>

definition block_phis :: "block \<Rightarrow> ident list list" where
  "block_phis b = concat (map (\<lambda>x. case i_op x of Phi vs \<Rightarrow> [map snd vs] | _ \<Rightarrow> []) (b_insts b))"

definition phis_match :: "block list \<Rightarrow> bool" where
  "phis_match bs \<longleftrightarrow> (\<forall>b\<in>set bs. \<forall>ps\<in>set (block_phis b). mset ps = mset (preds_in bs (b_id b)))"

definition edges :: "block list \<Rightarrow> (ident \<times> ident list) list" where
  "edges bs = map (\<lambda>b. (b_id b, block_targets b)) bs"

lemma edges_simps [simp]:
  "edges [] = []" "edges (b # bs) = (b_id b, block_targets b) # edges bs" "edges (bs @ cs) = edges bs @ edges cs"
  by (simp_all add: edges_def)

lemma preds_edges: "preds_in bs j = concat (map (\<lambda>(i, ts). map (\<lambda>_. i) (filter (\<lambda>t. t = j) ts)) (edges bs))"
  by (simp add: preds_in_def edges_def comp_def)

lemma preds_cong: "edges bs = edges cs \<Longrightarrow> preds_in bs j = preds_in cs j"
  by (simp add: preds_edges)

lemma in_preds: "i \<in> set (preds_in bs j) \<longleftrightarrow> (\<exists>b\<in>set bs. b_id b = i \<and> j \<in> set (block_targets b))"
  by (auto simp: preds_in_def)

lemma edges_map: "(\<And>b. b \<in> set bs \<Longrightarrow> b_id (g b) = b_id b \<and> block_targets (g b) = block_targets b) \<Longrightarrow> edges (map g bs) = edges bs"
  by (simp add: edges_def)

text \<open>Edits that keep a block's edges and lose at most phis keep the match.\<close>

lemma match_map:
  assumes "phis_match bs"
    and "\<And>b. b \<in> set bs \<Longrightarrow> b_id (g b) = b_id b \<and> block_targets (g b) = block_targets b \<and>
      set (block_phis (g b)) \<subseteq> set (block_phis b)"
  shows "phis_match (map g bs)"
proof -
  have "edges (map g bs) = edges bs" using assms(2) by (intro edges_map) auto
  then have p: "preds_in (map g bs) j = preds_in bs j" for j by (rule preds_cong)
  show ?thesis unfolding phis_match_def
  proof (intro ballI)
    fix b ps assume b: "b \<in> set (map g bs)" "ps \<in> set (block_phis b)"
    then obtain a where a: "a \<in> set bs" "b = g a" by auto
    then have "b_id b = b_id a" "ps \<in> set (block_phis a)" using assms(2) [OF a(1)] b(2) by auto
    with assms(1) a(1) show "mset ps = mset (preds_in (map g bs) (b_id b))"
      unfolding phis_match_def p by metis
  qed
qed

lemma targets_map_op [simp]: "targets (map_op w o1) = targets o1"
  by (cases o1) simp_all

lemma subst_cfg [simp]:
  "block_targets (subst_blk a w b) = block_targets b" "block_phis (subst_blk a w b) = block_phis b"
proof -
  show "block_targets (subst_blk a w b) = block_targets b"
    by (simp add: block_targets_def subst_blk_def last_map)
  have "(case map_op (subst_val a w) o1 of Phi vs \<Rightarrow> [map snd vs] | _ \<Rightarrow> []) = (case o1 of Phi vs \<Rightarrow> [map snd vs] | _ \<Rightarrow> [])" for o1
    by (cases o1) (simp_all add: comp_def split_def)
  then show "block_phis (subst_blk a w b) = block_phis b"
    by (simp add: block_phis_def subst_blk_def comp_def)
qed

lemma drop_cfg:
  assumes "b_insts b \<noteq> [] \<Longrightarrow> i_id (last (b_insts b)) \<notin> set del"
  shows "block_targets (drop_insts del b) = block_targets b" "set (block_phis (drop_insts del b)) \<subseteq> set (block_phis b)"
proof -
  have f: "filter Q xs \<noteq> [] \<and> last (filter Q xs) = last xs" if "xs \<noteq> []" "Q (last xs)" for Q and xs :: "inst list"
    using that by (induction xs rule: rev_induct) auto
  show "block_targets (drop_insts del b) = block_targets b"
    using f [of "b_insts b" "\<lambda>x. i_id x \<notin> set del"] assms
    by (cases "b_insts b = []") (simp_all add: block_targets_def drop_insts_def)
  show "set (block_phis (drop_insts del b)) \<subseteq> set (block_phis b)" by (auto simp: block_phis_def drop_insts_def)
qed

lemma block_phis_simps:
  "block_phis \<lparr>b_id = h, b_insts = []\<rparr> = []"
  "block_phis \<lparr>b_id = h, b_insts = x # xs\<rparr> = (case i_op x of Phi vs \<Rightarrow> [map snd vs] | _ \<Rightarrow> []) @ block_phis \<lparr>b_id = h, b_insts = xs\<rparr>"
  "block_phis \<lparr>b_id = h, b_insts = xs @ ys\<rparr> = block_phis \<lparr>b_id = h, b_insts = xs\<rparr> @ block_phis \<lparr>b_id = h, b_insts = ys\<rparr>"
  by (simp_all add: block_phis_def)

section \<open>Redirecting branches and phis\<close>

definition rephi :: "ident list \<Rightarrow> (ident \<Rightarrow> ident) \<Rightarrow> block \<Rightarrow> block" where
  "rephi ls g b = (if b_id b \<in> set ls
     then b\<lparr>b_insts := map (\<lambda>x. x\<lparr>i_op := map_incoming g (i_op x)\<rparr>) (b_insts b)\<rparr> else b)"

definition rebranch :: "ident \<Rightarrow> (ident \<Rightarrow> ident) \<Rightarrow> block \<Rightarrow> block" where
  "rebranch p g b = (if b_id b = p \<and> b_insts b \<noteq> []
     then b\<lparr>b_insts := butlast (b_insts b) @ [(last (b_insts b))\<lparr>i_op := map_targets g (i_op (last (b_insts b)))\<rparr>]\<rparr> else b)"

lemma redirect_phis_blocks: "redirect_phis ls g (with_blocks e bs k) = with_blocks e (map (rephi ls g) bs) k"
  by (cases e) (simp add: redirect_phis_def on_fun_def with_blocks_def rephi_def [abs_def])

lemma create_block_blocks:
  "create_block o1 (with_blocks e bs k) = (k, with_blocks e (bs @ [\<lparr>b_id = k, b_insts = [ins (k + 1) TVoid o1]\<rparr>]) (k + 2))"
  by (cases e) (simp add: create_block_def with_blocks_def)

lemma map_incoming_kind: "is_phi (map_incoming g o1) = is_phi o1" "targets (map_incoming g o1) = targets o1"
  "is_term (map_incoming g o1) = is_term o1"
  by (cases o1; simp)+

lemma map_targets_kind: "is_phi (map_targets g o1) = is_phi o1" "is_term (map_targets g o1) = is_term o1"
  by (cases o1; simp)+

lemma rephi_simps [simp]:
  "b_id (rephi ls g b) = b_id b" "map i_id (b_insts (rephi ls g b)) = map i_id (b_insts b)"
  "block_targets (rephi ls g b) = block_targets b" "b_insts (rephi ls g b) = [] \<longleftrightarrow> b_insts b = []"
  by (auto simp: rephi_def block_targets_def last_map map_incoming_kind)

lemma rephi_phis: "block_phis (rephi ls g b) = (if b_id b \<in> set ls then map (map g) (block_phis b) else block_phis b)"
proof -
  have "(case map_incoming g o1 of Phi vs \<Rightarrow> [map snd vs] | _ \<Rightarrow> []) = map (map g) (case o1 of Phi vs \<Rightarrow> [map snd vs] | _ \<Rightarrow> [])" for o1
    by (cases o1) (simp_all add: comp_def split_def)
  then show ?thesis by (simp add: rephi_def block_phis_def map_concat comp_def)
qed

lemma butlast_ids: "xs \<noteq> [] \<Longrightarrow> map f (butlast xs) @ [f (last xs)] = map f xs"
  by (metis append_butlast_last_id list.simps(8,9) map_append)

lemma rebranch_simps [simp]:
  "b_id (rebranch p g b) = b_id b" "map i_id (b_insts (rebranch p g b)) = map i_id (b_insts b)"
  "b_insts (rebranch p g b) = [] \<longleftrightarrow> b_insts b = []"
  by (auto simp: rebranch_def butlast_ids)

lemma rebranch_phis [simp]: "block_phis (rebranch p g b) = block_phis b"
proof (cases "b_insts b" rule: rev_cases)
  case (snoc xs t)
  have "(case map_targets g o1 of Phi vs \<Rightarrow> [map snd vs] | _ \<Rightarrow> []) = (case o1 of Phi vs \<Rightarrow> [map snd vs] | _ \<Rightarrow> [])" for o1
    by (cases o1) simp_all
  with snoc show ?thesis by (simp add: rebranch_def block_phis_def)
qed (simp add: rebranch_def)

fun is_branch :: "op \<Rightarrow> bool" where "is_branch (Br b) = True" | "is_branch (CondBr c t f) = True" | "is_branch _ = False"

lemma rebranch_targets:
  "block_targets (rebranch p g b) =
     (if b_id b = p \<and> b_insts b \<noteq> [] \<and> is_branch (i_op (last (b_insts b))) then map g (block_targets b) else block_targets b)"
proof -
  have "targets (map_targets g o1) = (if is_branch o1 then map g (targets o1) else targets o1)" for o1
    by (cases o1) simp_all
  then show ?thesis by (simp add: rebranch_def block_targets_def)
qed

lemma redirect_branch_blocks:
  assumes d: "distinct (map i_id (concat (map b_insts bs)))" "distinct (map b_id bs)"
    and B: "B \<in> set bs" "b_insts B \<noteq> []" "is_term (i_op (last (b_insts B)))"
  shows "redirect_branch (b_id B) g (with_blocks e bs k) = Done (with_blocks e (map (rebranch (b_id B) g) bs) k)"
proof -
  obtain as cs where bs: "bs = as @ B # cs" using B(1) by (auto simp: in_set_conv_decomp)
  obtain h xs t where t: "B = \<lparr>b_id = h, b_insts = xs @ [t]\<rparr>"
    using B(2) by (cases B) (metis block.select_convs(2) rev_exhaust)
  have l: "lacks_all (i_id t) as" "lacks_all (i_id t) cs" "lacks (i_id t) xs"
    using distinct_mid [of as h xs t "[]" cs] d(1) by (simp_all add: bs t)
  have n: "h \<notin> b_id ` set as" "h \<notin> b_id ` set cs" using d(2) by (auto simp: bs t)
  have keep: "rebranch h g b = b" if "b \<in> set as \<union> set cs" for b using n that by (auto simp: rebranch_def)
  have "terminator h (with_blocks e (as @ \<lparr>b_id = h, b_insts = xs @ [t]\<rparr> # cs) k) = Done (i_id t)"
    by (rule terminator_at [OF n(1)]) (use B(3) in \<open>simp add: t\<close>)
  moreover have "map (on_inst (i_id t) (map_targets g)) bs = map (rebranch h g) bs"
    using l keep by (simp add: bs t on_inst_simp map_idI) (simp add: rebranch_def)
  ultimately show ?thesis by (simp only: redirect_branch_def set_op_blocks bs t block.simps bindR.simps)
qed

lemma preds_rephi: "preds_in (map (rephi ls f) bs) j = preds_in bs j"
  by (rule preds_cong [OF edges_map]) simp

lemma preds_rebranch_same:
  assumes "\<And>b t. b \<in> set bs \<Longrightarrow> b_id b = q \<Longrightarrow> t \<in> set (block_targets b) \<Longrightarrow> g t = j \<longleftrightarrow> t = j"
  shows "preds_in (map (rebranch q g) bs) j = preds_in bs j"
proof -
  have "filter (\<lambda>t. t = j) (block_targets (rebranch q g b)) = filter (\<lambda>t. t = j) (block_targets b) \<or>
      filter (\<lambda>t. t = j) (block_targets (rebranch q g b)) = map g (filter (\<lambda>t. t = j) (block_targets b))" if "b \<in> set bs" for b
    using assms [OF that] by (auto simp: rebranch_targets filter_map comp_def cong: filter_cong)
  then have "map (\<lambda>_. i) (filter (\<lambda>t. t = j) (block_targets (rebranch q g b))) = map (\<lambda>_. i) (filter (\<lambda>t. t = j) (block_targets b))"
    if "b \<in> set bs" for b i using that by (metis length_map map_replicate_const)
  note keep = this
  have "map (\<lambda>b. map (\<lambda>_. b_id b) (filter (\<lambda>t. t = j) (block_targets (rebranch q g b)))) bs =
      map (\<lambda>b. map (\<lambda>_. b_id b) (filter (\<lambda>t. t = j) (block_targets b))) bs"
    by (rule map_cong [OF refl]) (rule keep)
  then show ?thesis by (simp only: preds_in_def map_map comp_def rebranch_simps)
qed

lemma preds_rebranch_none:
  assumes "\<And>b. b \<in> set bs \<Longrightarrow> b_id b = q \<Longrightarrow> b_insts b \<noteq> [] \<and> is_branch (i_op (last (b_insts b))) \<and> (\<forall>t\<in>set (block_targets b). g t \<noteq> j)"
  shows "preds_in (map (rebranch q g) bs) j = filter (\<lambda>i. i \<noteq> q) (preds_in bs j)"
  using assms
proof (induction bs)
  case (Cons b bs)
  then have "filter (\<lambda>t. t = j) (block_targets (rebranch q g b)) = (if b_id b = q then [] else filter (\<lambda>t. t = j) (block_targets b))"
    by (auto simp: rebranch_targets filter_empty_conv)
  with Cons show ?case by (auto simp: preds_in_simps filter_map comp_def)
qed (simp add: preds_in_simps)

lemma reroute_match:
  assumes m: "phis_match bs" and news: "\<forall>b\<in>set news. block_phis b = []"
    and other: "\<And>b. b \<in> set bs \<Longrightarrow> b_id b \<noteq> h \<Longrightarrow> preds_in bs' (b_id b) = preds_in bs (b_id b)"
    and hd: "mset (preds_in bs' h) = image_mset f (mset (preds_in bs h))"
    and f: "f = (\<lambda>i. if i = q then p else i)" and bs': "bs' = map (rephi ls f) (map (rebranch q g) bs @ news)"
    and ls: "h \<in> set ls" "\<And>b. b \<in> set bs \<Longrightarrow> b_id b \<in> set ls \<Longrightarrow> b_id b \<noteq> h \<Longrightarrow> q \<notin> set (preds_in bs (b_id b))"
  shows "phis_match bs'"
  unfolding phis_match_def
proof (intro ballI)
  fix b ps assume b: "b \<in> set bs'" and ps: "ps \<in> set (block_phis b)"
  consider a where "a \<in> set bs" "b = rephi ls f (rebranch q g a)" | a where "a \<in> set news" "b = rephi ls f a"
    using b by (auto simp: bs')
  then show "mset ps = mset (preds_in bs' (b_id b))"
  proof cases
    case 1
    then obtain vs where vs: "vs \<in> set (block_phis a)" "ps = (if b_id a \<in> set ls then map f vs else vs)"
      using ps by (auto simp: rephi_phis split: if_splits)
    with m 1 have "mset vs = mset (preds_in bs (b_id a))" by (simp add: phis_match_def)
    moreover have "map f vs = vs" if "b_id a \<in> set ls" "b_id a \<noteq> h"
      using ls(2) [OF 1(1) that] \<open>mset vs = _\<close> by (intro map_idI) (auto simp: f dest: mset_eq_setD)
    ultimately show ?thesis using 1 vs(2) other [OF 1(1)] hd ls(1) by (cases "b_id a = h") auto
  qed (use ps news in \<open>simp add: rephi_phis split: if_splits\<close>)
qed

text \<open>One of the two edges into the header goes to a new block instead.\<close>

lemma reroute:
  assumes m: "phis_match bs" and pr: "mset (preds_in bs h) = {#q, r#}" "q \<noteq> r"
    and q: "\<And>b. b \<in> set bs \<Longrightarrow> b_id b = q \<Longrightarrow> b_insts b \<noteq> [] \<and> is_branch (i_op (last (b_insts b))) \<and>
      set (block_targets b) \<inter> set ls \<subseteq> {h} \<and> (\<forall>t\<in>set (block_targets b). g t = (if t = h then x else t))"
    and ls: "h \<in> set ls" and new: "x \<notin> b_id ` set bs" "x \<noteq> h"
    and news: "\<forall>b\<in>set news. block_phis b = []" "preds_in news h = [p]" "\<forall>b\<in>set bs. b_id b \<noteq> h \<longrightarrow> preds_in news (b_id b) = []"
    and bs': "bs' = map (rephi ls (\<lambda>i. if i = q then p else i)) (map (rebranch q g) bs @ news)"
  shows "phis_match bs'" "mset (preds_in bs' h) = {#r, p#}"
    "\<forall>b\<in>set bs. b_id b \<noteq> h \<longrightarrow> preds_in bs' (b_id b) = preds_in bs (b_id b)"
proof -
  have p': "preds_in bs' j = preds_in (map (rebranch q g) bs) j @ preds_in news j" for j
    by (simp add: bs' preds_rephi preds_in_simps flip: map_append)
  show o: "\<forall>b\<in>set bs. b_id b \<noteq> h \<longrightarrow> preds_in bs' (b_id b) = preds_in bs (b_id b)"
  proof (intro ballI impI)
    fix b assume b: "b \<in> set bs" "b_id b \<noteq> h"
    then have "preds_in (map (rebranch q g) bs) (b_id b) = preds_in bs (b_id b)"
      using q new(1) by (intro preds_rebranch_same) auto
    with b news(3) show "preds_in bs' (b_id b) = preds_in bs (b_id b)" by (simp add: p')
  qed
  from q new(2) have "preds_in (map (rebranch q g) bs) h = filter (\<lambda>i. i \<noteq> q) (preds_in bs h)"
    by (intro preds_rebranch_none) auto
  then have "mset (preds_in (map (rebranch q g) bs) h) = {#r#}" using pr by simp
  then show h: "mset (preds_in bs' h) = {#r, p#}" by (simp add: p' news(2))
  show "phis_match bs'"
  proof (rule reroute_match [OF m news(1) _ _ refl bs' ls])
    show "preds_in bs' (b_id b) = preds_in bs (b_id b)" if "b \<in> set bs" "b_id b \<noteq> h" for b using o that by blast
    show "mset (preds_in bs' h) = image_mset (\<lambda>i. if i = q then p else i) (mset (preds_in bs h))" using h pr by simp
    show "q \<notin> set (preds_in bs (b_id b))" if "b \<in> set bs" "b_id b \<in> set ls" "b_id b \<noteq> h" for b
      using q that by (fastforce simp: in_preds)
  qed
qed

section \<open>The form of the loop\<close>

text \<open>
  Identifiers are below \<open>n\<close> and different; branches stay in the function; the header \<open>h\<close> is entered by
  one edge from the block \<open>p\<close> before the loop, which leads nowhere else, and by one from the latch
  \<open>q\<close>, which leads to no other block of the loop.
\<close>

definition loop_form :: "ident \<Rightarrow> ident list \<Rightarrow> ident \<Rightarrow> ident \<Rightarrow> block list \<Rightarrow> ident \<Rightarrow> bool" where
  "loop_form h ls p q bs n \<longleftrightarrow>
     below n bs \<and> distinct (map i_id (concat (map b_insts bs))) \<and> distinct (map b_id bs) \<and>
     (\<forall>b\<in>set bs. set (block_targets b) \<subseteq> b_id ` set bs) \<and> h \<in> set ls \<and> set ls \<subseteq> b_id ` set bs \<and>
     mset (preds_in bs h) = {#p, q#} \<and> p \<noteq> q \<and> p \<noteq> h \<and>
     (\<forall>b\<in>set bs. (b_id b = p \<or> b_id b = q \<longrightarrow> is_branch (i_op (last (b_insts b)))) \<and>
        (b_id b = p \<longrightarrow> block_targets b = [h]) \<and> (b_id b = q \<longrightarrow> set (block_targets b) \<inter> set ls \<subseteq> {h}) \<and>
        (b_id b = h \<longrightarrow> (\<exists>x\<in>set (b_insts b). \<not> is_phi (i_op x))))"

text \<open>The block before the loop comes after the header and starts with code.\<close>

definition opens_after :: "ident \<Rightarrow> ident \<Rightarrow> block list \<Rightarrow> bool" where
  "opens_after h p bs \<longleftrightarrow> (\<exists>as H ms B cs. bs = as @ H # ms @ B # cs \<and> b_id H = h \<and> b_id B = p \<and>
     \<not> is_phi (i_op (hd (b_insts B))) \<and> \<not> is_debug (i_op (hd (b_insts B))))"

lemma is_branch_term: "is_branch o1 \<Longrightarrow> is_term o1" by (cases o1) simp_all

lemma loop_formD:
  assumes "loop_form h ls p q bs n"
  shows "below n bs" "distinct (map i_id (concat (map b_insts bs)))" "distinct (map b_id bs)"
    "\<And>b. b \<in> set bs \<Longrightarrow> set (block_targets b) \<subseteq> b_id ` set bs" "h \<in> set ls" "set ls \<subseteq> b_id ` set bs"
    "mset (preds_in bs h) = {#p, q#}" "p \<noteq> q" "p \<noteq> h"
    "\<And>b. b \<in> set bs \<Longrightarrow> b_id b = p \<or> b_id b = q \<Longrightarrow> is_branch (i_op (last (b_insts b)))"
    "\<And>b. b \<in> set bs \<Longrightarrow> b_id b = p \<Longrightarrow> block_targets b = [h]"
    "\<And>b. b \<in> set bs \<Longrightarrow> b_id b = q \<Longrightarrow> set (block_targets b) \<inter> set ls \<subseteq> {h}"
    "\<And>b. b \<in> set bs \<Longrightarrow> b_id b = h \<Longrightarrow> \<exists>x\<in>set (b_insts b). \<not> is_phi (i_op x)"
  using assms unfolding loop_form_def by (simp_all (no_asm_simp))

lemma loop_formI:
  assumes "below n bs" "distinct (map i_id (concat (map b_insts bs)))" "distinct (map b_id bs)"
    "\<forall>b\<in>set bs. set (block_targets b) \<subseteq> b_id ` set bs" "set ls \<subseteq> b_id ` set bs"
    "\<And>b. b \<in> set bs \<Longrightarrow> (b_id b = p \<or> b_id b = q \<longrightarrow> is_branch (i_op (last (b_insts b)))) \<and>
      (b_id b = p \<longrightarrow> block_targets b = [h]) \<and> (b_id b = q \<longrightarrow> set (block_targets b) \<inter> set ls \<subseteq> {h}) \<and>
      (b_id b = h \<longrightarrow> (\<exists>x\<in>set (b_insts b). \<not> is_phi (i_op x)))"
    and "mset (preds_in bs h) = {#p, q#}" "h \<in> set ls" "p \<noteq> q" "p \<noteq> h"
  shows "loop_form h ls p q bs n"
  unfolding loop_form_def using assms by blast

lemma loop_form_edge:
  assumes F: "loop_form h ls p q bs n" and b: "b \<in> set bs" "b_id b = p \<or> b_id b = q"
  shows "b_insts b \<noteq> []" "h \<in> set (block_targets b)"
proof -
  have "b_id b \<in> set (preds_in bs h)"
    using loop_formD(7) [OF F] b(2) by (metis insert_iff mset_eq_setD set_mset_add_mset_insert set_mset_mset)
  then obtain c where c: "c \<in> set bs" "b_id c = b_id b" "h \<in> set (block_targets c)" by (auto simp: in_preds)
  then have "c = b" using loop_formD(3) [OF F] b(1) by (auto simp: distinct_map dest: inj_onD)
  with c(3) show "h \<in> set (block_targets b)" "b_insts b \<noteq> []" by (auto simp: block_targets_def)
qed

lemma loop_form_ends:
  assumes F: "loop_form h ls p q bs n"
  obtains P Q where "P \<in> set bs" "b_id P = p" "Q \<in> set bs" "b_id Q = q"
proof -
  have "{p, q} \<subseteq> set (preds_in bs h)"
    using loop_formD(7) [OF F] by (metis mset_eq_setD order_refl set_mset_add_mset_insert set_mset_empty set_mset_mset)
  then show thesis using that by (auto simp: in_preds)
qed

lemma loop_form_below:
  assumes "loop_form h ls p q bs n"
  shows "h < n" "i \<in> set ls \<Longrightarrow> i < n" "p < n" "q < n" "b \<in> set bs \<Longrightarrow> b_id b < n"
proof -
  show b: "b \<in> set bs \<Longrightarrow> b_id b < n" for b using loop_formD(1) [OF assms] by (simp add: below_def)
  then show "i \<in> set ls \<Longrightarrow> i < n" for i using loop_formD(6) [OF assms] by blast
  then show "h < n" using loop_formD(5) [OF assms] by blast
  show "p < n" "q < n" using loop_form_ends [OF assms] b by metis+
qed

text \<open>What the edits of branches and phis keep of a block.\<close>

lemma rephi_kinds: "map (\<lambda>x. is_phi (i_op x)) (b_insts (rephi ls f b)) = map (\<lambda>x. is_phi (i_op x)) (b_insts b)"
  by (simp add: rephi_def map_incoming_kind)

lemma rebranch_kinds: "map (\<lambda>x. is_phi (i_op x)) (b_insts (rebranch q g b)) = map (\<lambda>x. is_phi (i_op x)) (b_insts b)"
  by (simp add: rebranch_def map_targets_kind butlast_ids [where f = "\<lambda>x. is_phi (i_op x)"])

lemma routed_kinds: "(\<exists>x\<in>set (b_insts (rephi ls f (rebranch q g b))). \<not> is_phi (i_op x)) \<longleftrightarrow> (\<exists>x\<in>set (b_insts b). \<not> is_phi (i_op x))"
proof -
  have "(\<exists>x\<in>set xs. \<not> is_phi (i_op x)) \<longleftrightarrow> False \<in> set (map (\<lambda>x. is_phi (i_op x)) xs)" for xs :: "inst list" by auto
  then show ?thesis by (simp only: rephi_kinds rebranch_kinds)
qed

lemma map_branch: "is_branch (map_targets g o1) = is_branch o1" "is_branch (map_incoming f o1) = is_branch o1"
  by (cases o1; simp)+

lemma routed_branch: "b_insts b \<noteq> [] \<Longrightarrow> is_branch (i_op (last (b_insts (rephi ls f (rebranch q g b))))) = is_branch (i_op (last (b_insts b)))"
  by (simp add: rephi_def rebranch_def last_map map_branch)

lemma routed_ids: "map i_id (b_insts (rephi ls f (rebranch q g b))) = map i_id (b_insts b)" "b_id (rephi ls f (rebranch q g b)) = b_id b"
  by simp_all

lemma below_map: "(\<And>b. b \<in> set bs \<Longrightarrow> b_id (G b) = b_id b \<and> map i_id (b_insts (G b)) = map i_id (b_insts b)) \<Longrightarrow>
  below n (map G bs) = below n bs"
proof -
  assume G: "\<And>b. b \<in> set bs \<Longrightarrow> b_id (G b) = b_id b \<and> map i_id (b_insts (G b)) = map i_id (b_insts b)"
  have i: "(\<forall>x\<in>set xs. i_id x < n) \<longleftrightarrow> (\<forall>i\<in>set (map i_id xs). i < n)" for xs by simp
  show ?thesis using G by (induction bs) (simp_all add: i del: set_map)
qed

lemma below_mono: "below n bs \<Longrightarrow> n \<le> m \<Longrightarrow> below m bs"
  by (fastforce simp: below_def)

lemma ids_map: "(\<And>b. b \<in> set bs \<Longrightarrow> map i_id (b_insts (G b)) = map i_id (b_insts b)) \<Longrightarrow>
  map i_id (concat (map b_insts (map G bs))) = map i_id (concat (map b_insts bs))"
  by (induction bs) auto

text \<open>The block before the loop is new: the old one leads to it.\<close>

lemma routed:
  assumes D: "below n bs" "distinct (map i_id (concat (map b_insts bs)))" "distinct (map b_id bs)"
    and cl: "\<And>b. b \<in> set bs \<Longrightarrow> set (block_targets (rebranch q g b)) \<subseteq> b_id ` set (bs @ news)"
    and N: "\<And>b. b \<in> set news \<Longrightarrow> n \<le> b_id b \<and> (\<forall>x\<in>set (b_insts b). n \<le> i_id x)" "below m news" "n \<le> m"
      "distinct (map i_id (concat (map b_insts news)))" "distinct (map b_id news)"
      "\<And>b. b \<in> set news \<Longrightarrow> set (block_targets b) \<subseteq> b_id ` set (bs @ news)"
    and bs': "bs' = map (\<lambda>b. rephi ls f (rebranch q g b)) bs @ news"
  shows "below m bs'" "distinct (map i_id (concat (map b_insts bs')))" "distinct (map b_id bs')"
    "\<forall>b\<in>set bs'. set (block_targets b) \<subseteq> b_id ` set bs'"
proof -
  let ?G = "\<lambda>b. rephi ls f (rebranch q g b)"
  have i: "map b_id bs' = map b_id bs @ map b_id news"
    "map i_id (concat (map b_insts bs')) = map i_id (concat (map b_insts bs)) @ map i_id (concat (map b_insts news))"
    using ids_map [of bs ?G] by (simp_all add: bs' comp_def)
  have "below n (map ?G bs)" using D(1) by (simp add: below_map)
  then show "below m bs'" using below_mono N(2,3) by (simp add: bs')
  show "distinct (map i_id (concat (map b_insts bs')))" "distinct (map b_id bs')"
    unfolding i using D N(1,4,5) by (fastforce simp: below_def)+
  have s: "b_id ` set bs' = b_id ` set (bs @ news)" using arg_cong [OF i(1), of set] by (simp add: image_Un)
  show "\<forall>b\<in>set bs'. set (block_targets b) \<subseteq> b_id ` set bs'" unfolding s unfolding bs' using cl N(6) by (simp add: ball_Un)
qed

lemma outer_form:
  assumes F: "loop_form h ls p q bs n" and m: "phis_match bs"
    and bs': "bs' = map (rephi (n # ls) (\<lambda>i. if i = p then n else i)) (map (rebranch p (\<lambda>_. n)) bs @ [\<lparr>b_id = n, b_insts = [ins (n + 1) TVoid (Br h)]\<rparr>])"
  shows "loop_form h (n # ls) n q bs' (n + 2)" "phis_match bs'" "opens_after h n bs'"
proof -
  note D = loop_formD [OF F] and E = loop_form_edge [OF F]
  let ?G = "\<lambda>b. rephi (n # ls) (\<lambda>i. if i = p then n else i) (rebranch p (\<lambda>_. n) b)"
  let ?N = "\<lparr>b_id = n, b_insts = [ins (n + 1) TVoid (Br h)]\<rparr>"
  have n: "b_id b < n" if "b \<in> set bs" for b using D(1) that by (auto simp: below_def)
  have h: "h < n" using D(5,6) n by auto
  have b': "bs' = map ?G bs @ [?N]" by (simp add: bs' rephi_def)
  have t: "block_targets (?G b) = (if b_id b = p then [n] else block_targets b)" if "b \<in> set bs" for b
    using D(10,11) [OF that] E(1) [OF that] by (auto simp: rebranch_targets)
  have N: "block_targets \<lparr>b_id = j, b_insts = [ins i ty (Br h)]\<rparr> = [h]" for i j ty by (simp add: block_targets_def)
  obtain Q where "Q \<in> set bs" "b_id Q = q" by (rule loop_form_ends [OF F])
  then have qn: "q < n" using n by blast
  have old: "n \<notin> set (block_targets b)" if "b \<in> set bs" for b using D(4) [OF that] n by auto
  have m': "phis_match bs'" "mset (preds_in bs' h) = {#q, n#}"
  proof -
    have e: "b_insts b \<noteq> [] \<and> is_branch (i_op (last (b_insts b))) \<and> set (block_targets b) \<inter> set (n # ls) \<subseteq> {h} \<and>
        (\<forall>t\<in>set (block_targets b). n = (if t = h then n else t))" if "b \<in> set bs" "b_id b = p" for b
      using that E D(10,11) by simp
    have w: "\<forall>b\<in>set [?N]. block_phis b = []" "preds_in [?N] h = [n]" "\<forall>b\<in>set bs. b_id b \<noteq> h \<longrightarrow> preds_in [?N] (b_id b) = []"
      by (auto simp: block_phis_simps preds_in_simps N)
    show "phis_match bs'" "mset (preds_in bs' h) = {#q, n#}"
      using reroute(1,2) [OF m D(7,8) e _ _ _ w bs'] D(5) h n by auto
  qed
  show "phis_match bs'" by (rule m')
  have cl: "set (block_targets (rebranch p (\<lambda>_. n) b)) \<subseteq> b_id ` set (bs @ [?N])" if "b \<in> set bs" for b
    using that D(4) t by (auto split: if_splits)
  have R: "below (n + 2) bs'" "distinct (map i_id (concat (map b_insts bs')))" "distinct (map b_id bs')"
    "\<forall>b\<in>set bs'. set (block_targets b) \<subseteq> b_id ` set bs'"
  proof -
    have w: "n \<le> b_id b \<and> (\<forall>x\<in>set (b_insts b). n \<le> i_id x)" "set (block_targets b) \<subseteq> b_id ` set (bs @ [?N])"
      if "b \<in> set [?N]" for b using that D(5,6) by (auto simp: N)
    note R = routed [OF D(1-3) cl w(1) _ _ _ _ w(2) b', of "n + 2"]
    show "below (n + 2) bs'" by (rule R(1)) simp_all
    show "distinct (map i_id (concat (map b_insts bs')))" by (rule R(2)) simp_all
    show "distinct (map b_id bs')" by (rule R(3)) simp_all
    show "\<forall>b\<in>set bs'. set (block_targets b) \<subseteq> b_id ` set bs'" by (rule R(4)) simp_all
  qed
  have each: "(b_id b = n \<or> b_id b = q \<longrightarrow> is_branch (i_op (last (b_insts b)))) \<and> (b_id b = n \<longrightarrow> block_targets b = [h]) \<and>
      (b_id b = q \<longrightarrow> set (block_targets b) \<inter> set (n # ls) \<subseteq> {h}) \<and> (b_id b = h \<longrightarrow> (\<exists>x\<in>set (b_insts b). \<not> is_phi (i_op x)))"
    if b: "b \<in> set bs'" for b
  proof -
    consider a where "a \<in> set bs" "b = ?G a" | "b = ?N" using b by (auto simp: b')
    then show ?thesis
    proof cases
      case 1
      then show ?thesis using n [OF 1(1)] old [OF 1(1)] D(8) D(10,12,13) [OF 1(1)] E(1) [OF 1(1)] t [OF 1(1)]
        by (auto simp: routed_branch routed_kinds)
    qed (use h qn in \<open>simp add: N\<close>)
  qed
  have "h \<in> set (n # ls)" "set (n # ls) \<subseteq> b_id ` set bs'" "n \<noteq> q" "n \<noteq> h" "mset (preds_in bs' h) = {#n, q#}"
    using D(5,6) h qn m'(2) by (auto simp: b' image_image)
  then show "loop_form h (n # ls) n q bs' (n + 2)" by (intro loop_formI [OF R _ each])
  obtain H as cs where "bs = as @ H # cs" "b_id H = h" using D(5,6) by (auto simp: in_set_conv_decomp)
  then have "bs' = map ?G as @ ?G H # map ?G cs @ ?N # []" "b_id (?G H) = h" by (simp_all add: b')
  moreover have "\<not> is_phi (i_op (hd (b_insts ?N))) \<and> \<not> is_debug (i_op (hd (b_insts ?N)))" "b_id ?N = n"
    by (simp_all add: is_debug_def)
  ultimately show "opens_after h n bs'" unfolding opens_after_def by blast
qed

text \<open>The three blocks of a pointer: the latch leads to the comparison, and a new latch to the header.\<close>

definition check_blks :: "ident \<Rightarrow> ident \<Rightarrow> val \<Rightarrow> block list" where
  "check_blks k h c =
     [\<lparr>b_id = k, b_insts = [ins (k + 1) TVoid (Br h)]\<rparr>, \<lparr>b_id = k + 2, b_insts = [ins (k + 3) TVoid (Br k)]\<rparr>,
      \<lparr>b_id = k + 4, b_insts = [ins (k + 5) TVoid (CondBr c (k + 2) k)]\<rparr>]"

abbreviation latch_blk :: "ident \<Rightarrow> ident list \<Rightarrow> ident \<Rightarrow> ident \<Rightarrow> block \<Rightarrow> block" where
  "latch_blk h ls q k b \<equiv> rephi ((k + 4) # (k + 2) # k # ls) (\<lambda>i. if i = q then k else i) (rebranch q (\<lambda>i. if i = h then k + 4 else i) b)"

lemma check_edges:
  "map block_targets (check_blks k h c) = [[h], [k], [k + 2, k]]"
  "j < k \<Longrightarrow> preds_in (check_blks k h c) j = (if j = h then [k] else [])"
  "b_id ` set (bs @ check_blks k h c) = b_id ` set bs \<union> {k, k + 2, k + 4}"
proof -
  show N: "map block_targets (check_blks k h c) = [[h], [k], [k + 2, k]]" by (simp add: block_targets_def check_blks_def)
  show "j < k \<Longrightarrow> preds_in (check_blks k h c) j = (if j = h then [k] else [])"
    using N by (simp add: preds_in_simps check_blks_def)
  show "b_id ` set (bs @ check_blks k h c) = b_id ` set bs \<union> {k, k + 2, k + 4}" by (auto simp: check_blks_def image_Un)
qed

lemma latch_targets:
  assumes F: "loop_form h ls p q bs k" and b: "b \<in> set bs"
  shows "block_targets (latch_blk h ls q k b) =
      (if b_id b = q then map (\<lambda>i. if i = h then k + 4 else i) (block_targets b) else block_targets b)"
    "\<forall>t\<in>set (block_targets b). t < k"
  using loop_formD(4,10) [OF F b] loop_form_edge(1) [OF F b] loop_form_below(5) [OF F]
  by (auto simp: rebranch_targets)

lemma latch_match:
  assumes F: "loop_form h ls p q bs k" and m: "phis_match bs"
    and bs': "bs' = map (rephi ((k + 4) # (k + 2) # k # ls) (\<lambda>i. if i = q then k else i))
      (map (rebranch q (\<lambda>i. if i = h then k + 4 else i)) bs @ check_blks k h c)"
  shows "phis_match bs'" "mset (preds_in bs' h) = {#p, k#}"
proof -
  note D = loop_formD [OF F] and E = loop_form_edge [OF F] and n = loop_form_below [OF F]
  let ?ls = "(k + 4) # (k + 2) # k # ls"
  have e: "b_insts b \<noteq> [] \<and> is_branch (i_op (last (b_insts b))) \<and> set (block_targets b) \<inter> set ?ls \<subseteq> {h} \<and>
      (\<forall>t\<in>set (block_targets b). (if t = h then k + 4 else t) = (if t = h then k + 4 else t))" if "b \<in> set bs" "b_id b = q" for b
    using that E D(10,12) latch_targets(2) [OF F that(1)] by fastforce
  have w: "\<forall>b\<in>set (check_blks k h c). block_phis b = []" "preds_in (check_blks k h c) h = [k]"
    "\<forall>b\<in>set bs. b_id b \<noteq> h \<longrightarrow> preds_in (check_blks k h c) (b_id b) = []"
    using check_edges(2) n(1,5) by (simp_all add: block_phis_simps check_blks_def)
  have "mset (preds_in bs h) = {#q, p#}" using D(7) by (simp add: add_mset_commute)
  note R = reroute(1,2) [OF m this D(8) [symmetric] e _ _ _ w bs']
  have "k + 4 \<notin> b_id ` set bs" using n(5) by fastforce
  then show "phis_match bs'" "mset (preds_in bs' h) = {#p, k#}" using R D(5) n(1) by simp_all
qed

lemma latch_routed:
  assumes F: "loop_form h ls p q bs k" and bs': "bs' = map (latch_blk h ls q k) bs @ check_blks k h c"
  shows "below (k + 6) bs'" "distinct (map i_id (concat (map b_insts bs')))" "distinct (map b_id bs')"
    "\<forall>b\<in>set bs'. set (block_targets b) \<subseteq> b_id ` set bs'"
proof -
  note D = loop_formD [OF F] and ids = check_edges(3)
  have w: "k \<le> b_id b \<and> (\<forall>x\<in>set (b_insts b). k \<le> i_id x)" if "b \<in> set (check_blks k h c)" for b
    using that by (auto simp: check_blks_def)
  have cl: "set (block_targets (rebranch q (\<lambda>i. if i = h then k + 4 else i) b)) \<subseteq> b_id ` set (bs @ check_blks k h c)"
    if "b \<in> set bs" for b
    using D(4) [OF that] latch_targets(1) [OF F that] unfolding ids by auto
  have w2: "set (block_targets b) \<subseteq> b_id ` set (bs @ check_blks k h c)" if "b \<in> set (check_blks k h c)" for b
    using that D(5,6) check_edges(1) [of k h c] unfolding ids by (auto simp: check_blks_def)
  note R = routed [OF D(1-3) cl w _ _ _ _ w2 bs', of "k + 6"]
  show "below (k + 6) bs'" by (rule R(1)) (simp_all add: check_blks_def)
  show "distinct (map i_id (concat (map b_insts bs')))" by (rule R(2)) (simp_all add: check_blks_def)
  show "distinct (map b_id bs')" by (rule R(3)) (simp_all add: check_blks_def)
  show "\<forall>b\<in>set bs'. set (block_targets b) \<subseteq> b_id ` set bs'" by (rule R(4)) (simp_all add: check_blks_def)
qed

lemma latch_form:
  assumes F: "loop_form h ls p q bs k" and m: "phis_match bs"
    and bs': "bs' = map (rephi ((k + 4) # (k + 2) # k # ls) (\<lambda>i. if i = q then k else i))
      (map (rebranch q (\<lambda>i. if i = h then k + 4 else i)) bs @ check_blks k h c)"
    and G: "G = (\<lambda>b. rephi ((k + 4) # (k + 2) # k # ls) (\<lambda>i. if i = q then k else i) (rebranch q (\<lambda>i. if i = h then k + 4 else i) b))"
  shows "loop_form h ((k + 4) # (k + 2) # k # ls) p k bs' (k + 6)" "phis_match bs'" "bs' = map G bs @ check_blks k h c"
    "\<forall>b\<in>set bs. k \<notin> set (block_targets (G b))"
proof -
  note D = loop_formD [OF F] and E = loop_form_edge [OF F] and n = loop_form_below [OF F]
  let ?ls = "(k + 4) # (k + 2) # k # ls"
  have h: "h < k" and pn: "p < k" by (rule n)+
  show b': "bs' = map G bs @ check_blks k h c" by (simp add: bs' G rephi_def check_blks_def)
  note N = check_edges(1) [of k h c]
  have "k \<notin> set (block_targets (G b))" if "b \<in> set bs" for b
    using latch_targets [OF F that] by (auto simp: G)
  then show k: "\<forall>b\<in>set bs. k \<notin> set (block_targets (G b))" by blast
  note m' = latch_match [OF F m bs']
  show "phis_match bs'" by (rule m')
  note R = latch_routed [OF F b' [unfolded G]]
  have ids: "b_id ` set bs' = b_id ` set bs \<union> {k, k + 2, k + 4}" by (auto simp: b' G check_blks_def image_image)
  have each: "(b_id b = p \<or> b_id b = k \<longrightarrow> is_branch (i_op (last (b_insts b)))) \<and> (b_id b = p \<longrightarrow> block_targets b = [h]) \<and>
      (b_id b = k \<longrightarrow> set (block_targets b) \<inter> set ?ls \<subseteq> {h}) \<and> (b_id b = h \<longrightarrow> (\<exists>x\<in>set (b_insts b). \<not> is_phi (i_op x)))"
    if b: "b \<in> set bs'" for b
  proof -
    consider a where "a \<in> set bs" "b = G a" | "b \<in> set (check_blks k h c)" using b by (auto simp: b')
    then show ?thesis
    proof cases
      case 1
      then show ?thesis using n(5) [OF 1(1)] D(8) D(10,11,13) [OF 1(1)] E(1) [OF 1(1)] latch_targets [OF F 1(1)]
        by (auto simp: routed_branch routed_kinds G)
    next
      case 2
      then show ?thesis using h pn N by (auto simp: check_blks_def)
    qed
  qed
  have "h \<in> set ?ls" "set ?ls \<subseteq> b_id ` set bs'" "p \<noteq> k" "p \<noteq> h" unfolding ids using D(5,6,9) pn by auto
  then show "loop_form h ?ls p k bs' (k + 6)" by (intro loop_formI [OF R _ each m'(2)])
qed

lemma opens_after_routed:
  assumes "opens_after h p bs" "\<And>b. b \<in> set bs \<Longrightarrow> b_id b = p \<Longrightarrow> b_insts b \<noteq> []"
    and G: "\<And>b. G b = rephi ls f (rebranch q g b)"
  shows "opens_after h p (map G bs)"
proof -
  obtain as H ms B cs where bs: "bs = as @ H # ms @ B # cs" and H: "b_id H = h"
    and B: "b_id B = p" "\<not> is_phi (i_op (hd (b_insts B)))" "\<not> is_debug (i_op (hd (b_insts B)))"
    using assms(1) by (auto simp: opens_after_def)
  obtain x xs where x: "b_insts B = x # xs" using assms(2) [of B] B(1) bs by (cases "b_insts B") auto
  have k: "is_debug (map_targets g o1) = is_debug o1" "is_debug (map_incoming f o1) = is_debug o1" for o1
    by (cases o1; simp add: is_debug_def)+
  have "\<not> is_phi (i_op (hd (b_insts (G B)))) \<and> \<not> is_debug (i_op (hd (b_insts (G B))))"
    using B x by (cases xs) (auto simp: G rephi_def rebranch_def map_targets_kind map_incoming_kind k)
  moreover have "b_id (G H) = h" "b_id (G B) = p" using H B by (simp_all add: G)
  moreover have "map G bs = map G as @ G H # map G ms @ G B # map G cs" by (simp add: bs)
  ultimately show ?thesis unfolding opens_after_def by blast
qed

text \<open>A loop of this form is a site of a pointer.\<close>

lemma split_insts:
  assumes "\<exists>x\<in>set xs. \<not> is_phi (i_op x)"
  obtains ps y ys where "xs = ps @ y # ys" "\<forall>x\<in>set ps. is_phi (i_op x)" "\<not> is_phi (i_op y)"
  using split_list_first_prop [OF assms] by blast

lemma form_site:
  assumes F: "loop_form h ls p k (bs @ check_blks k h c) n" and b: "below k bs" and O: "opens_after h p bs"
    and k: "\<forall>b\<in>set bs. k \<notin> set (block_targets b)"
  obtains S where "good_site S" "st_k S = k" "st_header S = h" "st_outer S = p"
    "site_blocks S [] [] [] [] [] c = bs @ check_blks k h c" "opens_after h p (bs @ check_blks k h c)"
proof -
  note D = loop_formD [OF F]
  obtain as H ms B cs where bs: "bs = as @ H # ms @ B # cs" and H: "b_id H = h"
    and B: "b_id B = p" "\<not> is_phi (i_op (hd (b_insts B)))" "\<not> is_debug (i_op (hd (b_insts B)))"
    using O by (auto simp: opens_after_def)
  obtain x xs where x: "b_insts B = x # xs"
    using loop_form_edge(1) [OF F, of B] B(1) bs by (cases "b_insts B") auto
  have "\<exists>x\<in>set (b_insts H). \<not> is_phi (i_op x)" using D(13) [of H] H bs by auto
  then obtain ps y ys where y: "b_insts H = ps @ y # ys" "\<forall>x\<in>set ps. is_phi (i_op x)" "\<not> is_phi (i_op y)"
    by (rule split_insts)
  define S where "S = \<lparr>st_k = k, st_before = as, st_header = h, st_phis = ps, st_first = y, st_rest = ys,
    st_between = ms, st_outer = p, st_open = x, st_orest = xs, st_after = cs\<rparr>"
  have blk: "H = \<lparr>b_id = h, b_insts = ps @ y # ys\<rparr>" "B = \<lparr>b_id = p, b_insts = x # xs\<rparr>"
    using H B x y(1) by (auto intro: block.equality)
  have w: "site_blocks S [] [] [] [] [] c = bs @ check_blks k h c"
    by (simp add: S_def site_simps bs blk check_blks_def)
  have "distinct (map i_id (concat (map b_insts (as @ \<lparr>b_id = h, b_insts = ps @ y # ys\<rparr> # (ms @ B # cs @ check_blks k h c)))))"
    using D(2) by (simp only: bs blk(1) append.assoc append_Cons)
  note ly = distinct_mid [OF this]
  have "distinct (map i_id (concat (map b_insts ((as @ H # ms) @ \<lparr>b_id = p, b_insts = [] @ x # xs\<rparr> # (cs @ check_blks k h c)))))"
    using D(2) by (simp only: bs blk(2) append.assoc append_Cons append_Nil)
  note lx = distinct_mid [OF this]
  have i: "h \<notin> b_id ` set as" "p \<notin> b_id ` set (as @ ms)" "\<forall>b\<in>set (H # as @ ms @ cs). b_id b \<noteq> p"
    using D(3) [unfolded bs blk] D(9) by (auto simp: blk)
  have h: "h \<notin> set (block_targets b)" if "b \<in> set (H # as @ ms @ cs)" for b
  proof
    assume "h \<in> set (block_targets b)"
    then have "b_id b \<in> set (preds_in (bs @ check_blks k h c) h)" using that by (auto simp: in_preds bs)
    then have "b_id b \<in># {#p, k#}" by (simp flip: D(7))
    moreover have "b_id b < k" using b that by (auto simp: bs below_def)
    ultimately show False using i(3) that by auto
  qed
  have "good_site S" unfolding good_site_def
  proof (intro conjI)
    show "below (st_k S) (st_before S @ head_blk S [] # st_between S @ outer_blk S [] # st_after S)"
      using b by (simp add: S_def head_blk_def outer_blk_def bs blk)
    show "\<forall>p\<in>{i_id (st_open S), i_id (st_first S)}. lacks_all p (st_old S) \<and> lacks p (st_phis S) \<and> lacks p (st_rest S) \<and> lacks p (st_orest S)"
      "i_id (st_open S) \<noteq> i_id (st_first S)"
      using ly lx by (auto simp: S_def st_old_def blk)
    show "\<forall>b\<in>set (head_blk S [] # st_old S). \<forall>j\<in>{st_header S, st_k S}. j \<notin> set (block_targets b)"
      using h k bs by (simp add: S_def st_old_def head_blk_def blk(1))
  qed (use i y(2,3) B D(9) D(11) [of B] bs x in \<open>simp_all add: S_def outer_blk_def blk(2)\<close>)
  moreover have "opens_after h p (bs @ check_blks k h c)" unfolding opens_after_def
    using bs H B by (metis append.assoc append_Cons)
  ultimately show ?thesis using that [of S] w by (simp add: S_def)
qed

end
