(* ===== verification/Loop_Form.thy ===== *)
theory Loop_Form
  imports Loop_Cfg Loop_Walk
begin

text \<open>
  \<open>_createCARMLoop\<close> as a whole: a function whose phis match its edges, with a loop that has a
  block before it and one latch, is left in that form, so that further pointers of the same loop
  can be transformed; \<open>loop_ready\<close> is what the pass keeps.
\<close>

section \<open>The new blocks\<close>

lemma looped_match:
  assumes S: "good_site S" and m: "phis_match (site_blocks S [] [] [] [] [] c)"
  shows "phis_match (looped S base start sv mut pt)"
proof -
  let ?k = "st_k S" and ?B = "looped S base start sv mut pt" and ?A = "site_blocks S [] [] [] [] [] c"
  have "edges ?B = edges ?A"
    by (simp add: looped_def site_blocks_def tail_blks_def head_blk_def outer_blk_def back_blk_def cross_blk_def check_blk_def
        block_targets_def)
  then have p: "preds_in ?B j = preds_in ?A j" for j by (rule preds_cong)
  have new: "preds_in ?A (st_header S) = [st_outer S, ?k]" "preds_in ?A ?k = [?k + 2, ?k + 4]"
    using site_preds [OF S, of undefined "[]" "[]" "[]" "[]" "[]" c 0] by (simp_all add: preds_blocks)
  have old: "mset ps = mset (preds_in ?A (b_id b))" if "b \<in> set ?A" "ps \<in> set (block_phis b)" for b ps
    using m that by (simp add: phis_match_def)
  have "mset ps = mset (preds_in ?A (b_id b))" if b: "b \<in> set ?B" "ps \<in> set (block_phis b)" for b ps
  proof -
    consider "b \<in> set (st_before S @ st_between S @ st_after S)" | "b = head_blk S (head_code ?k (st_outer S) pt)"
      | "b = outer_blk S (open_code ?k base start sv mut)" | "b = back_blk ?k (ins (?k + 1) TVoid (Br (st_header S)))"
      | "b = cross_blk ?k mut" | "b = check_blk ?k sv"
      using b(1) by (auto simp: looped_def)
    then show ?thesis
    proof cases
      case 1
      with b(2) show ?thesis by (intro old) (auto simp: site_blocks_def)
    next
      case 2
      with b(2) consider "ps \<in> set (block_phis (head_blk S []))" | "ps = [st_outer S, ?k]"
        by (auto simp: head_blk_def head_code_def block_phis_simps)
      then show ?thesis
        using old [of "head_blk S []" ps] new(1) 2 by cases (auto simp: site_blocks_def head_blk_def)
    next
      case 3
      with b(2) have "ps \<in> set (block_phis (outer_blk S []))"
        by (auto simp: outer_blk_def open_code_def block_phis_simps)
      then show ?thesis using old [of "outer_blk S []" ps] 3 by (auto simp: site_blocks_def outer_blk_def)
    next
      case 4
      with b(2) new(2) show ?thesis by (auto simp: back_blk_def block_phis_simps)
    next
      case 5
      with b(2) show ?thesis by (auto simp: cross_blk_def block_phis_simps)
    next
      case 6
      with b(2) show ?thesis by (auto simp: check_blk_def block_phis_simps)
    qed
  qed
  then show ?thesis by (auto simp: phis_match_def p)
qed


section \<open>The code of the pointer keeps the form\<close>

lemma looped_edges: "edges (looped S base start sv mut pt) = edges (site_blocks S [] [] [] [] [] c)"
  by (simp add: looped_def site_blocks_def tail_blks_def head_blk_def outer_blk_def back_blk_def cross_blk_def check_blk_def
      block_targets_def)

lemma edges_ids: "map fst (edges bs) = map b_id bs" "map snd (edges bs) = map block_targets bs"
  by (simp_all add: edges_def comp_def)

lemma looped_ids:
  "mset (map i_id (concat (map b_insts (looped S base start sv mut pt)))) =
   mset (map i_id (concat (map b_insts (site_blocks S [] [] [] [] [] c)))) + mset [st_k S + 6..<st_k S + 22]"
proof -
  have "[st_k S + 6..<st_k S + 22] = map (\<lambda>i. st_k S + i) [6,7,8,9,10,11,12,13,14,15,16,17,18,19,20,21]"
    by (simp add: upt_rec)
  then show ?thesis
    by (simp add: looped_def site_simps back_blk_def cross_blk_def check_blk_def head_code_def open_code_def del: upt.simps)
qed

lemma list_all2_in: "list_all2 P xs ys \<Longrightarrow> y \<in> set ys \<Longrightarrow> \<exists>x\<in>set xs. P x y"
  by (induction rule: list_all2_induct) auto

lemma looped_block:
  assumes "b \<in> set (looped S base start sv mut pt)"
  shows "\<exists>a\<in>set (site_blocks S [] [] [] [] [] c). b_id b = b_id a \<and> block_targets b = block_targets a \<and>
    is_branch (i_op (last (b_insts b))) = is_branch (i_op (last (b_insts a))) \<and>
    ((\<exists>x\<in>set (b_insts a). \<not> is_phi (i_op x)) \<longrightarrow> (\<exists>x\<in>set (b_insts b). \<not> is_phi (i_op x)))"
proof -
  let ?t = "\<lambda>a b. b_id b = b_id a \<and> block_targets b = block_targets a \<and>
    is_branch (i_op (last (b_insts b))) = is_branch (i_op (last (b_insts a))) \<and>
    ((\<exists>x\<in>set (b_insts a). \<not> is_phi (i_op x)) \<longrightarrow> (\<exists>x\<in>set (b_insts b). \<not> is_phi (i_op x)))"
  have "?t (head_blk S []) (head_blk S (head_code k p pt))" "?t (outer_blk S []) (outer_blk S (open_code k base start sv mut))" for k p
    by (auto simp: head_blk_def outer_blk_def block_targets_def)
  moreover have "list_all2 ?t (tail_blks S [] [] [] c)
      [back_blk (st_k S) (ins (st_k S + 1) TVoid (Br (st_header S))), cross_blk (st_k S) mut, check_blk (st_k S) sv]"
    by (simp add: tail_blks_def back_blk_def cross_blk_def check_blk_def block_targets_def)
  ultimately have "list_all2 ?t (site_blocks S [] [] [] [] [] c) (looped S base start sv mut pt)"
    unfolding looped_def site_blocks_def by (intro list_all2_appendI list.rel_intros list.rel_refl) simp_all
  from list_all2_in [OF this assms] show ?thesis .
qed

lemma form_parts:
  "below n bs \<longleftrightarrow> (\<forall>i\<in>set (map b_id bs). i < n) \<and> (\<forall>i\<in>set (map i_id (concat (map b_insts bs))). i < n)"
  "(\<forall>b\<in>set bs. set (block_targets b) \<subseteq> b_id ` set bs) \<longleftrightarrow> (\<forall>(i, ts)\<in>set (edges bs). set ts \<subseteq> fst ` set (edges bs))"
proof -
  have "fst ` set (edges bs) = b_id ` set bs" by (simp add: edges_def image_image)
  then show "(\<forall>b\<in>set bs. set (block_targets b) \<subseteq> b_id ` set bs) \<longleftrightarrow> (\<forall>(i, ts)\<in>set (edges bs). set ts \<subseteq> fst ` set (edges bs))"
    by (simp add: edges_def)
qed (auto simp: below_def)

lemma looped_form:
  assumes S: "good_site S" and F: "loop_form (st_header S) ls (st_outer S) (st_k S) (site_blocks S [] [] [] [] [] c) (st_k S + 6)"
  shows "loop_form (st_header S) ls (st_outer S) (st_k S) (looped S base start sv mut pt) (st_k S + 22)"
proof -
  let ?k = "st_k S" and ?B = "looped S base start sv mut pt" and ?A = "site_blocks S [] [] [] [] [] c"
  note D = loop_formD [OF F]
  have ids: "map b_id ?B = map b_id ?A" by (simp flip: edges_ids add: looped_edges [of S base start sv mut pt c])
  have i: "set (map i_id (concat (map b_insts ?B))) = set (map i_id (concat (map b_insts ?A))) \<union> {?k + 6..<?k + 22}"
    using arg_cong [OF looped_ids [of S base start sv mut pt c], of set_mset] by simp
  note eq = looped_edges [of S base start sv mut pt c]
  have "mset (map i_id (concat (map b_insts ?B))) = mset (map i_id (concat (map b_insts ?A)) @ [?k + 6..<?k + 22])"
    using looped_ids [of S base start sv mut pt c] by simp
  then have "distinct (map i_id (concat (map b_insts ?B))) \<longleftrightarrow> distinct (map i_id (concat (map b_insts ?A)) @ [?k + 6..<?k + 22])"
    by (rule mset_eq_imp_distinct_iff)
  then have d: "distinct (map i_id (concat (map b_insts ?B)))" using D(1,2) by (fastforce simp: form_parts(1))
  have b: "below (?k + 22) ?B" using D(1) unfolding form_parts(1) i ids by fastforce
  have "\<forall>b\<in>set ?A. set (block_targets b) \<subseteq> b_id ` set ?A" using D(4) by blast
  then have t: "\<forall>b\<in>set ?B. set (block_targets b) \<subseteq> b_id ` set ?B" unfolding form_parts(2) eq .
  have p: "mset (preds_in ?B (st_header S)) = {#st_outer S, ?k#}" using D(7) preds_cong [OF eq] by simp
  have s: "set ls \<subseteq> b_id ` set ?B" using D(6) arg_cong [OF ids, of set] by simp
  have each: "(b_id b = st_outer S \<or> b_id b = ?k \<longrightarrow> is_branch (i_op (last (b_insts b)))) \<and>
      (b_id b = st_outer S \<longrightarrow> block_targets b = [st_header S]) \<and> (b_id b = ?k \<longrightarrow> set (block_targets b) \<inter> set ls \<subseteq> {st_header S}) \<and>
      (b_id b = st_header S \<longrightarrow> (\<exists>x\<in>set (b_insts b). \<not> is_phi (i_op x)))" if "b \<in> set ?B" for b
    using looped_block [OF that, of c] D(10-13) by metis
  show ?thesis by (rule loop_formI [OF b d _ t s each p]) (use D ids in simp_all)
qed

text \<open>The later edits keep it: uses are substituted and markers dropped.\<close>

lemma kept_block:
  assumes G: "G = (\<lambda>b. subst_blk a w (drop_insts del b))" and keep: "b_insts b \<noteq> [] \<Longrightarrow> i_id (last (b_insts b)) \<notin> set del"
  shows "b_id (G b) = b_id b" "block_targets (G b) = block_targets b"
    "map i_id (b_insts (G b)) = filter (\<lambda>i. i \<notin> set del) (map i_id (b_insts b))"
    "b_insts b \<noteq> [] \<Longrightarrow> is_branch (i_op (last (b_insts (G b)))) = is_branch (i_op (last (b_insts b)))"
    "\<exists>x\<in>set (b_insts b). \<not> is_phi (i_op x) \<and> i_id x \<notin> set del \<Longrightarrow> \<exists>x\<in>set (b_insts (G b)). \<not> is_phi (i_op x)"
proof -
  have k: "is_branch (map_op f o1) = is_branch o1" "is_phi (map_op f o1) = is_phi o1" for f o1 by (cases o1; simp)+
  show "b_id (G b) = b_id b" by (simp add: G)
  show "block_targets (G b) = block_targets b" using keep by (simp add: G drop_cfg)
  show "map i_id (b_insts (G b)) = filter (\<lambda>i. i \<notin> set del) (map i_id (b_insts b))"
    by (simp add: G subst_blk_def drop_insts_def filter_map comp_def)
  show "is_branch (i_op (last (b_insts (G b)))) = is_branch (i_op (last (b_insts b)))" if "b_insts b \<noteq> []"
    using that keep by (cases "b_insts b" rule: rev_cases) (simp_all add: G subst_blk_def drop_insts_def k)
  show "\<exists>x\<in>set (b_insts (G b)). \<not> is_phi (i_op x)" if "\<exists>x\<in>set (b_insts b). \<not> is_phi (i_op x) \<and> i_id x \<notin> set del"
    using that by (auto simp: G subst_blk_def drop_insts_def k)
qed

lemma kept_form:
  assumes F: "loop_form h ls p q bs n" and keep: "\<And>b. b \<in> set bs \<Longrightarrow> b_insts b \<noteq> [] \<Longrightarrow> i_id (last (b_insts b)) \<notin> set del"
    and hd: "\<And>b. b \<in> set bs \<Longrightarrow> b_id b = h \<Longrightarrow> \<exists>x\<in>set (b_insts b). \<not> is_phi (i_op x) \<and> i_id x \<notin> set del"
    and G: "G = (\<lambda>b. subst_blk a w (drop_insts del b))"
  shows "loop_form h ls p q (map G bs) n"
proof -
  note D = loop_formD [OF F]
  have K: "b_id (G b) = b_id b" "block_targets (G b) = block_targets b"
    "map i_id (b_insts (G b)) = filter (\<lambda>i. i \<notin> set del) (map i_id (b_insts b))" if "b \<in> set bs" for b
    using kept_block [OF G] keep [OF that] by blast+
  have i: "map b_id (map G bs) = map b_id bs" using K by simp
  have j: "map i_id (concat (map b_insts (map G bs))) = filter (\<lambda>i. i \<notin> set del) (map i_id (concat (map b_insts bs)))"
    using K(3) by (induction bs) auto
  have eq: "edges (map G bs) = edges bs" by (intro edges_map) (use K in auto)
  have b: "below n (map G bs)" using D(1) unfolding form_parts(1) i j by auto
  have d: "distinct (map i_id (concat (map b_insts (map G bs))))" unfolding j using D(2) by simp
  have "\<forall>b\<in>set bs. set (block_targets b) \<subseteq> b_id ` set bs" using D(4) by blast
  then have t: "\<forall>b\<in>set (map G bs). set (block_targets b) \<subseteq> b_id ` set (map G bs)" unfolding form_parts(2) eq .
  have s: "set ls \<subseteq> b_id ` set (map G bs)" using D(6) arg_cong [OF i, of set] by (simp add: image_image)
  have each: "(b_id b = p \<or> b_id b = q \<longrightarrow> is_branch (i_op (last (b_insts b)))) \<and> (b_id b = p \<longrightarrow> block_targets b = [h]) \<and>
      (b_id b = q \<longrightarrow> set (block_targets b) \<inter> set ls \<subseteq> {h}) \<and> (b_id b = h \<longrightarrow> (\<exists>x\<in>set (b_insts b). \<not> is_phi (i_op x)))"
    if b: "b \<in> set (map G bs)" for b
  proof -
    obtain c where c: "c \<in> set bs" "b = G c" using b by auto
    then show ?thesis
      using K [OF c(1)] D(10-12) [OF c(1)] kept_block(4,5) [OF G keep [OF c(1)]] loop_form_edge(1) [OF F c(1)] hd [OF c(1)] by auto
  qed
  have "distinct (map b_id (map G bs))" unfolding i by (rule D(3))
  moreover have "mset (preds_in (map G bs) h) = {#p, q#}" unfolding preds_cong [OF eq] by (rule D(7))
  ultimately show ?thesis using D(5,8,9) by (intro loop_formI [OF b d _ t s each])
qed

section \<open>The blocks of the pass\<close>

lemma own_blocks: "e = with_blocks e (f_blocks (ed_fun e)) (ed_next e)"
  by (cases e) (simp add: with_blocks_def)

lemma create_block_own: "create_block o1 e =
  (ed_next e, with_blocks e (f_blocks (ed_fun e) @ [\<lparr>b_id = ed_next e, b_insts = [ins (ed_next e + 1) TVoid o1]\<rparr>]) (ed_next e + 2))"
  by (subst own_blocks) (simp only: create_block_blocks)

lemma loop_form_redirect:
  assumes F: "loop_form h ls p q bs n" and i: "i = p \<or> i = q"
    and new: "\<And>b. b \<in> set news \<Longrightarrow> n \<le> b_id b \<and> (\<forall>x\<in>set (b_insts b). n \<le> i_id x)"
      "distinct (map i_id (concat (map b_insts news)))" "distinct (map b_id news)"
  shows "redirect_branch i g (with_blocks e (bs @ news) k) = Done (with_blocks e (map (rebranch i g) bs @ news) k)"
proof -
  note D = loop_formD [OF F]
  obtain b where b: "b \<in> set bs" "b_id b = i" using loop_form_ends [OF F] i by metis
  have "is_term (i_op (last (b_insts b)))" using D(10) [OF b(1)] i b(2) is_branch_term by blast
  moreover have "distinct (map i_id (concat (map b_insts (bs @ news))))" "distinct (map b_id (bs @ news))"
    using D(1-3) new by (fastforce simp: below_def)+
  moreover have "rebranch i g x = x" if "x \<in> set news" for x
    using new(1) [OF that] D(1) b by (auto simp: rebranch_def below_def)
  ultimately show ?thesis
    using redirect_branch_blocks [of "bs @ news" b] loop_form_edge(1) [OF F b(1)] i b by (simp add: map_idI)
qed

text \<open>Before the first pointer: the block before the loop.\<close>

definition open_loop :: "forest \<Rightarrow> nat \<Rightarrow> loops_done \<times> edit \<Rightarrow> (ident \<times> loops_done \<times> edit) run" where
  "open_loop FO l Le =
     (case ld_preheader (fst Le) l of
        Some outer \<Rightarrow> Done (outer, Le)
      | None \<Rightarrow>
          (case createOuterLoopHeaderBB FO l Le of (outer, L, e) \<Rightarrow>
             bindR (redirect_origpreheader_to_outerloopheader FO l outer L e) (\<lambda>e.
             bindR (add_branch_from_outerloopheader_to_originheader outer (fo_header FO l) e) (\<lambda>e.
               case fo_preheader FO l of
                 None \<Rightarrow> Faulted
               | Some ph \<Rightarrow>
                   Done (outer, L, redirect_origpreheaderPHIs_to_outerloopheader l outer ph L e)))))"

lemma blocks_of_add: "b \<notin> set (blocks_of L l) \<Longrightarrow> blocks_of (add_block_of l b L) l = b # blocks_of L l"
  by (simp add: blocks_of_def add_block_of_def)

lemma add_block_of_simps [simp]:
  "ld_preheader (add_block_of l b L) = ld_preheader L" "ld_latches (add_block_of l b L) = ld_latches L"
  "ld_checks (add_block_of l b L) = ld_checks L" "latches_of FO (add_block_of l b L) m = latches_of FO L m"
  by (simp_all add: add_block_of_def latches_of_def)

lemma open_loop_new:
  assumes F: "loop_form (fo_header FO l) (blocks_of L l) p q (f_blocks (ed_fun e)) (ed_next e)"
    and L: "ld_preheader L l = None" "fo_preheader FO l = Some p"
  defines "n \<equiv> ed_next e"
  shows "open_loop FO l (L, e) = Done (n, add_block_of l n L, with_blocks e
    (map (rephi (n # blocks_of L l) (\<lambda>i. if i = p then n else i))
      (map (rebranch p (\<lambda>_. n)) (f_blocks (ed_fun e)) @ [\<lparr>b_id = n, b_insts = [ins (n + 1) TVoid (Br (fo_header FO l))]\<rparr>])) (n + 2))"
proof -
  let ?bs = "f_blocks (ed_fun e)" and ?h = "fo_header FO l"
  let ?N = "\<lparr>b_id = n, b_insts = [ins (n + 1) TVoid (Br ?h)]\<rparr>"
  note D = loop_formD [OF F]
  have n: "n \<notin> set (blocks_of L l)" using loop_form_below(2) [OF F, of n] by (auto simp: n_def)
  have c: "createOuterLoopHeaderBB FO l (L, e) = (n, add_block_of l n L, with_blocks e (?bs @ [?N]) (n + 2))"
    by (simp add: createOuterLoopHeaderBB_def create_block_own n_def)
  have 1: "redirect_branch p g (with_blocks e (?bs @ [?N]) k) = Done (with_blocks e (map (rebranch p g) ?bs @ [?N]) k)" for g k
    by (rule loop_form_redirect [OF F]) (auto simp: n_def)
  have 2: "redirect_branch n (\<lambda>_. ?h) (with_blocks e (map (rebranch p g) ?bs @ [?N]) k) = Done (with_blocks e (map (rebranch p g) ?bs @ [?N]) k)" for g k
  proof -
    let ?cs = "map (rebranch p g) ?bs"
    have "below n ?cs" using D(1) by (simp add: below_map n_def)
    then have "\<forall>b\<in>set ?cs. b_id b \<noteq> n" unfolding below_def by blast
    then have s: "map (rebranch n (\<lambda>_. ?h)) ?cs = ?cs" by (intro map_idI) (metis rebranch_def)
    have "map i_id (concat (map b_insts ?cs)) = map i_id (concat (map b_insts ?bs))" by (rule ids_map) simp
    then have "distinct (map i_id (concat (map b_insts (?cs @ [?N]))))"
      using D(1,2) by (fastforce simp: below_def n_def simp del: map_map)
    moreover have "distinct (map b_id (?cs @ [?N]))" using D(1,3) by (auto simp: comp_def below_def n_def)
    ultimately have "redirect_branch (b_id ?N) (\<lambda>_. ?h) (with_blocks e (?cs @ [?N]) k) =
        Done (with_blocks e (map (rebranch (b_id ?N) (\<lambda>_. ?h)) (?cs @ [?N])) k)"
      by (rule redirect_branch_blocks) simp_all
    then show ?thesis by (simp add: s rebranch_def del: map_map)
  qed
  show ?thesis
    using L n by (simp del: keep_sums map_append map_map add: open_loop_def c redirect_origpreheader_to_outerloopheader_def 1
        add_branch_from_outerloopheader_to_originheader_def 2 redirect_origpreheaderPHIs_to_outerloopheader_def
        redirect_phis_blocks blocks_of_add)
qed

text \<open>The three blocks of a pointer.\<close>

definition add_blocks_of :: "nat \<Rightarrow> ident \<Rightarrow> loops_done \<Rightarrow> loops_done" where
  "add_blocks_of l k L = add_block_of l (k + 4) (add_block_of l (k + 2) (add_block_of l k L))"

lemma new_blocks:
  "createInnerLoopEntry FO l (L, e) = (ed_next e, add_block_of l (ed_next e) L,
     with_blocks e (f_blocks (ed_fun e) @ [\<lparr>b_id = ed_next e, b_insts = [ins (ed_next e + 1) TVoid (Br (fo_header FO l))]\<rparr>]) (ed_next e + 2))"
  "createOuterLoopBodyBB l t (L, e) = (ed_next e, add_block_of l (ed_next e) L,
     with_blocks e (f_blocks (ed_fun e) @ [\<lparr>b_id = ed_next e, b_insts = [ins (ed_next e + 1) TVoid (Br t)]\<rparr>]) (ed_next e + 2))"
  "create_CARM_OBJECT_TrackerBB l body entry (L, e) = (ed_next e, add_block_of l (ed_next e) L,
     with_blocks e (f_blocks (ed_fun e) @ [\<lparr>b_id = ed_next e, b_insts = [ins (ed_next e + 1) TVoid (CondBr (VInt Int1Type 0) body entry)]\<rparr>])
       (ed_next e + 2))"
  by (simp_all add: createInnerLoopEntry_def createOuterLoopBodyBB_def create_CARM_OBJECT_TrackerBB_def create_block_own)

lemma add_blocks_of_blocks:
  assumes "loop_form h (blocks_of L l) r q bs k"
  shows "blocks_of (add_blocks_of l k L) l = (k + 4) # (k + 2) # k # blocks_of L l"
proof -
  have "k \<notin> set (blocks_of L l)" "k + 2 \<notin> set (blocks_of L l)" "k + 4 \<notin> set (blocks_of L l)"
    using loop_form_below(2) [OF assms] by fastforce+
  then show ?thesis by (simp add: add_blocks_of_def blocks_of_add)
qed

lemma createCARMLoop_steps:
  assumes o: "open_loop FO l Le = Done (p, L, e)" and k: "ed_next e = k"
    and F: "loop_form (fo_header FO l) (blocks_of L l) r q (f_blocks (ed_fun e)) k" and q: "latches_of FO L l = [q]"
  defines "bs \<equiv> map (rephi ((k + 4) # (k + 2) # k # blocks_of L l) (\<lambda>i. if i = q then k else i))
      (map (rebranch q (\<lambda>i. if i = fo_header FO l then k + 4 else i)) (f_blocks (ed_fun e)) @ check_blks k (fo_header FO l) (VInt Int1Type 0))"
  shows "createCARMLoop f FO l sv start gep const mut Le =
    bindR (createCARMLoopIter f FO l p (k + 4) (k + 2) k sv start gep const mut (add_blocks_of l k L, with_blocks e bs (k + 6)))
      (\<lambda>(g, L, e). Done (g, L\<lparr>ld_preheader := (ld_preheader L)(l \<mapsto> p), ld_latches := (ld_latches L)(l \<mapsto> [k])\<rparr>, e))"
proof -
  let ?h = "fo_header FO l" and ?bs = "f_blocks (ed_fun e)" and ?N = "check_blks k (fo_header FO l) (VInt Int1Type 0)"
  have r: "redirect_branch q g (with_blocks e (?bs @ ?N) n) = Done (with_blocks e (map (rebranch q g) ?bs @ ?N) n)" for g n
    by (rule loop_form_redirect [OF F]) (auto simp: check_blks_def)
  note ls = add_blocks_of_blocks [OF F]
  have la: "latches_of FO (add_blocks_of l k L) l = [q]" by (simp add: add_blocks_of_def q)
  have new: "with_blocks e (((?bs @ [\<lparr>b_id = k, b_insts = [ins (k + 1) TVoid (Br ?h)]\<rparr>]) @
      [\<lparr>b_id = k + 2, b_insts = [ins (k + 2 + 1) TVoid (Br k)]\<rparr>]) @
      [\<lparr>b_id = k + 4, b_insts = [ins (k + 4 + 1) TVoid (CondBr (VInt Int1Type 0) (k + 2) k)]\<rparr>]) (k + 4 + 2) =
    with_blocks e (?bs @ ?N) (k + 6)" "k + 2 + 2 = k + 4"
    by (simp_all add: check_blks_def add.assoc del: keep_sums)
  have "redirect_branches [] g = Done" for g by (rule ext) simp
  then have l: "redirect_branches [q] g e = redirect_branch q g e" for g e by simp
  have lf: "(\<lambda>b. if b \<in> set [q] then k else b) = (\<lambda>i. if i = q then k else i)" by auto
  show ?thesis
    unfolding createCARMLoop_def open_loop_def [symmetric] o bindR.simps prod.case new_blocks k with_blocks_simps new
      add_blocks_of_def [symmetric] add_branch_origlatch_to_outerlooplatch_def redirect_origlatchPHIs_to_outerlooplatch_def
      la ls l r Let_def redirect_phis_blocks lf bs_def ..
qed

lemma same_types:
  assumes "\<And>b. b \<in> set bs \<Longrightarrow> map (\<lambda>x. (i_id x, i_ty x)) (b_insts (G b)) = map (\<lambda>x. (i_id x, i_ty x)) (b_insts b)"
  shows "ity i (concat (map b_insts (map G bs))) = ity i (concat (map b_insts bs))"
proof -
  have m: "ity i xs = map_of (map (\<lambda>x. (i_id x, i_ty x)) xs) i" for xs by (induction xs) (auto simp: ity_simps)
  have "map (\<lambda>x. (i_id x, i_ty x)) (concat (map b_insts (map G bs))) = map (\<lambda>x. (i_id x, i_ty x)) (concat (map b_insts bs))"
    using assms by (induction bs) auto
  then show ?thesis by (simp only: m)
qed

lemma routed_types: "map (\<lambda>x. (i_id x, i_ty x)) (b_insts (rephi ls f (rebranch q g b))) = map (\<lambda>x. (i_id x, i_ty x)) (b_insts b)"
  by (simp add: rephi_def rebranch_def comp_def butlast_ids [where f = "\<lambda>x. (i_id x, i_ty x)"])

lemma new_types:
  assumes "\<And>b x. b \<in> set news \<Longrightarrow> x \<in> set (b_insts b) \<Longrightarrow> n \<le> i_id x" and "\<And>i. v = VInst i \<Longrightarrow> i < n" "\<And>f. v \<noteq> VFun f"
  shows "type_of (with_blocks e (map (\<lambda>b. rephi ls f (rebranch q g b)) bs @ news) k) v = type_of (with_blocks e bs j) v"
proof -
  have "ity i (concat (map b_insts (map (\<lambda>b. rephi ls f (rebranch q g b)) bs @ news))) = ity i (concat (map b_insts bs))"
    if "v = VInst i" for i
  proof -
    have "lacks_all i news" using assms(1,2) that by (fastforce simp: lacks_all_def lacks_def)
    then show ?thesis using same_types [of bs "\<lambda>b. rephi ls f (rebranch q g b)" i, OF routed_types]
      by (simp add: ity_simps ity_lacks_all split: option.split del: map_map)
  qed
  then show ?thesis using type_of_same [where v = v and cs = bs and D = "ed_decls e" and e = e] assms(3) by simp
qed

section \<open>One pointer\<close>

text \<open>No marker that may be deleted ends a block.\<close>

definition inner_markers :: "loops_done \<Rightarrow> block list \<Rightarrow> bool" where
  "inner_markers L bs \<longleftrightarrow> (\<forall>j\<in>fst ` set (ld_checks L). \<forall>b\<in>set bs. b_insts b \<noteq> [] \<longrightarrow> i_id (last (b_insts b)) \<noteq> j)"

lemma looped_last:
  assumes "b \<in> set (looped S base start sv mut pt)"
  shows "\<exists>a\<in>set (site_blocks S [] [] [] [] [] c). b_insts a \<noteq> [] = (b_insts b \<noteq> []) \<and> i_id (last (b_insts b)) = i_id (last (b_insts a))"
proof -
  let ?t = "\<lambda>a b. b_insts a \<noteq> [] = (b_insts b \<noteq> []) \<and> i_id (last (b_insts b)) = i_id (last (b_insts a))"
  have "list_all2 ?t (tail_blks S [] [] [] c)
      [back_blk (st_k S) (ins (st_k S + 1) TVoid (Br (st_header S))), cross_blk (st_k S) mut, check_blk (st_k S) sv]"
    by (simp add: tail_blks_def back_blk_def cross_blk_def check_blk_def)
  then have "list_all2 ?t (site_blocks S [] [] [] [] [] c) (looped S base start sv mut pt)"
    unfolding looped_def site_blocks_def
    by (intro list_all2_appendI list.rel_intros list.rel_refl) (simp_all add: head_blk_def outer_blk_def)
  from list_all2_in [OF this assms] show ?thesis .
qed

lemma kept_last:
  "i_id (last (b_insts b)) \<notin> set del \<Longrightarrow> b_insts b \<noteq> [] \<Longrightarrow>
   b_insts (subst_blk a w (drop_insts del b)) \<noteq> [] \<and> i_id (last (b_insts (subst_blk a w (drop_insts del b)))) = i_id (last (b_insts b))"
  by (cases "b_insts b" rule: rev_cases) (simp_all add: subst_blk_def drop_insts_def)

lemma loop_declared_blocks [simp]: "loop_declared mut (with_blocks e bs k) = loop_declared mut e"
  by (simp add: loop_declared_def declares_as_def)

lemma loop_declared_after: "loop_declared mut e \<Longrightarrow> loop_declared wr e \<Longrightarrow> loop_declared wr (after_calls mut e)"
  unfolding loop_declared_def after_calls_def after_init_def
  by (intro conjI declares_as_declare) (auto simp: loop_names dest: sym)

lemma iter_form:
  assumes S: "good_site S" "good_operands S e base sv" "loop_declared mut e" "fo_header FO l = st_header S"
    and gep: "i_op gep = Gep gt base gis" "is_ptr (i_ty gep)"
    and F: "loop_form (st_header S) ls (st_outer S) (st_k S) (site_blocks S [] [] [] [] [] c) (st_k S + 6)"
    and m: "phis_match (site_blocks S [] [] [] [] [] c)"
    and cs: "\<forall>j\<in>fst ` set (ld_checks L). j < st_k S" "inner_markers L (site_blocks S [] [] [] [] [] c)"
    and run: "createCARMLoopIter f FO l (st_outer S) (st_k S + 4) (st_k S + 2) (st_k S) sv start gep False mut
      (L, site_edit S e [] [] [] [] [] c (st_k S + 6)) = Done (p, L', e')"
  shows "loop_form (st_header S) ls (st_outer S) (st_k S) (f_blocks (ed_fun e')) (ed_next e')"
    "phis_match (f_blocks (ed_fun e'))" "opens_after (st_header S) (st_outer S) (f_blocks (ed_fun e'))"
    "inner_markers L' (f_blocks (ed_fun e'))" "ed_next e' = st_k S + 22" "\<exists>ds. set ds \<subseteq> set (ld_checks L) \<and> L' = L\<lparr>ld_checks := ds\<rparr>"
    "loop_declared wr e' = loop_declared wr (after_calls mut e)"
proof -
  let ?k = "st_k S" and ?B = "looped S base start sv mut (i_ty gep)"
  obtain del ds where del: "set del \<subseteq> fst ` set (ld_checks L)" and ds: "set ds \<subseteq> set (ld_checks L)" "L' = L\<lparr>ld_checks := ds\<rparr>"
    and e': "e' = with_blocks (after_calls mut e) (map (\<lambda>b. subst_blk (VInst (i_id gep)) (VInst (?k + 21)) (drop_insts del b)) ?B) (?k + 22)"
    using iter_outcome [OF S gep run] by blast
  define G where "G = (\<lambda>b. subst_blk (VInst (i_id gep)) (VInst (?k + 21)) (drop_insts del b))"
  have bs: "f_blocks (ed_fun e') = map G ?B" "ed_next e' = ?k + 22" by (simp_all add: e' G_def)
  show "loop_declared wr e' = loop_declared wr (after_calls mut e)" by (simp add: e')
  show "ed_next e' = ?k + 22" "\<exists>ds. set ds \<subseteq> set (ld_checks L) \<and> L' = L\<lparr>ld_checks := ds\<rparr>" using bs(2) ds by auto
  have last: "i_id (last (b_insts b)) \<notin> fst ` set (ld_checks L)" if "b \<in> set ?B" "b_insts b \<noteq> []" for b
    using looped_last [OF that(1), of c] that(2) cs(2) by (fastforce simp: inner_markers_def)
  have nd: "i \<notin> set del" if "?k \<le> i" for i using del cs(1) that by fastforce
  show "loop_form (st_header S) ls (st_outer S) ?k (f_blocks (ed_fun e')) (ed_next e')"
    unfolding bs
  proof (rule kept_form [OF looped_form [OF S(1) F] _ _ G_def])
    show "i_id (last (b_insts b)) \<notin> set del" if "b \<in> set ?B" "b_insts b \<noteq> []" for b using last [OF that] del by blast
    show "\<exists>x\<in>set (b_insts b). \<not> is_phi (i_op x) \<and> i_id x \<notin> set del" if "b \<in> set ?B" "b_id b = st_header S" for b
    proof -
      let ?H = "head_blk S (head_code ?k (st_outer S) (i_ty gep))"
      have "?H \<in> set ?B" "b_id ?H = st_header S" by (simp_all add: looped_def head_blk_def)
      then have b: "b = ?H" using that loop_formD(3) [OF looped_form [OF S(1) F]] by (metis distinct_map inj_onD)
      let ?x = "ins (?k + 21) (i_ty gep) (Cast IntToPtr (VInst (?k + 16)))"
      have "?x \<in> set (b_insts b)" unfolding b by (simp add: head_blk_def head_code_def)
      moreover have "\<not> is_phi (i_op ?x) \<and> i_id ?x \<notin> set del" using nd [of "?k + 21"] by simp
      ultimately show ?thesis by blast
    qed
  qed
  show "phis_match (f_blocks (ed_fun e'))" unfolding bs
  proof (rule match_map [OF looped_match [OF S(1) m]])
    show "b_id (G b) = b_id b \<and> block_targets (G b) = block_targets b \<and> set (block_phis (G b)) \<subseteq> set (block_phis b)"
      if "b \<in> set ?B" for b
      using drop_cfg [of b del] last [OF that] del by (auto simp: G_def)
  qed
  let ?O = "G (outer_blk S (open_code ?k base start sv mut))"
  have "hd (b_insts ?O) = ins (?k + 7) Int64Type (Cast PtrToInt (subst_val (VInst (i_id gep)) (VInst (?k + 21)) base))"
    using nd [of "?k + 7"] by (simp add: G_def subst_blk_def drop_insts_def outer_blk_def open_code_def)
  then have "\<not> is_phi (i_op (hd (b_insts ?O))) \<and> \<not> is_debug (i_op (hd (b_insts ?O)))" by (simp add: is_debug_def)
  moreover have "map G ?B = map G (st_before S) @ G (head_blk S (head_code ?k (st_outer S) (i_ty gep))) # map G (st_between S) @ ?O #
      (map G (st_after S @ [back_blk ?k (ins (?k + 1) TVoid (Br (st_header S))), cross_blk ?k mut, check_blk ?k sv]))"
    by (simp add: looped_def)
  moreover have "b_id (G (head_blk S hh)) = st_header S" "b_id ?O = st_outer S" for hh
    by (simp_all add: G_def head_blk_def outer_blk_def)
  ultimately show "opens_after (st_header S) (st_outer S) (f_blocks (ed_fun e'))"
    unfolding opens_after_def bs by blast
  show "inner_markers L' (f_blocks (ed_fun e'))"
    unfolding inner_markers_def bs
  proof (intro ballI impI)
    fix j b assume j: "j \<in> fst ` set (ld_checks L')" and b: "b \<in> set (map G ?B)" "b_insts b \<noteq> []"
    obtain c where c: "c \<in> set ?B" "b = G c" using b(1) by auto
    with b(2) have c: "c \<in> set ?B" "b = G c" "b_insts c \<noteq> []" by (auto simp: G_def subst_blk_def drop_insts_def)
    then have "i_id (last (b_insts b)) = i_id (last (b_insts c))" using kept_last [of c del] last [OF c(1,3)] del by (auto simp: G_def)
    with last [OF c(1,3)] j ds show "i_id (last (b_insts b)) \<noteq> j" by auto
  qed
qed

text \<open>What holds of a loop before and after each of its pointers.\<close>

definition loop_ready :: "forest \<Rightarrow> nat \<Rightarrow> loops_done \<Rightarrow> edit \<Rightarrow> bool" where
  "loop_ready FO l L e \<longleftrightarrow>
     (\<exists>p q. (ld_preheader L l = Some p \<and> opens_after (fo_header FO l) p (f_blocks (ed_fun e)) \<or>
         ld_preheader L l = None \<and> fo_preheader FO l = Some p) \<and> latches_of FO L l = [q] \<and>
       loop_form (fo_header FO l) (blocks_of L l) p q (f_blocks (ed_fun e)) (ed_next e)) \<and>
     inner_markers L (f_blocks (ed_fun e)) \<and> (\<forall>j\<in>fst ` set (ld_checks L). j < ed_next e) \<and>
     (\<forall>mut. loop_declared mut e)"

definition marker_operands :: "edit \<Rightarrow> val \<Rightarrow> val \<Rightarrow> bool" where
  "marker_operands e base sv \<longleftrightarrow> \<not> is_const base \<and> is_ptr (type_of e base) \<and> type_of e sv = Int64Type \<and>
     (\<forall>i. base = VInst i \<or> sv = VInst i \<longrightarrow> i < ed_next e) \<and> (\<forall>f. sv \<noteq> VFun f)"

lemma inner_markers_routed:
  assumes "inner_markers L bs" "\<forall>j\<in>fst ` set (ld_checks L). j < n" "ld_checks L' = ld_checks L"
    and news: "\<And>b. b \<in> set news \<Longrightarrow> n \<le> i_id (last (b_insts b))"
  shows "inner_markers L' (map (\<lambda>b. rephi ls f (rebranch q g b)) bs @ news)"
proof -
  have "i_id (last (b_insts (rephi ls f (rebranch q g b)))) = i_id (last (b_insts b))" if "b_insts b \<noteq> []" for b
    using that by (metis last_map rephi_simps(2,4) rebranch_simps(2,3))
  then show ?thesis using assms by (fastforce simp: inner_markers_def)
qed

text \<open>The block before the loop is there.\<close>

lemma open_loop_ready:
  assumes R: "loop_ready FO l L e" and m: "phis_match (f_blocks (ed_fun e))" and ops: "marker_operands e base sv"
  obtains p q L' e' where "open_loop FO l (L, e) = Done (p, L', e')" "latches_of FO L' l = [q]"
    "loop_form (fo_header FO l) (blocks_of L' l) p q (f_blocks (ed_fun e')) (ed_next e')"
    "opens_after (fo_header FO l) p (f_blocks (ed_fun e'))" "phis_match (f_blocks (ed_fun e'))"
    "inner_markers L' (f_blocks (ed_fun e'))" "\<forall>j\<in>fst ` set (ld_checks L'). j < ed_next e'"
    "\<forall>mut. loop_declared mut e'" "marker_operands e' base sv"
proof -
  let ?bs = "f_blocks (ed_fun e)" and ?n = "ed_next e" and ?h = "fo_header FO l"
  obtain p q where F: "loop_form ?h (blocks_of L l) p q ?bs ?n" and q: "latches_of FO L l = [q]"
    and c: "ld_preheader L l = Some p \<and> opens_after ?h p ?bs \<or> ld_preheader L l = None \<and> fo_preheader FO l = Some p"
    and r: "inner_markers L ?bs" "\<forall>j\<in>fst ` set (ld_checks L). j < ?n" "\<forall>mut. loop_declared mut e"
    using R by (auto simp: loop_ready_def)
  from c show thesis
  proof
    assume o: "ld_preheader L l = Some p \<and> opens_after ?h p ?bs"
    then have "open_loop FO l (L, e) = Done (p, L, e)" by (simp add: open_loop_def)
    with that q F o m r ops show thesis by blast
  next
    assume o: "ld_preheader L l = None \<and> fo_preheader FO l = Some p"
    let ?N = "[\<lparr>b_id = ?n, b_insts = [ins (?n + 1) TVoid (Br ?h)]\<rparr>]" and ?L = "add_block_of l ?n L"
    define bs where "bs = map (rephi (?n # blocks_of L l) (\<lambda>i. if i = p then ?n else i)) (map (rebranch p (\<lambda>_. ?n)) ?bs @ ?N)"
    have b: "bs = map (\<lambda>b. rephi (?n # blocks_of L l) (\<lambda>i. if i = p then ?n else i) (rebranch p (\<lambda>_. ?n) b)) ?bs @ ?N"
      by (simp add: bs_def rephi_def)
    have n: "?n \<notin> set (blocks_of L l)" using loop_form_below(2) [OF F, of ?n] by auto
    have t: "type_of (with_blocks e bs k) v = type_of e v" if "\<And>i. v = VInst i \<Longrightarrow> i < ?n" "\<And>f. v \<noteq> VFun f" for v k
    proof -
      have "type_of (with_blocks e bs k) v = type_of (with_blocks e ?bs ?n) v" unfolding b by (rule new_types [OF _ that]) auto
      then show ?thesis by (simp flip: own_blocks)
    qed
    have base: "\<forall>f. base \<noteq> VFun f" using ops by (auto simp: marker_operands_def)
    show thesis
    proof (rule that)
      show "open_loop FO l (L, e) = Done (?n, ?L, with_blocks e bs (?n + 2))"
        using open_loop_new [OF F] o by (simp add: bs_def)
      show "latches_of FO ?L l = [q]" using q by simp
      show "loop_form ?h (blocks_of ?L l) ?n q (f_blocks (ed_fun (with_blocks e bs (?n + 2)))) (ed_next (with_blocks e bs (?n + 2)))"
        "phis_match (f_blocks (ed_fun (with_blocks e bs (?n + 2))))" "opens_after ?h ?n (f_blocks (ed_fun (with_blocks e bs (?n + 2))))"
        using outer_form [OF F m bs_def] n by (simp_all add: blocks_of_add)
      show "inner_markers ?L (f_blocks (ed_fun (with_blocks e bs (?n + 2))))"
        unfolding with_blocks_simps b by (rule inner_markers_routed [OF r(1,2)]) auto
      show "\<forall>j\<in>fst ` set (ld_checks ?L). j < ed_next (with_blocks e bs (?n + 2))" using r(2) by fastforce
      show "\<forall>mut. loop_declared mut (with_blocks e bs (?n + 2))" using r(3) by simp
      show "marker_operands (with_blocks e bs (?n + 2)) base sv"
        using ops t [of base] t [of sv] base by (auto simp: marker_operands_def)
    qed
  qed
qed

text \<open>The three blocks of a pointer make it a site for the pointer's code.\<close>

lemma pointer_site:
  assumes F: "loop_form h ls p q (f_blocks (ed_fun e)) k" and k: "ed_next e = k"
    and O: "opens_after h p (f_blocks (ed_fun e))" and m: "phis_match (f_blocks (ed_fun e))"
    and im: "inner_markers L (f_blocks (ed_fun e))" "\<forall>j\<in>fst ` set (ld_checks L). j < k" "ld_checks L' = ld_checks L"
    and ops: "marker_operands e base sv"
    and bs: "bs = map (rephi ((k + 4) # (k + 2) # k # ls) (\<lambda>i. if i = q then k else i))
      (map (rebranch q (\<lambda>i. if i = h then k + 4 else i)) (f_blocks (ed_fun e)) @ check_blks k h c)"
  obtains S where "good_site S" "st_k S = k" "st_header S = h" "st_outer S = p" "site_blocks S [] [] [] [] [] c = bs"
    "good_operands S e base sv" "loop_form h ((k + 4) # (k + 2) # k # ls) p k bs (k + 6)" "phis_match bs" "inner_markers L' bs"
proof -
  define G where "G = (\<lambda>b. rephi ((k + 4) # (k + 2) # k # ls) (\<lambda>i. if i = q then k else i)
    (rebranch q (\<lambda>i. if i = h then k + 4 else i) b))"
  note T = latch_form [OF F m bs G_def]
  have G: "below k (map G (f_blocks (ed_fun e)))" "opens_after h p (map G (f_blocks (ed_fun e)))"
    "\<forall>b\<in>set (map G (f_blocks (ed_fun e))). k \<notin> set (block_targets b)"
    using loop_formD(1) [OF F] opens_after_routed [OF O loop_form_edge(1) [OF F] G_def [THEN fun_cong]] T(4)
    by (simp_all add: below_map G_def)
  obtain S where S: "good_site S" "st_k S = k" "st_header S = h" "st_outer S = p"
    "site_blocks S [] [] [] [] [] c = map G (f_blocks (ed_fun e)) @ check_blks k h c"
    by (rule form_site [OF T(1) [unfolded T(3)] G])
  have sb: "site_blocks S [] [] [] [] [] c = bs" unfolding S(5) T(3) ..
  have t: "type_of (site_edit S e [] [] [] [] [] (num 0) 0) v = type_of e v" if "\<And>i. v = VInst i \<Longrightarrow> i < k" "\<And>f. v \<noteq> VFun f" for v
  proof -
    have "type_of (with_blocks e bs 0) v = type_of (with_blocks e (f_blocks (ed_fun e)) k) v"
      unfolding T(3) G_def by (rule new_types [OF _ that]) (auto simp: check_blks_def)
    then have "type_of (site_edit S e [] [] [] [] [] c 0) v = type_of e v" by (simp add: sb flip: own_blocks k)
    then show ?thesis using site_type [of v S "[]" e c 0] that(1) by (simp add: S(2))
  qed
  have "\<forall>f. base \<noteq> VFun f" using ops by (auto simp: marker_operands_def)
  then have o: "good_operands S e base sv" using ops t by (simp add: good_operands_def marker_operands_def S(2) k)
  have "inner_markers L' bs"
    unfolding T(3) G_def by (rule inner_markers_routed [OF im]) (auto simp: check_blks_def)
  with that [OF S(1-4) sb o T(1,2)] show thesis .
qed

text \<open>
  C37: transforming one pointer of a loop keeps the function well formed: when every phi has one
  incoming value for each edge into its block, and the loop has one latch and a block before it, the
  function that \<open>_createCARMLoop\<close> leaves is so again, with its new blocks, redirected branches and
  rewritten phis, and the loop is ready for its next pointer.
\<close>

theorem createCARMLoop_phis_match:
  assumes R: "loop_ready FO l L e" and m: "phis_match (f_blocks (ed_fun e))"
    and gep: "i_op gep = Gep gt base gis" "is_ptr (i_ty gep)" and ops: "marker_operands e base sv"
    and run: "createCARMLoop f FO l sv start gep False mut (L, e) = Done (g, L', e')"
  shows "loop_ready FO l L' e' \<and> phis_match (f_blocks (ed_fun e'))"
proof -
  obtain p q L1 e1 where o: "open_loop FO l (L, e) = Done (p, L1, e1)" and q: "latches_of FO L1 l = [q]"
    and F: "loop_form (fo_header FO l) (blocks_of L1 l) p q (f_blocks (ed_fun e1)) (ed_next e1)"
    and 1: "opens_after (fo_header FO l) p (f_blocks (ed_fun e1))" "phis_match (f_blocks (ed_fun e1))"
      "inner_markers L1 (f_blocks (ed_fun e1))" "\<forall>j\<in>fst ` set (ld_checks L1). j < ed_next e1"
      "\<forall>mut. loop_declared mut e1" "marker_operands e1 base sv"
    by (rule open_loop_ready [OF R m ops])
  obtain k where k: "ed_next e1 = k" by simp
  let ?c = "VInt Int1Type 0" and ?L = "add_blocks_of l k L1"
  have ch: "ld_checks ?L = ld_checks L1" by (simp add: add_blocks_of_def)
  obtain bs where bs: "bs = map (rephi ((k + 4) # (k + 2) # k # blocks_of L1 l) (\<lambda>i. if i = q then k else i))
      (map (rebranch q (\<lambda>i. if i = fo_header FO l then k + 4 else i)) (f_blocks (ed_fun e1)) @ check_blks k (fo_header FO l) ?c)"
    by simp
  obtain S where S: "good_site S" "st_k S = k" "st_header S = fo_header FO l" "st_outer S = p" "site_blocks S [] [] [] [] [] ?c = bs"
    and T: "good_operands S e1 base sv" "loop_form (fo_header FO l) ((k + 4) # (k + 2) # k # blocks_of L1 l) p k bs (k + 6)"
      "phis_match bs" "inner_markers ?L bs"
    by (rule pointer_site [OF F [unfolded k] k 1(1-3) 1(4) [unfolded k] ch 1(6) bs])
  obtain L2 where it: "createCARMLoopIter f FO l p (k + 4) (k + 2) k sv start gep False mut (?L, with_blocks e1 bs (k + 6)) = Done (g, L2, e')"
    and L': "L' = L2\<lparr>ld_preheader := (ld_preheader L2)(l \<mapsto> p), ld_latches := (ld_latches L2)(l \<mapsto> [k])\<rparr>"
    using run unfolding createCARMLoop_steps [OF o k F [unfolded k] q, folded bs] by (auto simp: bindR_Done_iff)
  note I = iter_form [where S = S and e = e1 and L = ?L and c = ?c, unfolded S(2-5),
    OF S(1) T(1) 1(5) [rule_format] refl gep T(2,3) 1(4) [folded ch, unfolded k] T(4) it]
  obtain ds where ds: "set ds \<subseteq> set (ld_checks L1)" "L2 = ?L\<lparr>ld_checks := ds\<rparr>" using I(6) ch by auto
  have "blocks_of L' l = (k + 4) # (k + 2) # k # blocks_of L1 l"
    using add_blocks_of_blocks [OF F [unfolded k]] by (simp add: L' ds(2) blocks_of_def)
  moreover have "ld_preheader L' l = Some p" "latches_of FO L' l = [k]" "ld_checks L' = ds" by (simp_all add: L' ds(2) latches_of_def)
  moreover have "\<forall>j\<in>fst ` set ds. j < ed_next e'" using 1(4) ds(1) k I(5) by fastforce
  moreover have "\<forall>mut. loop_declared mut e'" using I(7) loop_declared_after 1(5) by blast
  ultimately have "loop_ready FO l L' e'" using I(1,3,4) ds(2) unfolding loop_ready_def inner_markers_def by auto
  with I(2) show ?thesis by blast
qed

section \<open>The loop over an array, before the pass\<close>

definition array_before :: "block list" where
  "array_before =
     [\<lparr>b_id = 10, b_insts = [ins 1 TVoid (Br 11)]\<rparr>,
      \<lparr>b_id = 11, b_insts = [ins 2 Int64Type (Phi [(VArg 1, 10), (VInst 5, 11)]), st_first array_site,
         ins 9 TVoid (Call (VFun CARM_DEREF_DUMMY) [VInst 3]), ins 4 Int64Type (Load Int64Type (VInst 3)),
         ins 5 Int64Type (Bin Add (VInst 2) (num 8)), ins 6 Int1Type (ICmp UGE (VInst 5) (num 100)),
         ins 7 TVoid (CondBr (VInst 6) 11 12)]\<rparr>,
      \<lparr>b_id = 12, b_insts = [ins 8 TVoid (Ret None)]\<rparr>]"

definition array_loop :: loops_done where
  "array_loop = array_done\<lparr>ld_blocks := [0 \<mapsto> [11]]\<rparr>"

lemma array_form: "loop_form 11 [11] 10 11 array_before 18"
  by (simp add: loop_form_def array_before_def array_site_def preds_in_simps block_targets_def)

lemma array_loop_ready: "loop_ready array_forest 0 array_loop (with_blocks array_edit array_before 18)" "phis_match array_before"
proof -
  have "blocks_of array_loop 0 = [11]" "latches_of array_forest array_loop 0 = [11]" "ld_preheader array_loop 0 = None"
    "fo_preheader array_forest 0 = Some 10" "fo_header array_forest 0 = 11" "ld_checks array_loop = [(9, Some 4)]"
    by (simp_all add: array_loop_def array_done_def blocks_of_def latches_of_def array_forest_def)
  moreover have "inner_markers array_loop array_before"
    by (simp add: inner_markers_def array_loop_def array_done_def array_before_def)
  moreover have "loop_declared mut (with_blocks array_edit array_before 18)" for mut
    by (simp add: loop_declared_def array_edit_def declares_as_def find_decl_def)
  ultimately show "loop_ready array_forest 0 array_loop (with_blocks array_edit array_before 18)"
    using array_form by (simp add: loop_ready_def)
  show "phis_match array_before"
    by (simp add: phis_match_def array_before_def block_phis_def preds_in_simps block_targets_def array_site_def)
qed

lemma array_opened:
  "\<exists>L'. createCARMLoop (Suc 0) array_forest 0 (VArg 2) (VArg 1) (st_first array_site) False False
     (array_loop, with_blocks array_edit array_before 18) =
   Done (pointer_state 20, L', with_blocks (after_calls False array_edit) array_blocks 42)"
proof -
  let ?h = "fo_header array_forest 0"
  have L: "blocks_of array_loop 0 = [11]" "latches_of array_forest array_loop 0 = [11]" "ld_preheader array_loop 0 = None"
    "fo_preheader array_forest 0 = Some 10" "?h = 11" "ld_checks array_loop = [(9, Some 4)]"
    by (simp_all add: array_loop_def array_done_def blocks_of_def latches_of_def array_forest_def)
  define b1 where "b1 = map (rephi [18, 11] (\<lambda>i. if i = 10 then 18 else i))
    (map (rebranch 10 (\<lambda>_. 18)) array_before @ [\<lparr>b_id = 18, b_insts = [ins 19 TVoid (Br 11)]\<rparr>])"
  have o: "open_loop array_forest 0 (array_loop, with_blocks array_edit array_before 18) =
      Done (18, add_block_of 0 18 array_loop, with_blocks array_edit b1 20)"
    using open_loop_new [of array_forest 0 array_loop 10 11 "with_blocks array_edit array_before 18",
        unfolded with_blocks_simps L] array_form
    by (simp add: b1_def del: map_append map_map list.map)
  have bl: "blocks_of (add_block_of 0 18 array_loop) 0 = [18, 11]" using L by (simp add: blocks_of_add)
  have F: "loop_form 11 [18, 11] 18 11 b1 20" using outer_form(1) [OF array_form array_loop_ready(2)] by (simp add: b1_def)
  have la: "latches_of array_forest (add_block_of 0 18 array_loop) 0 = [11]" using L by simp
  define bs where "bs = map (rephi [24, 22, 20, 18, 11] (\<lambda>i. if i = 11 then 20 else i))
    (map (rebranch 11 (\<lambda>i. if i = 11 then 24 else i)) b1 @ check_blks 20 11 (VInt Int1Type 0))"
  have bs: "bs = site_blocks array_site [] [] [] [] [] (VInt Int1Type 0)"
    by (simp add: bs_def b1_def array_before_def check_blks_def array_site_def site_simps rephi_def rebranch_def)
  have nums: "(20::ident) + 2 = 22" "(20::ident) + 4 = 24" "(20::ident) + 6 = 26" by simp_all
  let ?L = "add_blocks_of 0 20 (add_block_of 0 18 array_loop)"
  have r: "createCARMLoop (Suc 0) array_forest 0 (VArg 2) (VArg 1) (st_first array_site) False False
      (array_loop, with_blocks array_edit array_before 18) =
    bindR (createCARMLoopIter (Suc 0) array_forest 0 18 24 22 20 (VArg 2) (VArg 1) (st_first array_site) False False
        (?L, with_blocks array_edit bs 26))
      (\<lambda>(g, L, e). Done (g, L\<lparr>ld_preheader := (ld_preheader L)(0 \<mapsto> 18), ld_latches := (ld_latches L)(0 \<mapsto> [20])\<rparr>, e))"
    using createCARMLoop_steps [OF o _ _ la, of 20 18 "Suc 0" "VArg 2" "VArg 1" "st_first array_site" False False,
        unfolded nums] F
    by (simp add: L bl bs_def del: map_append map_map list.map)
  have ch: "ld_checks ?L = [(9, Some 4)]" by (simp add: add_blocks_of_def L)
  show ?thesis unfolding r bs array_iter [OF ch] by simp
qed

theorem createCARMLoop_phis_match_witness:
  "\<exists>g L' e'. createCARMLoop (Suc 0) array_forest 0 (VArg 2) (VArg 1) (st_first array_site) False False
     (array_loop, with_blocks array_edit array_before 18) = Done (g, L', e') \<and>
   loop_ready array_forest 0 L' e' \<and> phis_match (f_blocks (ed_fun e'))"
proof -
  obtain L' where r: "createCARMLoop (Suc 0) array_forest 0 (VArg 2) (VArg 1) (st_first array_site) False False
     (array_loop, with_blocks array_edit array_before 18) =
   Done (pointer_state 20, L', with_blocks (after_calls False array_edit) array_blocks 42)"
    using array_opened by blast
  have "i_op (st_first array_site) = Gep Int64Type (VArg 0) [VInst 2]" "is_ptr (i_ty (st_first array_site))"
    "marker_operands (with_blocks array_edit array_before 18) (VArg 0) (VArg 2)" "phis_match (f_blocks (ed_fun (with_blocks array_edit array_before 18)))"
    using array_loop_ready(2) by (simp_all add: array_site_def marker_operands_def array_edit_def)
  from createCARMLoop_phis_match [OF array_loop_ready(1) this(4,1,2,3) r] r show ?thesis by blast
qed

end
