(* ===== verification/Spec2Isabelle.thy ===== *)
theory Spec2Isabelle
  imports Free_Props Loops Stale_Copy Str_Props Io_Props Runtime_Init Libc_Props Guard_Props Init_Pass Loop_Start Loop_Walk Loop_Form
begin

text \<open>
  TrackFM: a compiler and a runtime that let an unmodified program keep its heap on another
  machine. The runtime (\<open>src/runtime/src\<close>, \<open>src/runtime/inc\<close>) hands out remote pointers,
  numbers with bit 60 set that name an offset in a far address space cut into objects of 4096
  bytes; AIFM brings objects into local memory and evicts them. The compiler passes
  (\<open>src/runtime/compiler_passes/passes\<close>) put a test before every load and store that turns a
  remote pointer into the object's local address, redirect the C library to the runtime's
  versions, and start the runtime before \<open>main\<close>.

  \<^bold>\<open>The runtime.\<close> The state is the record \<open>rt\<close> of \<open>Runtime_State\<close>: the object state table
  \<open>carm_obj_state\<close> with the metadata words the compiled program reads, the slots \<open>ptrs_\<close>, the
  bump allocator, the loop registry, the memory of the process as a function from 64-bit
  addresses to bytes, and the state of AIFM. Operations return a \<open>run\<close>: \<open>Done\<close>, or
  \<open>Aborted\<close> (a failed assertion), \<open>Exited\<close> (a call of \<open>exit\<close>), \<open>Faulted\<close> (undefined behaviour
  of C: an index out of bounds, an uninitialised slot) or \<open>OutOfFuel\<close>.
  \<^item> \<open>Carm_Config\<close>: the constants of \<open>carm_object_config.hpp\<close> and \<open>Carm_Ptr\<close>.
  \<^item> \<open>C_Memory\<close>: the C library's functions on bytes. \<open>Prelude\<close>: words, runs, ranges.
    \<open>Fuel\<close>: operations that take fuel.
  \<^item> \<open>Carm_Core\<close>: \<open>carm.cpp\<close>, the dereference operations, the scope and the eviction callback.
  \<^item> \<open>Object_View\<close>: the program's memory as a partial map from addresses, local and remote, to
    bytes (\<open>view\<close>); \<open>rt_inv\<close>, the coherence of the state table with AIFM; \<open>evolves\<close>, a change
    that keeps the program's memory. AIFM is not part of the repository: its operations are the
    record \<open>env_ops\<close> and what the runtime relies on is \<open>env_laws\<close>. AIFM may evict any object at
    any call, and writes it back only if it is marked modified, which a dereference for writing does
    (\<open>kDirtyClear\<close>): \<open>rt_inv\<close> demands that no object has changes that an eviction would lose.
    \<open>Sim_Env\<close> is a concrete AIFM that satisfies the laws, with eight local frames, write-back of
    marked objects only, and eviction of everything at the end of a scope.
  \<^item> \<open>Deref_Service\<close>: the contract of a dereference operation as a locale, interpreted on all of
    \<open>Carm_Core\<close>'s operations and in \<open>Fast_Path\<close> on \<open>_ptrDeref\<close>.
  \<^item> \<open>Far_Memory\<close>, \<open>Chunk_Walk\<close>: ranges of remote addresses, and the walk over a range object by
    object, a locale that the copy and string functions interpret.
  \<^item> \<open>Libc_Copy\<close>, \<open>Libc_Alloc\<close>, \<open>Libc_Str\<close>, \<open>Libc_Printf\<close>, \<open>Libc_Io\<close>: \<open>libc_support.cpp\<close> in the
    order of the file. \<open>Alloc_Props\<close>, \<open>Free_Props\<close>, \<open>Str_Props\<close>,
    \<open>Io_Props\<close> hold what they guarantee. \<open>Stale_Copy\<close>: the copy between two remote ranges under an
    AIFM that evicts at the end of a scope.
  \<^item> \<open>Loops\<close>: \<open>carm_loops.cpp\<close>. \<open>Runtime_Init\<close>: \<open>carm_runtime.cpp\<close> and \<open>prefetcher.cpp\<close>.

  \<^bold>\<open>The compiler.\<close> \<open>IR\<close> is the part of LLVM's representation that the passes read and write,
  with the edits of the API they call; instructions and blocks have numbers, and new ones count on
  from \<open>ed_next\<close>.
  \<^item> \<open>Libc_Transform\<close>: \<open>carm_libc_transform\<close>, one specification per kind of function.
    \<open>Libc_Props\<close>: no call of a redirected function is left, and each call becomes the one that
    the table of specifications names.
  \<^item> \<open>Checks_Pass\<close>: \<open>carm_checks\<close>, the markers before loads and stores. \<open>Checks_Props\<close>: every access
    gets its marker and nothing else changes; the removal phase ends, and removes markers of stack
    pointers only, except at a phi, of which it looks at the first incoming value alone. The
    \<open>std::set\<close> of checks is a list in the order of insertion; its order by address is not in the
    program, and the rounds go on until no check is added.
  \<^item> \<open>Guard_Pass\<close>: \<open>carm_transform\<close>, which turns a marker into the inlined dereference.
  \<^item> \<open>Init_Pass\<close>: \<open>carm_init\<close>.
  \<^item> \<open>IR_Edit\<close>, \<open>Guard_Emit\<close>: the exact code \<open>transform_check\<close> emits. \<open>IR_Exec\<close>: execution of
    that code against the model of the runtime. \<open>Guard_Exec\<close>, \<open>Guard_Props\<close>: it computes what
    \<open>_ptrDeref\<close> computes, so a guarded load reads and a guarded store writes the program's memory.

  \<^item> \<open>Loop_Checks\<close>: \<open>carm_loop_checks\<close> and \<open>carm_profile_checks\<close>, the markers of address computations in
    loops. \<open>Loop_Start\<close>: the start and the step of a marker are computed before the loop and give
    the offset of every iteration.
  \<^item> \<open>Loop_Transform\<close>: \<open>carm_loop_transform\<close>, which replaces such a computation by a local pointer in
    a phi of the header. \<open>Loop_Emit\<close>: the exact code of one pointer; \<open>Loop_Exec\<close>: running it block
    by block (\<open>advance\<close> summarises a pass behind an iteration for the proofs, which show that the
    emitted blocks compute it); \<open>Loop_Walk\<close>: with the runtime behind it, the pointer is the address of the program's
    current element. \<open>Loop_Cfg\<close>, \<open>Loop_Form\<close>: the function stays well formed, every phi with one
    value for each edge into its block, and the loop ready for its next pointer.

  \<^bold>\<open>What the lemmas show.\<close> The dereference operations, the inlined dereference and the emitted
  guards deliver an address that holds the program's bytes and keep the table coherent, across
  evictions; \<open>memcpy\<close>, \<open>memset\<close>, the string functions and the allocator act on the program's memory
  as the C library does on local memory, on the stated ranges; blocks of \<open>malloc\<close> are disjoint and
  \<open>free\<close> accounts their bytes to objects exactly and detects a byte too many; start-up establishes the invariant; loops closed
  in reverse order never exhaust the registry; writing a remote
  buffer to a stream hands over its bytes; a rewritten loop reads each element at the address
  that holds it when the step divides the size of an object. Where the code departs from this, a
  theorem shows it: copies of 4 GiB, copies between remote ranges under eviction, \<open>memchr\<close>, loops
  closed out of order, loops whose step does not divide the size of an object or is negative.

  \<^bold>\<open>Bounds and fuel.\<close> Loops over objects take fuel, one unit for each object; the properties
  state how much is enough (a range of \<open>n\<close> bytes needs at most \<open>n div 4096 + 3\<close>) or that no amount is.
  More fuel never changes a result: the locale \<open>fuelled\<close> states it, interpreted on the operations.
  Remote addresses stay below \<open>2 ^ 60\<close> above the base, which is what the encoding can express.

  \<^bold>\<open>Not modelled.\<close> AIFM, the C library's digits and streams and NOELLE's alias analysis are
  parameters; so are NOELLE's loops, induction variables and loop forest. Tracing and debug
  printing are off. The applications, experiments and scripts are not part of the system.
\<close>

end
